(* ===== verification/Prelude.thy ===== *)
theory Prelude
  imports Main "HOL-Library.AList" "HOL-Library.List_Lexorder" "HOL-Library.Char_ord"
    "HOL-Library.Word"
begin

text \<open>
  What every component shares: the outcome of fallible code, Rust's strings as lists of bytes,
  Rust's ordered and unordered maps as association lists, saturating arithmetic, and the file
  system as a document with a stream of I/O outcomes.
\<close>

section \<open>Collections of facts\<close>

named_theorems lookup_simps "what a lookup answers after an update"
named_theorems keeps_wf "every operation keeps its container well formed"

section \<open>Results\<close>

text \<open>\<open>Result<T, E>\<close> is a sum; \<open>Err\<close> and \<open>Ok\<close> are its two injections.\<close>

abbreviation Err :: "'e \<Rightarrow> 'e + 'a" where "Err \<equiv> Inl"
abbreviation Ok :: "'a \<Rightarrow> 'e + 'a" where "Ok \<equiv> Inr"

section \<open>Byte strings\<close>

text \<open>
  A Rust \<open>str\<close> is its UTF-8 bytes: \<open>len\<close> counts bytes and \<open>cmp\<close> orders bytes
  lexicographically, as \<^typ>\<open>string\<close> does here with \<open>Char_ord\<close> and \<open>List_Lexorder\<close>.
\<close>

definition byte :: "char \<Rightarrow> nat" where
  "byte c = of_char c"

definition is_ascii_digit :: "char \<Rightarrow> bool" where
  "is_ascii_digit c \<longleftrightarrow> 48 \<le> byte c \<and> byte c \<le> 57"

definition is_ascii_lowercase :: "char \<Rightarrow> bool" where
  "is_ascii_lowercase c \<longleftrightarrow> 97 \<le> byte c \<and> byte c \<le> 122"

definition is_ascii_uppercase :: "char \<Rightarrow> bool" where
  "is_ascii_uppercase c \<longleftrightarrow> 65 \<le> byte c \<and> byte c \<le> 90"

definition is_ascii_alphanumeric :: "char \<Rightarrow> bool" where
  "is_ascii_alphanumeric c \<longleftrightarrow> is_ascii_digit c \<or> is_ascii_lowercase c \<or> is_ascii_uppercase c"

definition is_ascii_hexdigit :: "char \<Rightarrow> bool" where
  "is_ascii_hexdigit c \<longleftrightarrow> is_ascii_digit c \<or> (97 \<le> byte c \<and> byte c \<le> 102) \<or> (65 \<le> byte c \<and> byte c \<le> 70)"

definition to_ascii_lowercase :: "char \<Rightarrow> char" where
  "to_ascii_lowercase c = (if is_ascii_uppercase c then char_of (byte c + 32) else c)"

lemmas ascii_defs = is_ascii_alphanumeric_def is_ascii_digit_def is_ascii_lowercase_def
  is_ascii_uppercase_def is_ascii_hexdigit_def byte_def

text \<open>\<open>str::split_once\<close> and \<open>str::split\<close> on one ASCII character.\<close>

fun split_once :: "char \<Rightarrow> string \<Rightarrow> (string \<times> string) option" where
  "split_once c [] = None"
| "split_once c (x # xs) =
     (if x = c then Some ([], xs)
      else map_option (\<lambda>(l, r). (x # l, r)) (split_once c xs))"

fun split_on :: "char \<Rightarrow> string \<Rightarrow> string list" where
  "split_on c [] = [[]]"
| "split_on c (x # xs) =
     (if x = c then [] # split_on c xs
      else (case split_on c xs of [] \<Rightarrow> [[x]] | y # ys \<Rightarrow> (x # y) # ys))"

definition starts_with :: "string \<Rightarrow> string \<Rightarrow> bool" where
  "starts_with s prefix \<longleftrightarrow> take (length prefix) s = prefix"

definition ends_with :: "string \<Rightarrow> string \<Rightarrow> bool" where
  "ends_with s suffix \<longleftrightarrow> starts_with (rev s) (rev suffix)"

definition strip_prefix :: "string \<Rightarrow> string \<Rightarrow> string option" where
  "strip_prefix s prefix = (if starts_with s prefix then Some (drop (length prefix) s) else None)"

definition strip_suffix :: "string \<Rightarrow> string \<Rightarrow> string option" where
  "strip_suffix s suffix =
     (if ends_with s suffix then Some (take (length s - length suffix) s) else None)"

lemma list_all_dropWhile: "list_all P xs \<Longrightarrow> list_all P (dropWhile Q xs)"
  by (induction xs) auto

lemma split_once_None: "split_once c s = None \<longleftrightarrow> c \<notin> set s"
  by (induction s) auto

lemma split_once_Some: "split_once c s = Some (l, r) \<longleftrightarrow> s = l @ c # r \<and> c \<notin> set l"
proof (induction s arbitrary: l)
  case Nil
  then show ?case by simp
next
  case (Cons a s)
  have "split_once c (a # s) = Some (l, r) \<longleftrightarrow>
      (if a = c then l = [] \<and> s = r else (\<exists>l'. l = a # l' \<and> split_once c s = Some (l', r)))"
    by auto
  also have "\<dots> \<longleftrightarrow> (if a = c then l = [] \<and> s = r else (\<exists>l'. l = a # l' \<and> s = l' @ c # r \<and> c \<notin> set l'))"
    by (simp only: Cons.IH)
  also have "\<dots> \<longleftrightarrow> a # s = l @ c # r \<and> c \<notin> set l"
    by (cases l) auto
  finally show ?case .
qed

lemma first_split_inject:
  fixes a b r s :: string
  assumes "c \<notin> set a" and "c \<notin> set b"
  shows "a @ c # r = b @ c # s \<longleftrightarrow> a = b \<and> r = s"
proof
  assume eq: "a @ c # r = b @ c # s"
  have part: "split_once c (l @ c # t) = Some (l, t)" if "c \<notin> set l" for l t
    using that by (intro iffD2 [OF split_once_Some]) simp
  have "Some (a, r) = split_once c (a @ c # r)" by (rule part [OF assms(1), symmetric])
  also have "\<dots> = split_once c (b @ c # s)" by (rule arg_cong [OF eq])
  also have "\<dots> = Some (b, s)" by (rule part [OF assms(2)])
  finally show "a = b \<and> r = s" by simp
qed simp

lemma split_on_not_Nil [simp]: "split_on c s \<noteq> []"
  by (induction s) (auto split: list.splits)

lemma split_on_parts: "x \<in> set (split_on c s) \<Longrightarrow> set x \<subseteq> set s \<and> c \<notin> set x"
proof (induction s arbitrary: x)
  case Nil
  then show ?case by simp
next
  case (Cons a s)
  obtain y ys where "split_on c s = y # ys" by (cases "split_on c s") auto
  with Cons show ?case by (fastforce split: if_splits)
qed

fun join_with :: "char \<Rightarrow> string list \<Rightarrow> string" where
  "join_with c [] = []"
| "join_with c [x] = x"
| "join_with c (x # y # ys) = x @ c # join_with c (y # ys)"

lemma join_split: "join_with c (split_on c s) = s"
proof (induction s)
  case Nil
  then show ?case by simp
next
  case (Cons a s)
  obtain y ys where "split_on c s = y # ys" by (cases "split_on c s") auto
  with Cons show ?case by (cases ys) auto
qed

lemma split_on_inject: "split_on c s = split_on c t \<longleftrightarrow> s = t"
  using join_split by metis

lemma set_split_on: "set s \<subseteq> insert c (\<Union> (set ` set (split_on c s)))"
proof (induction s)
  case Nil
  then show ?case by simp
next
  case (Cons a s)
  obtain y ys where "split_on c s = y # ys" by (cases "split_on c s") auto
  with Cons show ?case by auto
qed

lemma starts_with_append: "starts_with s p \<longleftrightarrow> (\<exists>r. s = p @ r)"
proof
  assume "starts_with s p"
  then have "s = p @ drop (length p) s"
    by (metis append_take_drop_id starts_with_def)
  then show "\<exists>r. s = p @ r" by blast
qed (auto simp: starts_with_def)

lemma strip_prefix_Some: "strip_prefix s p = Some r \<longleftrightarrow> s = p @ r"
  by (auto simp: strip_prefix_def starts_with_append)

lemma ends_with_append: "ends_with s p \<longleftrightarrow> (\<exists>l. s = l @ p)"
proof -
  have "rev s = rev p @ r \<longleftrightarrow> s = rev r @ p" for r
    using rev_swap [of s "rev p @ r"] by simp
  then show ?thesis
    unfolding ends_with_def starts_with_append by (metis rev_rev_ident)
qed

lemma strip_suffix_Some: "strip_suffix s p = Some l \<longleftrightarrow> s = l @ p"
  by (auto simp: strip_suffix_def ends_with_append)


section \<open>Ordered maps\<close>

text \<open>
  A \<open>BTreeMap\<close> is its entries in key order; \<^const>\<open>map_of\<close> looks a key up. \<open>bt_adjust\<close>
  is \<open>get_mut\<close> followed by an assignment, \<open>bt_retain\<close> is \<open>retain\<close>, and
  \<open>bt_collect\<close> collects an iterator of pairs, where a later pair wins.
\<close>

type_synonym ('k, 'v) btree = "('k \<times> 'v) list"

definition bt_wf :: "('k::linorder, 'v) btree \<Rightarrow> bool" where
  "bt_wf m \<longleftrightarrow> sorted_wrt (<) (map fst m)"

fun bt_insert :: "'k::linorder \<Rightarrow> 'v \<Rightarrow> ('k, 'v) btree \<Rightarrow> ('k, 'v) btree" where
  "bt_insert k v [] = [(k, v)]"
| "bt_insert k v ((k', v') # m) =
     (if k < k' then (k, v) # (k', v') # m
      else if k = k' then (k, v) # m
      else (k', v') # bt_insert k v m)"

definition bt_remove :: "'k \<Rightarrow> ('k, 'v) btree \<Rightarrow> ('k, 'v) btree" where
  "bt_remove k m = filter (\<lambda>e. fst e \<noteq> k) m"

definition bt_adjust :: "'k \<Rightarrow> ('v \<Rightarrow> 'v) \<Rightarrow> ('k, 'v) btree \<Rightarrow> ('k, 'v) btree" where
  "bt_adjust k f m = map (\<lambda>e. (fst e, if fst e = k then f (snd e) else snd e)) m"

definition bt_retain :: "('k \<Rightarrow> 'v \<Rightarrow> bool) \<Rightarrow> ('k, 'v) btree \<Rightarrow> ('k, 'v) btree" where
  "bt_retain P m = filter (\<lambda>e. P (fst e) (snd e)) m"

definition bt_collect :: "('k::linorder \<times> 'v) list \<Rightarrow> ('k, 'v) btree" where
  "bt_collect xs = fold (\<lambda>e. bt_insert (fst e) (snd e)) xs []"

definition bt_contains :: "('k, 'v) btree \<Rightarrow> 'k \<Rightarrow> bool" where
  "bt_contains m k \<longleftrightarrow> map_of m k \<noteq> None"

lemma bt_wf_Nil [simp, keeps_wf]: "bt_wf []"
  by (simp add: bt_wf_def)

lemma bt_wf_Cons: "bt_wf ((k, v) # m) \<longleftrightarrow> (\<forall>k' \<in> fst ` set m. k < k') \<and> bt_wf m"
  by (auto simp: bt_wf_def)

lemma bt_wf_distinct: "bt_wf m \<Longrightarrow> distinct (map fst m)"
  by (simp add: bt_wf_def strict_sorted_iff)

lemma keys_bt_insert [simp]: "fst ` set (bt_insert k v m) = insert k (fst ` set m)"
  by (induction k v m rule: bt_insert.induct) (simp_all add: insert_commute)

lemma bt_wf_insert [simp, keeps_wf]: "bt_wf m \<Longrightarrow> bt_wf (bt_insert k v m)"
proof (induction m)
  case Nil
  then show ?case by (simp add: bt_wf_def)
next
  case (Cons e m)
  then show ?case by (cases e) (auto simp: bt_wf_Cons)
qed

lemma bt_wf_filter: "bt_wf m \<Longrightarrow> bt_wf (filter P m)"
  by (auto simp: bt_wf_def sorted_wrt_map sorted_wrt_filter)

lemma bt_wf_remove [simp, keeps_wf]: "bt_wf m \<Longrightarrow> bt_wf (bt_remove k m)"
  by (simp add: bt_remove_def bt_wf_filter)

lemma bt_wf_retain [simp, keeps_wf]: "bt_wf m \<Longrightarrow> bt_wf (bt_retain P m)"
  by (simp add: bt_retain_def bt_wf_filter)

lemma keys_bt_adjust [simp]: "map fst (bt_adjust k f m) = map fst m"
  by (simp add: bt_adjust_def)

lemma bt_wf_adjust [simp, keeps_wf]: "bt_wf (bt_adjust k f m) = bt_wf m"
  by (simp add: bt_wf_def)

lemma map_of_bt_insert [simp, lookup_simps]: "map_of (bt_insert k v m) = (map_of m)(k \<mapsto> v)"
  by (induction m) auto

lemma map_of_bt_remove [simp, lookup_simps]: "map_of (bt_remove k m) = (map_of m)(k := None)"
  by (induction m) (auto simp: bt_remove_def)

lemma map_of_bt_adjust [simp, lookup_simps]:
  "map_of (bt_adjust k f m) = (map_of m)(k := map_option f (map_of m k))"
  by (induction m) (auto simp: bt_adjust_def)

lemma map_of_bt_retain [lookup_simps]:
  assumes "bt_wf m"
  shows "map_of (bt_retain P m) k = (case map_of m k of None \<Rightarrow> None | Some v \<Rightarrow> if P k v then Some v else None)"
  using assms
proof (induction m)
  case Nil
  then show ?case by (simp add: bt_retain_def)
next
  case (Cons e m)
  obtain k' v' where e: "e = (k', v')" by (cases e)
  have IH: "map_of (bt_retain P m) k = (case map_of m k of None \<Rightarrow> None | Some v \<Rightarrow> if P k v then Some v else None)"
    using Cons e by (simp add: bt_wf_Cons)
  have "map_of m k' = None"
    using Cons.prems e by (auto simp: bt_wf_Cons map_of_eq_None_iff)
  with IH e show ?case by (auto simp: bt_retain_def split: option.splits)
qed

lemma length_bt_insert:
  "bt_wf m \<Longrightarrow> length (bt_insert k v m) = (if map_of m k = None then Suc (length m) else length m)"
proof (induction m)
  case Nil
  then show ?case by simp
next
  case (Cons e m)
  obtain k' v' where e: "e = (k', v')" by (cases e)
  have "k < k' \<Longrightarrow> map_of m k = None"
    using Cons.prems e by (fastforce simp: bt_wf_Cons map_of_eq_None_iff)
  with Cons e show ?case by (auto simp: bt_wf_Cons)
qed

lemma bt_wf_collect [simp, keeps_wf]: "bt_wf (bt_collect xs)"
proof -
  have "bt_wf m \<Longrightarrow> bt_wf (fold (\<lambda>e. bt_insert (fst e) (snd e)) xs m)" for m
    by (induction xs arbitrary: m) auto
  then show ?thesis by (simp add: bt_collect_def)
qed

lemma map_of_bt_collect [lookup_simps]: "map_of (bt_collect xs) = map_of (rev xs)"
proof -
  have "map_of (fold (\<lambda>e. bt_insert (fst e) (snd e)) xs m) = map_of m ++ map_of (rev xs)" for m
    by (induction xs arbitrary: m) (auto simp: map_add_def fun_eq_iff split: option.splits)
  then show ?thesis by (simp add: bt_collect_def)
qed

lemma map_of_in_values: "map_of m k = Some v \<Longrightarrow> v \<in> snd ` set m"
  using map_of_SomeD by force

lemma bt_wf_map_of_iff: "bt_wf m \<Longrightarrow> map_of m k = Some v \<longleftrightarrow> (k, v) \<in> set m"
  by (simp add: bt_wf_distinct)

lemma bt_contains_dom [simp]: "bt_contains m k \<longleftrightarrow> k \<in> dom (map_of m)"
  by (auto simp: bt_contains_def)

lemma set_bt_insert_subset: "set (bt_insert k v m) \<subseteq> insert (k, v) (set m)"
  by (induction k v m rule: bt_insert.induct) auto

lemma set_bt_remove_subset: "set (bt_remove k m) \<subseteq> set m"
  by (auto simp: bt_remove_def)

text \<open>Two ordered maps with the same lookups are the same list of entries.\<close>

lemma bt_eqI:
  assumes "bt_wf m" and "bt_wf n" and "map_of m = map_of n"
  shows "m = n"
proof -
  have keys: "map fst l = sorted_list_of_set (dom (map_of l))" if "bt_wf l" for l :: "('a, 'b) btree"
    using that by (simp add: bt_wf_def dom_map_of_conv_image_fst strict_sorted_iff
        flip: set_map sorted_list_of_set.idem_if_sorted_distinct)
  have entries: "l = map (\<lambda>k. (k, the (map_of l k))) (map fst l)" if "bt_wf l" for l :: "('a, 'b) btree"
    using bt_wf_distinct [OF that] by (auto intro!: map_idI [symmetric])
  show ?thesis
    using entries [OF assms(1)] entries [OF assms(2)] keys [OF assms(1)] keys [OF assms(2)] assms(3)
    by metis
qed

section \<open>Ordered sets\<close>

text \<open>A \<open>BTreeSet\<close> is its elements in order; \<open>insert\<close> is \<^const>\<open>insort_insert\<close>.\<close>

type_synonym 'a bset = "'a list"

definition bs_wf :: "'a::linorder bset \<Rightarrow> bool" where
  "bs_wf s \<longleftrightarrow> sorted s \<and> distinct s"

definition bs_insert :: "'a::linorder \<Rightarrow> 'a bset \<Rightarrow> 'a bset" where
  "bs_insert x s = insort_insert x s"

definition bs_remove :: "'a \<Rightarrow> 'a bset \<Rightarrow> 'a bset" where
  "bs_remove x s = filter (\<lambda>y. y \<noteq> x) s"

lemma bs_wf_Nil [simp, keeps_wf]: "bs_wf []"
  by (simp add: bs_wf_def)

lemma bs_wf_insert [simp, keeps_wf]: "bs_wf s \<Longrightarrow> bs_wf (bs_insert x s)"
  by (simp add: bs_wf_def bs_insert_def sorted_insort_insert distinct_insort_insert)

lemma bs_wf_remove [simp, keeps_wf]: "bs_wf s \<Longrightarrow> bs_wf (bs_remove x s)"
  by (simp add: bs_wf_def bs_remove_def sorted_wrt_filter)

lemma set_bs_insert [simp, lookup_simps]: "set (bs_insert x s) = insert x (set s)"
  by (simp add: bs_insert_def set_insort_insert)

lemma set_bs_remove [simp, lookup_simps]: "set (bs_remove x s) = set s - {x}"
  by (auto simp: bs_remove_def)


lemma bs_eqI: "bs_wf s \<Longrightarrow> bs_wf t \<Longrightarrow> set s = set t \<Longrightarrow> s = t"
  unfolding bs_wf_def by (auto intro: sorted_distinct_set_unique)

definition bs_collect :: "'a::linorder list \<Rightarrow> 'a bset" where
  "bs_collect xs = fold bs_insert xs []"

lemma set_bs_fold: "set (fold bs_insert xs s) = set xs \<union> set s"
  by (induction xs arbitrary: s) auto

lemma bs_wf_fold: "bs_wf s \<Longrightarrow> bs_wf (fold bs_insert xs s)"
  by (induction xs arbitrary: s) auto

lemma bs_collect_simps [simp]: "set (bs_collect xs) = set xs" "bs_wf (bs_collect xs)"
  by (simp_all add: bs_collect_def set_bs_fold bs_wf_fold)

lemma bs_collect_id: "bs_wf s \<Longrightarrow> bs_collect s = s"
  by (rule bs_eqI) simp_all

lemma bt_collect_id: "bt_wf m \<Longrightarrow> bt_collect m = m"
  by (rule bt_eqI)
    (simp_all add: map_of_bt_collect map_of_inject_set bt_wf_distinct distinct_rev rev_map [symmetric] del: rev_map)

section \<open>Bounded arithmetic\<close>

text \<open>
  The \<open>saturating_*\<close> methods on \<open>u64\<close>, with the value as a natural number. Every other
  addition the modelled code does is checked: the workspace builds with \<open>overflow-checks = true\<close>
  and leaving the range is a panic, so counters are plain naturals.
\<close>

definition u64_max :: nat where
  "u64_max = 2 ^ 64 - 1"

definition saturating_add :: "nat \<Rightarrow> nat \<Rightarrow> nat" where
  "saturating_add a b = min (a + b) u64_max"

definition saturating_sub :: "nat \<Rightarrow> nat \<Rightarrow> nat" where
  "saturating_sub a b = a - b"

definition saturating_mul :: "nat \<Rightarrow> nat \<Rightarrow> nat" where
  "saturating_mul a b = min (a * b) u64_max"

lemma saturating_add_le: "saturating_add a b \<le> u64_max" "saturating_add a b \<le> a + b"
  by (simp_all add: saturating_add_def)

lemma saturating_mul_le: "saturating_mul a b \<le> u64_max" "saturating_mul a b \<le> a * b"
  by (simp_all add: saturating_mul_def)

lemma saturating_add_exact: "a + b \<le> u64_max \<Longrightarrow> saturating_add a b = a + b"
  by (simp add: saturating_add_def)

section \<open>Text\<close>

text \<open>
  The bytes of one Unicode \<open>White_Space\<close> character at the front of a text, by their number, or 0:
  what \<open>str::trim\<close> removes. A text is its UTF-8 bytes; \<open>chars_count\<close> counts the bytes that are
  not continuation bytes, which is \<open>chars().count()\<close> on valid UTF-8.
\<close>

definition is_cont :: "char \<Rightarrow> bool" where
  "is_cont c \<longleftrightarrow> 128 \<le> byte c \<and> byte c < 192"

fun space_len :: "string \<Rightarrow> nat" where
  "space_len [] = 0"
| "space_len (a # s) =
     (if (9 \<le> byte a \<and> byte a \<le> 13) \<or> byte a = 32 then 1
      else case s of [] \<Rightarrow> 0
      | b # t \<Rightarrow>
        (if byte a = 194 \<and> (byte b = 133 \<or> byte b = 160) then 2
         else case t of [] \<Rightarrow> 0
         | c # _ \<Rightarrow>
           (if (byte a = 225 \<and> byte b = 154 \<and> byte c = 128)
             \<or> (byte a = 226 \<and> byte b = 128
                \<and> ((128 \<le> byte c \<and> byte c \<le> 138) \<or> byte c = 168 \<or> byte c = 169 \<or> byte c = 175))
             \<or> (byte a = 226 \<and> byte b = 129 \<and> byte c = 159)
             \<or> (byte a = 227 \<and> byte b = 128 \<and> byte c = 128)
            then 3 else 0)))"

fun trim_start :: "string \<Rightarrow> nat \<Rightarrow> string" where
  "trim_start s 0 = s"
| "trim_start s (Suc n) = (if space_len s = 0 then s else trim_start (drop (space_len s) s) n)"

text \<open>The same at the end, over the reversed bytes of the last character.\<close>

definition space_len_end :: "string \<Rightarrow> nat" where
  "space_len_end s =
     (let n = length s in
      if space_len (drop (n - 1) s) = 1 then 1
      else if 2 \<le> n \<and> space_len (drop (n - 2) s) = 2 then 2
      else if 3 \<le> n \<and> space_len (drop (n - 3) s) = 3 then 3
      else 0)"

fun trim_end :: "string \<Rightarrow> nat \<Rightarrow> string" where
  "trim_end s 0 = s"
| "trim_end s (Suc n) =
     (if space_len_end s = 0 then s else trim_end (take (length s - space_len_end s) s) n)"

text \<open>Each step drops at least one byte, so the length of the text bounds the steps.\<close>

definition str_trim :: "string \<Rightarrow> string" where
  "str_trim s = (let t = trim_start s (length s) in trim_end t (length t))"

definition chars_count :: "string \<Rightarrow> nat" where
  "chars_count s = length (filter (\<lambda>c. \<not> is_cont c) s)"

fun has_control :: "string \<Rightarrow> bool" where
  "has_control [] = False"
| "has_control (a # s) =
     (byte a < 32 \<or> byte a = 127
      \<or> (byte a = 194 \<and> s \<noteq> [] \<and> 128 \<le> byte (hd s) \<and> byte (hd s) < 160)
      \<or> has_control s)"

lemma space_len_le: "space_len s \<le> length s"
  by (cases s rule: space_len.cases) (auto split: list.splits)

lemma trim_start_suffix: "\<exists>p. s = p @ trim_start s n"
proof (induction n arbitrary: s)
  case 0
  then show ?case by simp
next
  case (Suc n)
  obtain p where "drop (space_len s) s = p @ trim_start (drop (space_len s) s) n"
    using Suc by blast
  then have "s = (take (space_len s) s @ p) @ trim_start (drop (space_len s) s) n"
    by (metis append.assoc append_take_drop_id)
  then show ?case by (metis append_Nil trim_start.simps(2))
qed

lemma trim_start_done: "length s \<le> n \<Longrightarrow> space_len (trim_start s n) = 0"
proof (induction n arbitrary: s)
  case 0
  then show ?case by simp
next
  case (Suc n)
  then show ?case by simp
qed

lemma trim_end_prefix: "\<exists>q. s = trim_end s n @ q"
proof (induction n arbitrary: s)
  case 0
  then show ?case by simp
next
  case (Suc n)
  let ?t = "take (length s - space_len_end s) s"
  obtain q where "?t = trim_end ?t n @ q"
    using Suc by blast
  then have "s = trim_end ?t n @ (q @ drop (length s - space_len_end s) s)"
    by (metis append.assoc append_take_drop_id)
  then show ?case by (metis append_Nil2 trim_end.simps(2))
qed

lemma length_str_trim: "length (str_trim s) \<le> length s"
proof -
  have "length (trim_start s n) \<le> length s" for n
    using trim_start_suffix [of s n] by (metis length_append le_add2)
  moreover have "length (trim_end t n) \<le> length t" for t n
    using trim_end_prefix [of t n] by (metis length_append le_add1)
  ultimately show ?thesis
    unfolding str_trim_def Let_def using le_trans by blast
qed

section \<open>The file system\<close>

text \<open>
  A durable write is \<open>write_temp\<close>, then \<open>rename\<close>, then \<open>sync_dir_of\<close> (\<open>fs/mod.rs\<close>). It can fail
  before the rename, and then the file is as it was, or after it, and then the new content is
  there although the caller sees an error. A run meets a stream of such outcomes; past its end
  every operation succeeds.
\<close>

datatype io = IoOk | IoFail | IoLate

record 'd disk =
  disk_content :: 'd
  disk_outcomes :: "io list"

definition next_io :: "'d disk \<Rightarrow> io" where
  "next_io d = (case disk_outcomes d of [] \<Rightarrow> IoOk | i # _ \<Rightarrow> i)"

definition replace_doc :: "('d \<Rightarrow> 'd) \<Rightarrow> 'd disk \<Rightarrow> bool \<times> 'd disk" where
  "replace_doc f d =
     (let d' = d\<lparr>disk_outcomes := tl (disk_outcomes d)\<rparr>;
          w = d'\<lparr>disk_content := f (disk_content d)\<rparr> in
      case next_io d of IoOk \<Rightarrow> (True, w) | IoFail \<Rightarrow> (False, d') | IoLate \<Rightarrow> (False, w))"

lemma replace_doc_cases:
  assumes "replace_doc f d = (ok, d')"
  shows "disk_content d' = f (disk_content d) \<or> (\<not> ok \<and> disk_content d' = disk_content d)"
  using assms by (auto simp: replace_doc_def Let_def split: io.splits)

lemma replace_doc_ok: "replace_doc f d = (True, d') \<Longrightarrow> disk_content d' = f (disk_content d)"
  by (auto simp: replace_doc_def Let_def split: io.splits)

text \<open>Removing a file, and replacing one without syncing it (\<open>replace\<close>), is one step: it happens or it does not.\<close>

definition step_doc :: "('d \<Rightarrow> 'd) \<Rightarrow> 'd disk \<Rightarrow> bool \<times> 'd disk" where
  "step_doc f d =
     (let d' = d\<lparr>disk_outcomes := tl (disk_outcomes d)\<rparr> in
      case next_io d of IoOk \<Rightarrow> (True, d'\<lparr>disk_content := f (disk_content d)\<rparr>) | _ \<Rightarrow> (False, d'))"

lemma step_doc_ok: "step_doc f d = (True, d') \<Longrightarrow> disk_content d' = f (disk_content d)"
  by (auto simp: step_doc_def Let_def split: io.splits)

lemma step_doc_err: "step_doc f d = (False, d') \<Longrightarrow> disk_content d' = disk_content d"
  by (auto simp: step_doc_def Let_def split: io.splits)

section \<open>Machines\<close>

text \<open>
  A component as a machine: its start states, its commands and an invariant every command keeps.
  The components give their transition functions, and inherit that every state some sequence
  of commands leads to has the invariant.
\<close>

locale machine =
  fixes init :: "'s \<Rightarrow> bool"
    and step :: "'c \<Rightarrow> 's \<Rightarrow> 's"
    and inv :: "'s \<Rightarrow> bool"
  assumes init_inv: "init s \<Longrightarrow> inv s"
    and step_inv: "inv s \<Longrightarrow> inv (step c s)"
begin

lemma run_inv: "inv s \<Longrightarrow> inv (fold step cs s)"
  by (induction cs arbitrary: s) (auto intro: step_inv)

lemma reach_inv: "init s \<Longrightarrow> inv (fold step cs s)"
  by (rule run_inv) (rule init_inv)

end

end
