(* ===== verification/Fleet_Version.thy ===== *)
theory Fleet_Version
  imports Prelude "HOL-Library.Product_Lexorder"
begin

text \<open>
  Version strings (\<open>fleet-core/src/version.rs\<close>): taking one apart, the SemVer predicate and SemVer
  precedence. The comparison never turns a component into an integer; it is shown to be the
  numeric order SemVer asks for, through the abstract keys \<open>semver_key\<close>, and a total order on
  every version \<open>parse\<close> accepts.
\<close>

section \<open>Orderings\<close>

datatype ordering = Less | Equal | Greater

definition cmp_of :: "'a::linorder \<Rightarrow> 'a \<Rightarrow> ordering" where
  "cmp_of x y = (if x < y then Less else if x = y then Equal else Greater)"

definition then_with :: "ordering \<Rightarrow> ordering \<Rightarrow> ordering" where
  "then_with a b = (if a = Equal then b else a)"

definition reverse_ord :: "ordering \<Rightarrow> ordering" where
  "reverse_ord a = (case a of Less \<Rightarrow> Greater | Equal \<Rightarrow> Equal | Greater \<Rightarrow> Less)"

lemma cmp_of_simps [simp]:
  "cmp_of x y = Less \<longleftrightarrow> x < y"
  "cmp_of x y = Equal \<longleftrightarrow> x = y"
  "cmp_of x y = Greater \<longleftrightarrow> y < x"
  "Less = cmp_of x y \<longleftrightarrow> x < y"
  "Equal = cmp_of x y \<longleftrightarrow> x = y"
  "Greater = cmp_of x y \<longleftrightarrow> y < x"
  by (auto simp: cmp_of_def)

lemma cmp_of_refl [simp]: "cmp_of x x = Equal"
  by (simp add: cmp_of_def)

lemma cmp_of_pair: "cmp_of (a, b) (c, d) = then_with (cmp_of a c) (cmp_of b d)"
  by (auto simp: cmp_of_def then_with_def less_prod_simp)

lemma cmp_of_Cons: "cmp_of (x # xs) (y # ys) = then_with (cmp_of x y) (cmp_of xs ys)"
  by (auto simp: cmp_of_def then_with_def)

text \<open>What a caller of a three-way comparison relies on: a total preorder on the values it is for.\<close>

locale total_cmp =
  fixes dom_ok :: "'a \<Rightarrow> bool"
    and cmp :: "'a \<Rightarrow> 'a \<Rightarrow> ordering"
  assumes refl: "dom_ok x \<Longrightarrow> cmp x x = Equal"
    and sym: "dom_ok x \<Longrightarrow> dom_ok y \<Longrightarrow> cmp y x = reverse_ord (cmp x y)"
    and trans: "dom_ok x \<Longrightarrow> dom_ok y \<Longrightarrow> dom_ok z \<Longrightarrow>
      cmp x y \<noteq> Greater \<Longrightarrow> cmp y z \<noteq> Greater \<Longrightarrow> cmp x z \<noteq> Greater"
begin

lemma total: "dom_ok x \<Longrightarrow> dom_ok y \<Longrightarrow> cmp x y \<noteq> Greater \<or> cmp y x \<noteq> Greater"
  using sym [of x y] by (cases "cmp x y") (auto simp: reverse_ord_def)

lemma less_trans:
  assumes "dom_ok x" "dom_ok y" "dom_ok z" and "cmp x y = Less" and "cmp y z \<noteq> Greater"
  shows "cmp x z = Less"
proof (rule ccontr)
  assume "cmp x z \<noteq> Less"
  then have "cmp z x \<noteq> Greater"
    using sym [of x z] assms by (cases "cmp x z") (auto simp: reverse_ord_def)
  then have "cmp y x \<noteq> Greater"
    using trans [of y z x] assms by simp
  then show False
    using sym [of x y] assms by (simp add: reverse_ord_def)
qed

lemma equal_trans:
  assumes "dom_ok x" "dom_ok y" "dom_ok z" and "cmp x y = Equal" and "cmp y z = Equal"
  shows "cmp x z = Equal"
proof -
  have "cmp y x = Equal" "cmp z y = Equal"
    using sym [of x y] sym [of y z] assms by (simp_all add: reverse_ord_def)
  then have "cmp x z \<noteq> Greater" "cmp z x \<noteq> Greater"
    using trans [of x y z] trans [of z y x] assms by simp_all
  then show ?thesis
    using sym [of x z] assms by (cases "cmp x z") (auto simp: reverse_ord_def)
qed

end

text \<open>A comparison that agrees with the order of a key is such a comparison.\<close>

lemma total_cmp_key:
  assumes "\<And>x y. dom_ok x \<Longrightarrow> dom_ok y \<Longrightarrow> cmp x y = cmp_of (key x) (key y)"
  shows "total_cmp dom_ok cmp"
proof
  fix x y z
  assume ok: "dom_ok x" "dom_ok y"
  show "cmp x x = Equal" using assms ok by simp
  show "cmp y x = reverse_ord (cmp x y)"
    using assms ok by (auto simp: cmp_of_def reverse_ord_def)
  assume "dom_ok z" and le: "cmp x y \<noteq> Greater" "cmp y z \<noteq> Greater"
  with assms ok show "cmp x z \<noteq> Greater" by simp
qed

section \<open>Taking a version apart\<close>

record version =
  base :: string
  prerelease :: "string option"
  build :: "string option"
  identity_str :: string

text \<open>The three rounds of the loop over the components of the base: \<open>None\<close> is the early return.\<close>

fun base_components :: "nat \<Rightarrow> string list \<Rightarrow> string list option" where
  "base_components 0 cs = Some cs"
| "base_components (Suc n) [] = None"
| "base_components (Suc n) (c # cs) =
     (if c = [] \<or> \<not> list_all is_ascii_digit c then None
      else if length c > 1 \<and> starts_with c ''0'' then None
      else base_components n cs)"

definition is_dot_identifiers :: "string \<Rightarrow> bool" where
  "is_dot_identifiers field =
     list_all (\<lambda>ident. ident \<noteq> [] \<and> list_all (\<lambda>b. is_ascii_alphanumeric b \<or> b = CHR ''-'') ident)
       (split_on (CHR ''.'') field)"

text \<open>\<open>split_once\<close> with a non-empty right part; \<open>None\<close> is the early return on an empty one.\<close>

definition split_optional :: "char \<Rightarrow> string \<Rightarrow> (string \<times> string option) option" where
  "split_optional c raw =
     (case split_once c raw of
        Some (left, right) \<Rightarrow> if right \<noteq> [] then Some (left, Some right) else None
      | None \<Rightarrow> Some (raw, None))"

definition parse :: "string \<Rightarrow> version option" where
  "parse raw =
     (case split_optional (CHR ''+'') raw of
        None \<Rightarrow> None
      | Some (without_build, bld) \<Rightarrow>
        (case split_optional (CHR ''-'') without_build of
           None \<Rightarrow> None
         | Some (bas, pre) \<Rightarrow>
           (case base_components 3 (split_on (CHR ''.'') bas) of
              None \<Rightarrow> None
            | Some rest \<Rightarrow>
              if rest \<noteq> [] then None
              else if (case pre of None \<Rightarrow> False | Some p \<Rightarrow> \<not> is_dot_identifiers p)
                    \<or> (case bld of None \<Rightarrow> False | Some m \<Rightarrow> \<not> is_dot_identifiers m) then None
              else Some \<lparr>base = bas, prerelease = pre, build = bld, identity_str = without_build\<rparr>)))"

definition MAX_SEMVER_LEN :: nat where
  "MAX_SEMVER_LEN = 64"

definition leading_zero :: "string \<Rightarrow> bool" where
  "leading_zero ident \<longleftrightarrow> length ident > 1 \<and> starts_with ident ''0'' \<and> list_all is_ascii_digit ident"

definition is_semver :: "string \<Rightarrow> bool" where
  "is_semver raw \<longleftrightarrow>
     length raw \<le> MAX_SEMVER_LEN
     \<and> (case parse raw of
          None \<Rightarrow> False
        | Some v \<Rightarrow> (case prerelease v of
                      None \<Rightarrow> True
                    | Some pre \<Rightarrow> \<not> list_ex leading_zero (split_on (CHR ''.'') pre)))"

definition identity :: "string \<Rightarrow> string option" where
  "identity raw = map_option identity_str (parse raw)"

definition same_release :: "string \<Rightarrow> string \<Rightarrow> bool" where
  "same_release a b = (case (identity a, identity b) of (Some x, Some y) \<Rightarrow> x = y | _ \<Rightarrow> False)"

section \<open>Precedence\<close>

definition is_numeric :: "string \<Rightarrow> bool" where
  "is_numeric ident \<longleftrightarrow> ident \<noteq> [] \<and> list_all is_ascii_digit ident"

definition cmp_numeric :: "string \<Rightarrow> string \<Rightarrow> ordering" where
  "cmp_numeric a b = then_with (cmp_of (length a) (length b)) (cmp_of a b)"

definition compare_identifier :: "string \<Rightarrow> string \<Rightarrow> ordering" where
  "compare_identifier a b =
     (case (is_numeric a, is_numeric b) of
        (True, True) \<Rightarrow> cmp_numeric a b
      | (True, False) \<Rightarrow> Less
      | (False, True) \<Rightarrow> Greater
      | (False, False) \<Rightarrow> cmp_of a b)"

text \<open>The loop over the fields of two pre-releases.\<close>

fun compare_fields :: "string list \<Rightarrow> string list \<Rightarrow> ordering" where
  "compare_fields [] [] = Equal"
| "compare_fields [] (y # ys) = Less"
| "compare_fields (x # xs) [] = Greater"
| "compare_fields (x # xs) (y # ys) =
     (case compare_identifier x y of Equal \<Rightarrow> compare_fields xs ys | other \<Rightarrow> other)"

definition compare_prerelease :: "string \<Rightarrow> string \<Rightarrow> ordering" where
  "compare_prerelease a b = compare_fields (split_on (CHR ''.'') a) (split_on (CHR ''.'') b)"

text \<open>The loop over the zipped components of two bases; \<^const>\<open>Equal\<close> is falling through.\<close>

fun compare_bases :: "(string \<times> string) list \<Rightarrow> ordering" where
  "compare_bases [] = Equal"
| "compare_bases ((x, y) # ps) = (case cmp_numeric x y of Equal \<Rightarrow> compare_bases ps | other \<Rightarrow> other)"

definition compare :: "version \<Rightarrow> version \<Rightarrow> ordering" where
  "compare a b =
     (case compare_bases (zip (split_on (CHR ''.'') (base a)) (split_on (CHR ''.'') (base b))) of
        Equal \<Rightarrow> (case (prerelease a, prerelease b) of
                    (None, None) \<Rightarrow> Equal
                  | (None, Some _) \<Rightarrow> Greater
                  | (Some _, None) \<Rightarrow> Less
                  | (Some x, Some y) \<Rightarrow> compare_prerelease x y)
      | other \<Rightarrow> other)"

definition precedence :: "string \<Rightarrow> string \<Rightarrow> ordering option" where
  "precedence a b =
     (case parse a of None \<Rightarrow> None | Some x \<Rightarrow>
      (case parse b of None \<Rightarrow> None | Some y \<Rightarrow> Some (compare x y)))"

section \<open>What a parsed version looks like\<close>

definition plain_component :: "string \<Rightarrow> bool" where
  "plain_component c \<longleftrightarrow> is_numeric c \<and> \<not> leading_zero c"

lemma base_components_iff:
  "base_components n cs = Some rest \<longleftrightarrow>
     (\<exists>us. cs = us @ rest \<and> length us = n \<and> list_all plain_component us)"
proof (induction n arbitrary: cs)
  case 0
  then show ?case by simp
next
  case (Suc n)
  show ?case
  proof (cases cs)
  case Nil
  then show ?thesis by simp
  next
  case (Cons c cs')
  have "plain_component c \<longleftrightarrow>
      \<not> (c = [] \<or> \<not> list_all is_ascii_digit c) \<and> \<not> (length c > 1 \<and> starts_with c ''0'')"
    by (auto simp: plain_component_def is_numeric_def leading_zero_def)
  then have "base_components (Suc n) cs = Some rest \<longleftrightarrow>
      plain_component c \<and> base_components n cs' = Some rest"
    using Cons by auto
  also have "\<dots> \<longleftrightarrow> plain_component c \<and> (\<exists>us. cs' = us @ rest \<and> length us = n \<and> list_all plain_component us)"
    by (simp only: Suc.IH)
  also have "\<dots> \<longleftrightarrow> (\<exists>us. cs = us @ rest \<and> length us = Suc n \<and> list_all plain_component us)"
    using Cons by (auto simp: length_Suc_conv Cons_eq_append_conv)
  finally show ?thesis .
  qed
qed

lemma split_optional_None_part:
  "split_optional c raw = Some (l, None) \<longleftrightarrow> raw = l \<and> c \<notin> set raw"
  using split_once_None [of c raw]
  by (auto simp: split_optional_def split: option.splits if_splits)

lemma split_optional_Some_part:
  "split_optional c raw = Some (l, Some r) \<longleftrightarrow> raw = l @ c # r \<and> c \<notin> set l \<and> r \<noteq> []"
  using split_once_Some [of c raw l r]
  by (auto simp: split_optional_def split: option.splits if_splits)

definition suffix_of :: "char \<Rightarrow> string option \<Rightarrow> string" where
  "suffix_of c r = (case r of None \<Rightarrow> [] | Some s \<Rightarrow> c # s)"

lemma split_optional_iff:
  "split_optional c raw = Some (l, r) \<longleftrightarrow> raw = l @ suffix_of c r \<and> c \<notin> set l \<and> r \<noteq> Some []"
  by (cases r) (auto simp: split_optional_None_part split_optional_Some_part suffix_of_def)

text \<open>The values \<^const>\<open>parse\<close> yields.\<close>

definition version_wf :: "version \<Rightarrow> bool" where
  "version_wf v \<longleftrightarrow>
     length (split_on (CHR ''.'') (base v)) = 3
     \<and> list_all plain_component (split_on (CHR ''.'') (base v))
     \<and> (\<forall>p. prerelease v = Some p \<longrightarrow> is_dot_identifiers p)
     \<and> (\<forall>m. build v = Some m \<longrightarrow> is_dot_identifiers m)
     \<and> identity_str v = base v @ suffix_of (CHR ''-'') (prerelease v)"

lemma parse_wf:
  assumes "parse raw = Some v"
  shows "version_wf v" and "raw = identity_str v @ suffix_of (CHR ''+'') (build v)"
proof -
  from assms obtain wb bld bas pre where
    1: "split_optional (CHR ''+'') raw = Some (wb, bld)" and
    2: "split_optional (CHR ''-'') wb = Some (bas, pre)" and
    3: "base_components 3 (split_on (CHR ''.'') bas) = Some []" and
    4: "\<And>p. pre = Some p \<Longrightarrow> is_dot_identifiers p" "\<And>m. bld = Some m \<Longrightarrow> is_dot_identifiers m" and
    v: "v = \<lparr>base = bas, prerelease = pre, build = bld, identity_str = wb\<rparr>"
    by (auto simp: parse_def split: option.splits prod.splits if_splits)
  show "version_wf v"
    using 2 3 4 v by (auto simp: version_wf_def split_optional_iff base_components_iff)
  show "raw = identity_str v @ suffix_of (CHR ''+'') (build v)"
    using 1 v by (simp add: split_optional_iff)
qed

lemma identifier_chars:
  assumes "is_dot_identifiers s"
  shows "\<forall>c \<in> set s. is_ascii_alphanumeric c \<or> c \<in> {CHR ''-'', CHR ''.''}"
  using assms set_split_on [of s "CHR ''.''"]
  by (fastforce simp: is_dot_identifiers_def list_all_iff)

lemma base_chars:
  assumes "list_all plain_component (split_on (CHR ''.'') s)"
  shows "\<forall>c \<in> set s. is_ascii_digit c \<or> c = CHR ''.''"
  using assms set_split_on [of s "CHR ''.''"]
  by (fastforce simp: plain_component_def is_numeric_def list_all_iff)

lemma base_starts_with_digit:
  assumes "list_all plain_component (split_on (CHR ''.'') s)"
  shows "s \<noteq> [] \<and> is_ascii_digit (hd s)"
proof (cases s)
  case Nil
  with assms show ?thesis by (simp add: plain_component_def is_numeric_def)
next
  case (Cons a t)
  obtain y ys where "split_on (CHR ''.'') t = y # ys" by (cases "split_on (CHR ''.'') t") auto
  with assms Cons show ?thesis
    by (auto simp: plain_component_def is_numeric_def split: if_splits)
qed

section \<open>The comparison by keys\<close>

text \<open>
  Keys whose library order is what the code computes: a numeric component by length and then
  bytes; a release above each of its pre-releases.
\<close>

definition numeric_key :: "string \<Rightarrow> nat \<times> string" where
  "numeric_key s = (length s, s)"

definition identifier_key :: "string \<Rightarrow> nat \<times> nat \<times> string" where
  "identifier_key s = (if is_numeric s then (0, length s, s) else (1, 0, s))"

definition prerelease_key :: "string option \<Rightarrow> nat \<times> (nat \<times> nat \<times> string) list" where
  "prerelease_key p = (case p of None \<Rightarrow> (1, []) | Some s \<Rightarrow> (0, map identifier_key (split_on (CHR ''.'') s)))"

definition version_key :: "version \<Rightarrow> (nat \<times> string) list \<times> nat \<times> (nat \<times> nat \<times> string) list" where
  "version_key v = (map numeric_key (split_on (CHR ''.'') (base v)), prerelease_key (prerelease v))"

lemma cmp_numeric_key: "cmp_numeric a b = cmp_of (numeric_key a) (numeric_key b)"
  by (simp add: cmp_numeric_def numeric_key_def cmp_of_pair)

lemma compare_identifier_key: "compare_identifier a b = cmp_of (identifier_key a) (identifier_key b)"
  by (auto simp: compare_identifier_def identifier_key_def cmp_numeric_def cmp_of_pair then_with_def
      split: bool.splits)

lemma compare_fields_key: "compare_fields xs ys = cmp_of (map identifier_key xs) (map identifier_key ys)"
  by (induction xs ys rule: compare_fields.induct)
    (auto simp: cmp_of_Cons compare_identifier_key then_with_def split: ordering.splits)

lemma compare_bases_key:
  "length xs = length ys \<Longrightarrow>
   compare_bases (zip xs ys) = cmp_of (map numeric_key xs) (map numeric_key ys)"
  by (induction xs ys rule: list_induct2)
    (auto simp: cmp_of_Cons cmp_numeric_key then_with_def split: ordering.splits)

lemma compare_key:
  assumes "version_wf a" and "version_wf b"
  shows "compare a b = cmp_of (version_key a) (version_key b)"
proof -
  have "compare_bases (zip (split_on (CHR ''.'') (base a)) (split_on (CHR ''.'') (base b))) =
      cmp_of (map numeric_key (split_on (CHR ''.'') (base a)))
        (map numeric_key (split_on (CHR ''.'') (base b)))"
    using assms by (simp add: compare_bases_key version_wf_def)
  moreover have "(case (prerelease a, prerelease b) of
                    (None, None) \<Rightarrow> Equal
                  | (None, Some _) \<Rightarrow> Greater
                  | (Some _, None) \<Rightarrow> Less
                  | (Some x, Some y) \<Rightarrow> compare_prerelease x y) =
      cmp_of (prerelease_key (prerelease a)) (prerelease_key (prerelease b))"
    by (auto simp: prerelease_key_def compare_prerelease_def compare_fields_key cmp_of_pair
        then_with_def split: option.splits)
  ultimately show ?thesis
    unfolding compare_def version_key_def cmp_of_pair then_with_def
    by (auto split: ordering.splits)
qed

interpretation identifiers: total_cmp "\<lambda>_. True" compare_identifier
  by (rule total_cmp_key [where key = identifier_key]) (rule compare_identifier_key)

interpretation versions: total_cmp version_wf compare
  by (rule total_cmp_key [where key = version_key]) (rule compare_key)

lemma identifier_key_inject: "identifier_key a = identifier_key b \<longleftrightarrow> a = b"
  by (auto simp: identifier_key_def split: if_splits)

lemma version_key_inject:
  "version_key a = version_key b \<longleftrightarrow> base a = base b \<and> prerelease a = prerelease b"
proof -
  have "inj numeric_key" "inj identifier_key"
    by (auto simp: inj_def numeric_key_def identifier_key_inject)
  then have "prerelease_key x = prerelease_key y \<longleftrightarrow> x = y" for x y
    by (auto simp: prerelease_key_def inj_map_eq_map split_on_inject split: option.splits)
  with \<open>inj numeric_key\<close> show ?thesis
    by (auto simp: version_key_def inj_map_eq_map split_on_inject)
qed

lemma identity_inject:
  assumes "version_wf a" and "version_wf b"
  shows "identity_str a = identity_str b \<longleftrightarrow> base a = base b \<and> prerelease a = prerelease b"
proof -
  have nodash: "CHR ''-'' \<notin> set (base v)" if "version_wf v" for v
    using base_chars [of "base v"] that by (auto simp: version_wf_def ascii_defs)
  have dash: "split_optional (CHR ''-'') (identity_str v) = Some (base v, prerelease v)" if "version_wf v" for v
    using nodash [OF that] that
    by (auto simp: split_optional_iff version_wf_def is_dot_identifiers_def)
  show ?thesis
  proof
    assume "identity_str a = identity_str b"
    with dash [OF assms(1)] dash [OF assms(2)] show "base a = base b \<and> prerelease a = prerelease b"
      by simp
  next
    assume "base a = base b \<and> prerelease a = prerelease b"
    with assms show "identity_str a = identity_str b" by (simp add: version_wf_def)
  qed
qed

section \<open>SemVer's order\<close>

text \<open>
  The order SemVer 2.0.0 section 11 states: numeric identifiers as numbers, below the alphanumeric ones, which
  are in ASCII order.
\<close>

datatype pre_identifier = Numeric nat | Alphanumeric string

instantiation pre_identifier :: linorder
begin

fun less_eq_pre_identifier :: "pre_identifier \<Rightarrow> pre_identifier \<Rightarrow> bool" where
  "less_eq_pre_identifier (Numeric m) (Numeric n) \<longleftrightarrow> m \<le> n"
| "less_eq_pre_identifier (Numeric m) (Alphanumeric t) \<longleftrightarrow> True"
| "less_eq_pre_identifier (Alphanumeric s) (Numeric n) \<longleftrightarrow> False"
| "less_eq_pre_identifier (Alphanumeric s) (Alphanumeric t) \<longleftrightarrow> s \<le> t"

definition less_pre_identifier :: "pre_identifier \<Rightarrow> pre_identifier \<Rightarrow> bool" where
  "less_pre_identifier x y \<longleftrightarrow> x \<le> y \<and> \<not> y \<le> x"

instance
proof
  fix x y z :: pre_identifier
  show "x < y \<longleftrightarrow> x \<le> y \<and> \<not> y \<le> x" by (rule less_pre_identifier_def)
  show "x \<le> x" by (cases x) simp_all
  show "x \<le> y \<Longrightarrow> y \<le> z \<Longrightarrow> x \<le> z" by (cases x; cases y; cases z) auto
  show "x \<le> y \<Longrightarrow> y \<le> x \<Longrightarrow> x = y" by (cases x; cases y) auto
  show "x \<le> y \<or> y \<le> x" by (cases x; cases y) auto
qed

end

fun dec :: "string \<Rightarrow> nat" where
  "dec [] = 0"
| "dec (c # cs) = (byte c - 48) * 10 ^ length cs + dec cs"

definition identifier_of :: "string \<Rightarrow> pre_identifier" where
  "identifier_of s = (if is_numeric s then Numeric (dec s) else Alphanumeric s)"

definition semver_key :: "version \<Rightarrow> nat list \<times> nat \<times> pre_identifier list" where
  "semver_key v =
     (map dec (split_on (CHR ''.'') (base v)),
      (case prerelease v of
         None \<Rightarrow> (1, [])
       | Some p \<Rightarrow> (0, map identifier_of (split_on (CHR ''.'') p))))"

text \<open>Digit strings without a leading zero: length first, then bytes, is the order of the numbers.\<close>

lemma digit_byte: "is_ascii_digit c \<Longrightarrow> byte c - 48 \<le> 9"
  by (auto simp: is_ascii_digit_def)

lemma digit_less: "x < y \<Longrightarrow> is_ascii_digit x \<Longrightarrow> byte x - 48 < byte y - 48"
  unfolding is_ascii_digit_def less_char_def byte_def by linarith

lemma dec_less: "list_all is_ascii_digit s \<Longrightarrow> dec s < 10 ^ length s"
proof (induction s)
  case Nil
  then show ?case by simp
next
  case (Cons c s)
  have "(byte c - 48) * 10 ^ length s \<le> 9 * 10 ^ length s"
    using Cons.prems digit_byte [of c] by (intro mult_le_mono1) simp
  moreover have "dec s < 10 ^ length s" using Cons by simp
  ultimately have "(byte c - 48) * 10 ^ length s + dec s < 10 * 10 ^ length s" by linarith
  then show ?case by simp
qed

lemma dec_less_iff:
  assumes "length a = length b" and "list_all is_ascii_digit a" and "list_all is_ascii_digit b"
  shows "dec a < dec b \<longleftrightarrow> a < b"
  using assms
proof (induction a b rule: list_induct2)
  case Nil
  then show ?case by simp
next
  case (Cons x xs y ys)
  let ?p = "10 ^ length ys :: nat"
  have bounds: "dec xs < ?p" "dec ys < ?p"
    using Cons dec_less [of xs] dec_less [of ys] by simp_all
  have step: "m * ?p + dec us < n * ?p + dec vs"
    if "m < n" "dec us < ?p" for m n us vs
  proof -
    have "Suc m * ?p \<le> n * ?p" using that by (intro mult_le_mono1) simp
    with that show ?thesis by simp
  qed
  have IH: "dec xs < dec ys \<longleftrightarrow> xs < ys" using Cons by simp
  consider "x < y" | "x = y" | "y < x" by fastforce
  then show ?case
  proof cases
    case 1
    then have "byte x - 48 < byte y - 48"
      using Cons.prems by (intro digit_less) simp_all
    then show ?thesis using 1 step [of "byte x - 48" "byte y - 48" xs ys] bounds Cons.hyps by simp
  next
    case 2
    then show ?thesis using IH Cons.hyps by simp
  next
    case 3
    then have "byte y - 48 < byte x - 48"
      using Cons.prems by (intro digit_less) simp_all
    then show ?thesis
      using 3 step [of "byte y - 48" "byte x - 48" ys xs] bounds Cons.hyps by (auto dest: less_not_sym)
  qed
qed

lemma dec_ge:
  assumes "plain_component s" and "length s > 1"
  shows "10 ^ (length s - 1) \<le> dec s"
proof -
  obtain c t where s: "s = c # t" using assms by (cases s) auto
  have "c \<noteq> CHR ''0''" and "is_ascii_digit c"
    using assms s by (auto simp: plain_component_def leading_zero_def is_numeric_def starts_with_def)
  then have "1 \<le> byte c - 48"
    using of_char_eq_iff [of c "CHR ''0''", where 'a = nat]
    by (auto simp: is_ascii_digit_def byte_def simp del: of_char_eq_iff)
  then have "1 * 10 ^ length t \<le> (byte c - 48) * 10 ^ length t" by (intro mult_le_mono1)
  then have "10 ^ length t \<le> (byte c - 48) * 10 ^ length t + dec t" by linarith
  with s show ?thesis by simp
qed

lemma dec_length_less:
  assumes "plain_component a" and "plain_component b" and "length a < length b"
  shows "dec a < dec b"
proof -
  have "dec a < 10 ^ length a"
    using assms by (simp add: dec_less plain_component_def is_numeric_def)
  also have "\<dots> \<le> 10 ^ (length b - 1)"
    using assms by (intro power_increasing) auto
  also have "\<dots> \<le> dec b"
    using assms by (intro dec_ge) (cases a; auto simp: plain_component_def is_numeric_def)+
  finally show ?thesis .
qed

lemma cmp_numeric_dec:
  assumes "plain_component a" and "plain_component b"
  shows "cmp_numeric a b = cmp_of (dec a) (dec b)"
proof -
  consider "length a < length b" | "length b < length a" | "length a = length b" by linarith
  then show ?thesis
  proof cases
    case 3
    then have "dec a < dec b \<longleftrightarrow> a < b" and "dec b < dec a \<longleftrightarrow> b < a"
      using assms dec_less_iff [of a b] dec_less_iff [of b a]
      by (simp_all add: plain_component_def is_numeric_def)
    with 3 show ?thesis
      by (cases "a < b"; cases "b < a") (auto simp: cmp_numeric_def then_with_def cmp_of_def)
  next
    case 1
    with assms dec_length_less [of a b] show ?thesis
      by (simp add: cmp_numeric_def then_with_def cmp_of_def)
  next
    case 2
    with assms dec_length_less [of b a] show ?thesis
      by (simp add: cmp_numeric_def then_with_def cmp_of_def)
  qed
qed

lemma compare_identifier_semver:
  assumes "\<not> leading_zero a" and "\<not> leading_zero b"
  shows "compare_identifier a b = cmp_of (identifier_of a) (identifier_of b)"
  using assms cmp_numeric_dec [of a b]
  by (auto simp: compare_identifier_def identifier_of_def plain_component_def cmp_of_def
      less_pre_identifier_def split: bool.splits)

lemma compare_fields_semver:
  assumes "\<not> list_ex leading_zero xs" and "\<not> list_ex leading_zero ys"
  shows "compare_fields xs ys = cmp_of (map identifier_of xs) (map identifier_of ys)"
  using assms
  by (induction xs ys rule: compare_fields.induct)
    (auto simp: cmp_of_Cons compare_identifier_semver then_with_def split: ordering.splits)

lemma compare_bases_dec:
  assumes "length xs = length ys" and "list_all plain_component xs" and "list_all plain_component ys"
  shows "compare_bases (zip xs ys) = cmp_of (map dec xs) (map dec ys)"
  using assms
  by (induction xs ys rule: list_induct2)
    (auto simp: cmp_of_Cons cmp_numeric_dec then_with_def split: ordering.splits)

lemma compare_semver:
  assumes wf: "version_wf a" "version_wf b"
    and nz: "\<And>p. prerelease a = Some p \<Longrightarrow> \<not> list_ex leading_zero (split_on (CHR ''.'') p)"
      "\<And>p. prerelease b = Some p \<Longrightarrow> \<not> list_ex leading_zero (split_on (CHR ''.'') p)"
  shows "compare a b = cmp_of (semver_key a) (semver_key b)"
proof -
  have "compare_bases (zip (split_on (CHR ''.'') (base a)) (split_on (CHR ''.'') (base b))) =
      cmp_of (map dec (split_on (CHR ''.'') (base a))) (map dec (split_on (CHR ''.'') (base b)))"
    using wf by (simp add: compare_bases_dec version_wf_def)
  with nz show ?thesis
    unfolding compare_def semver_key_def cmp_of_pair
    by (auto simp: compare_prerelease_def compare_fields_semver cmp_of_pair then_with_def
        split: ordering.splits option.splits)
qed

section \<open>Properties\<close>

text \<open>
  C12: On SemVer versions, \<open>precedence\<close> is SemVer's order: the comparison of the numeric bases, then of
  the pre-releases with numeric identifiers as numbers and below the alphanumeric ones; a release is above
  its pre-releases and build metadata is ignored.
\<close>

theorem precedence_is_semver:
  assumes "is_semver a" and "is_semver b"
  shows "precedence a b = Some (cmp_of (semver_key (the (parse a))) (semver_key (the (parse b))))"
proof -
  obtain v w where v: "parse a = Some v" and w: "parse b = Some w"
    using assms by (auto simp: is_semver_def split: option.splits)
  then have "compare v w = cmp_of (semver_key v) (semver_key w)"
    using assms by (intro compare_semver parse_wf) (auto simp: is_semver_def)
  with v w show ?thesis by (simp add: precedence_def)
qed

theorem precedence_is_semver_witness:
  "is_semver ''1.10.0-rc.2+a'' \<and> is_semver ''1.10.0-rc.11''
   \<and> precedence ''1.10.0-rc.2+a'' ''1.10.0-rc.11''
     = Some (cmp_of (semver_key (the (parse ''1.10.0-rc.2+a''))) (semver_key (the (parse ''1.10.0-rc.11''))))"
proof -
  have "is_semver ''1.10.0-rc.2+a''" and "is_semver ''1.10.0-rc.11''" by code_simp+
  then show ?thesis by (intro conjI precedence_is_semver)
qed

text \<open>
  C13: Two strings name the same release exactly when precedence orders them as equal; so the check a
  self-update makes for the same release and its check against a downgrade never disagree.
\<close>

theorem same_release_iff_equal: "same_release a b \<longleftrightarrow> precedence a b = Some Equal"
proof (cases "parse a")
  case None
  then show ?thesis by (simp add: same_release_def identity_def precedence_def)
next
  case (Some v)
  show ?thesis
  proof (cases "parse b")
    case None
    then show ?thesis
      by (simp add: same_release_def identity_def precedence_def split: option.splits)
  next
    case (Some w)
    note wf = parse_wf(1) [OF \<open>parse a = Some v\<close>] parse_wf(1) [OF \<open>parse b = Some w\<close>]
    have "identity_str v = identity_str w \<longleftrightarrow> compare v w = Equal"
      using identity_inject [OF wf] compare_key [OF wf] by (simp add: version_key_inject)
    with Some \<open>parse a = Some v\<close> show ?thesis
      by (simp add: same_release_def identity_def precedence_def)
  qed
qed

text \<open>
  C14: A string \<open>parse\<close> takes is put together again from its parts, and is safe as one path
  component: it starts with a digit and has only ASCII letters, digits, dots, hyphens and a plus
  sign, so neither a separator nor a dot directory.
\<close>

theorem parse_safe_component:
  assumes "parse raw = Some v"
  shows "raw = base v @ suffix_of (CHR ''-'') (prerelease v) @ suffix_of (CHR ''+'') (build v)
    \<and> is_ascii_digit (hd raw)
    \<and> (\<forall>c \<in> set raw. is_ascii_alphanumeric c \<or> c \<in> set ''.-+'')"
proof (intro conjI ballI)
  note wf = parse_wf(1) [OF assms]
  show raw: "raw = base v @ suffix_of (CHR ''-'') (prerelease v) @ suffix_of (CHR ''+'') (build v)"
    using parse_wf [OF assms] by (simp add: version_wf_def)
  have base: "base v \<noteq> [] \<and> is_ascii_digit (hd (base v))" "\<forall>c \<in> set (base v). is_ascii_digit c \<or> c = CHR ''.''"
    using wf base_starts_with_digit base_chars by (auto simp: version_wf_def)
  show "is_ascii_digit (hd raw)" using base(1) by (subst raw) simp
  fix c
  assume "c \<in> set raw"
  then have "c \<in> set (base v) \<or> c \<in> set (suffix_of (CHR ''-'') (prerelease v))
      \<or> c \<in> set (suffix_of (CHR ''+'') (build v))"
    using raw by (metis set_append Un_iff)
  then show "is_ascii_alphanumeric c \<or> c \<in> set ''.-+''"
  proof (elim disjE)
    assume "c \<in> set (base v)"
    with base(2) show ?thesis by (auto simp: is_ascii_alphanumeric_def)
  next
    assume "c \<in> set (suffix_of (CHR ''-'') (prerelease v))"
    then consider "c = CHR ''-''" | p where "prerelease v = Some p" "c \<in> set p"
      by (cases "prerelease v") (auto simp: suffix_of_def)
    then show ?thesis
    proof cases
      case 2
      with wf have "\<forall>c \<in> set p. is_ascii_alphanumeric c \<or> c \<in> {CHR ''-'', CHR ''.''}"
        by (intro identifier_chars) (simp add: version_wf_def)
      with 2 show ?thesis by auto
    qed simp
  next
    assume "c \<in> set (suffix_of (CHR ''+'') (build v))"
    then consider "c = CHR ''+''" | p where "build v = Some p" "c \<in> set p"
      by (cases "build v") (auto simp: suffix_of_def)
    then show ?thesis
    proof cases
      case 2
      with wf have "\<forall>c \<in> set p. is_ascii_alphanumeric c \<or> c \<in> {CHR ''-'', CHR ''.''}"
        by (intro identifier_chars) (simp add: version_wf_def)
      with 2 show ?thesis by auto
    qed simp
  qed
qed

theorem parse_safe_component_witness:
  "\<exists>v. parse ''1.2.3-dev+a1'' = Some v \<and> is_ascii_digit (hd ''1.2.3-dev+a1'')
     \<and> ''1.2.3-dev+a1'' = base v @ suffix_of (CHR ''-'') (prerelease v) @ suffix_of (CHR ''+'') (build v)"
proof -
  have "parse ''1.2.3-dev+a1'' \<noteq> None" by code_simp
  then obtain v where v: "parse ''1.2.3-dev+a1'' = Some v" by (cases "parse ''1.2.3-dev+a1''") auto
  note safe = parse_safe_component [OF v]
  show ?thesis
    by (intro exI [of _ v] conjI v safe [THEN conjunct1] safe [THEN conjunct2, THEN conjunct1])
qed

text \<open>
  A pre-release identifier with a leading zero, which \<open>parse\<close> takes and \<open>is_semver\<close> does not, is not
  compared numerically: 01 ranks above 2.
\<close>

lemma leading_zero_not_numeric:
  "precedence ''1.0.0-01'' ''1.0.0-2'' = Some Greater" "\<not> is_semver ''1.0.0-01''"
  by code_simp+

end
