(* ===== verification/Core_Rules.thy ===== *)
theory Core_Rules
  imports Prelude
begin

text \<open>
  The rules both ends share (\<open>fleet-core\<close>): canonical platform names (\<open>platform.rs\<close>), the standing of a
  certificate's end (\<open>ending.rs\<close>), certificate names (\<open>naming.rs\<close>), the signed statements
  (\<open>package.rs\<close>, \<open>renewal.rs\<close>, \<open>bootstrap_proof.rs\<close>), the content of a proof extension
  (\<open>renewal.rs\<close>), normalized serials (\<open>x509.rs\<close>) and derived hosts (\<open>host.rs\<close>). SHA-256 is the
  parameter \<open>sha256\<close>.
\<close>

section \<open>Platforms\<close>

definition OS_ALIASES :: "(string \<times> string) list" where
  "OS_ALIASES =
     [(''macos'', ''darwin''), (''osx'', ''darwin''), (''win'', ''windows''), (''win32'', ''windows''),
      (''win64'', ''windows'')]"

definition ARCH_ALIASES :: "(string \<times> string) list" where
  "ARCH_ALIASES =
     [(''x86_64'', ''amd64''), (''x86-64'', ''amd64''), (''x64'', ''amd64''), (''aarch64'', ''arm64'')]"

definition eq_ignore_ascii_case :: "string \<Rightarrow> string \<Rightarrow> bool" where
  "eq_ignore_ascii_case a b \<longleftrightarrow> map to_ascii_lowercase a = map to_ascii_lowercase b"

definition canonical :: "string \<Rightarrow> (string \<times> string) list \<Rightarrow> string" where
  "canonical raw aliases =
     (case find (\<lambda>e. eq_ignore_ascii_case (fst e) raw) aliases of None \<Rightarrow> raw | Some e \<Rightarrow> snd e)"

definition canonical_os :: "string \<Rightarrow> string" where
  "canonical_os raw = canonical raw OS_ALIASES"

definition canonical_arch :: "string \<Rightarrow> string" where
  "canonical_arch raw = canonical raw ARCH_ALIASES"

section \<open>Where an end stands\<close>

text \<open>Unix seconds are \<open>i64\<close>; a checked subtraction outside the range panics, which is \<open>None\<close>.\<close>

datatype standing_t = Fine | Ending | Ended

definition i64_min :: int where "i64_min = - (2 ^ 63)"
definition i64_max :: int where "i64_max = 2 ^ 63 - 1"

definition i64_saturating_sub :: "int \<Rightarrow> int \<Rightarrow> int" where
  "i64_saturating_sub a b = max i64_min (min i64_max (a - b))"

definition i64_div :: "int \<Rightarrow> int \<Rightarrow> int" where
  "i64_div a b = sgn a * sgn b * (\<bar>a\<bar> div \<bar>b\<bar>)"

definition WARN_DAYS :: int where "WARN_DAYS = 30"
definition DAY :: int where "DAY = 86400"

definition standing :: "int \<Rightarrow> int \<Rightarrow> int \<Rightarrow> standing_t option" where
  "standing not_before not_after now =
     (let warning = min (WARN_DAYS * DAY) (i64_div (i64_saturating_sub not_after not_before) 3) in
      if not_after \<le> now then Some Ended
      else if not_after - now > i64_max then None
      else if not_after - now \<le> warning then Some Ending
      else Some Fine)"

fun standing_code :: "standing_t \<Rightarrow> nat" where
  "standing_code Fine = 0"
| "standing_code Ending = 1"
| "standing_code Ended = 2"

definition exit_code :: "standing_t list \<Rightarrow> nat" where
  "exit_code standings = fold max (map standing_code standings) 0"

section \<open>Names in certificates\<close>

definition MAX_ORGANIZATION :: nat where "MAX_ORGANIZATION = 64"
definition MAX_PRODUCT :: nat where "MAX_PRODUCT = 40"
definition MAX_COMMON_NAME :: nat where "MAX_COMMON_NAME = 64"

definition leaf_common_name :: "string \<Rightarrow> string" where
  "leaf_common_name ca_common_name =
     (case strip_suffix ca_common_name '' CA'' of None \<Rightarrow> ca_common_name | Some stem \<Rightarrow> stem)
     @ '' Certificate''"

definition product_char :: "char \<Rightarrow> bool" where
  "product_char c \<longleftrightarrow> is_ascii_alphanumeric c \<or> c \<in> {CHR '' '', CHR ''.'', CHR ''-''}"

definition check_product :: "string \<Rightarrow> unit + unit" where
  "check_product product =
     (if product = [] \<or> length product > MAX_PRODUCT \<or> str_trim product \<noteq> product
        \<or> \<not> list_all product_char product
      then Err () else Ok ())"

definition check_organization :: "string \<Rightarrow> unit + unit" where
  "check_organization value =
     (let n = chars_count value in
      if n = 0 \<or> n > MAX_ORGANIZATION \<or> has_control value then Err () else Ok ())"

section \<open>Statements\<close>

definition hex_digit :: "nat \<Rightarrow> char" where
  "hex_digit n = ''0123456789abcdef'' ! n"

definition hex_byte :: "char \<Rightarrow> string" where
  "hex_byte c = [hex_digit (byte c div 16), hex_digit (byte c mod 16)]"

definition hex_encode :: "string \<Rightarrow> string" where
  "hex_encode bytes = concat (map hex_byte bytes)"

text \<open>\<open>hex::decode\<close>: two digits a byte, either case, nothing else.\<close>

definition hex_nibble :: "char \<Rightarrow> nat option" where
  "hex_nibble c =
     (if is_ascii_digit c then Some (byte c - 48)
      else if 97 \<le> byte c \<and> byte c \<le> 102 then Some (byte c - 87)
      else if 65 \<le> byte c \<and> byte c \<le> 70 then Some (byte c - 55)
      else None)"

fun hex_decode :: "string \<Rightarrow> string option" where
  "hex_decode [] = Some []"
| "hex_decode [c] = None"
| "hex_decode (c # d # s) =
     (case (hex_nibble c, hex_nibble d, hex_decode s) of
        (Some h, Some l, Some bytes) \<Rightarrow> Some (char_of (16 * h + l) # bytes)
      | _ \<Rightarrow> None)"

definition newline :: char where "newline = CHR 0x0A"

definition package_statement :: "string \<Rightarrow> string \<Rightarrow> string \<Rightarrow> string" where
  "package_statement agent_type version content_hash =
     ''opamp-fleet-package-v1'' @ [newline] @ agent_type @ [newline] @ version @ [newline]
     @ hex_encode content_hash @ [newline]"

definition floor_statement :: "string \<Rightarrow> string \<Rightarrow> string" where
  "floor_statement agent_type version =
     ''opamp-fleet-floor-v1'' @ [newline] @ agent_type @ [newline] @ version @ [newline]"

definition statement_of :: "string \<Rightarrow> string \<Rightarrow> string" where
  "statement_of label new_key_sha256 = label @ [newline] @ hex_encode new_key_sha256 @ [newline]"

definition renewal_statement :: "string \<Rightarrow> string" where
  "renewal_statement new_key_sha256 = statement_of ''opamp-fleet-renewal-v1'' new_key_sha256"

definition bootstrap_statement :: "string \<Rightarrow> string" where
  "bootstrap_statement new_key_sha256 = statement_of ''opamp-fleet-bootstrap-v1'' new_key_sha256"

section \<open>The content of a proof\<close>

definition u32_max :: nat where "u32_max = 2 ^ 32 - 1"

definition to_be_bytes :: "nat \<Rightarrow> string" where
  "to_be_bytes n = [char_of (n div 2 ^ 24), char_of (n div 2 ^ 16), char_of (n div 2 ^ 8), char_of n]"

definition from_be_bytes :: "string \<Rightarrow> nat" where
  "from_be_bytes s = foldl (\<lambda>n c. n * 256 + byte c) 0 s"

definition encode :: "string \<Rightarrow> string \<Rightarrow> string" where
  "encode certificate_der signature =
     to_be_bytes (min (length certificate_der) u32_max) @ certificate_der @ signature"

text \<open>\<open>get(a..b)\<close> is \<open>None\<close> outside the slice; \<open>usize\<close> has 64 bits, so the end never overflows.\<close>

definition decode :: "string \<Rightarrow> (string \<times> string) option" where
  "decode content =
     (if length content < 4 then None
      else let stop = 4 + from_be_bytes (take 4 content) in
        if length content < stop then None
        else let certificate = drop 4 (take stop content); signature = drop stop content in
          if certificate \<noteq> [] \<and> signature \<noteq> [] then Some (certificate, signature) else None)"

section \<open>Serials and derived hosts\<close>

definition normalize_serial :: "string \<Rightarrow> string" where
  "normalize_serial serial =
     (let hex = map to_ascii_lowercase (filter (\<lambda>c. \<not> (c = CHR '':'' \<or> c = CHR '' '')) serial);
          trimmed = dropWhile (\<lambda>c. c = CHR ''0'') hex in
      if trimmed = [] then ''0'' else trimmed)"

text \<open>A certificate's identity: the hash of its issuer and its normalized serial, ordered in that order.\<close>

type_synonym cert_id = "string \<times> string"

definition derived :: "(string \<Rightarrow> string) \<Rightarrow> string \<Rightarrow> string \<Rightarrow> string" where
  "derived sha256 issuer serial =
     (let digest = sha256 (issuer @ [newline] @ serial);
          hex = hex_encode (take 16 digest) in
      take 8 hex @ ''-'' @ take 4 (drop 8 hex) @ ''-'' @ take 4 (drop 12 hex) @ ''-''
      @ take 4 (drop 16 hex) @ ''-'' @ drop 20 hex)"

section \<open>Lemmas\<close>

lemma to_ascii_lowercase_idem [simp]: "to_ascii_lowercase (to_ascii_lowercase c) = to_ascii_lowercase c"
  by (auto simp: to_ascii_lowercase_def is_ascii_uppercase_def byte_def)

lemma hex_digit_inject: "m < 16 \<Longrightarrow> n < 16 \<Longrightarrow> hex_digit m = hex_digit n \<longleftrightarrow> m = n"
  unfolding hex_digit_def by (rule nth_eq_iff_index_eq) simp_all

lemma byte_less: "byte c < 256"
  using of_char_mod_256 [of c, where 'a = nat] mod_less_divisor [of 256 "of_char c"] by (simp add: byte_def)

lemma byte_inject: "byte c = byte d \<longleftrightarrow> c = d"
  by (simp add: byte_def)

lemma hex_byte_inject: "hex_byte c = hex_byte d \<longleftrightarrow> c = d"
proof -
  have "byte c div 16 < 16" "byte d div 16 < 16"
    using byte_less [of c] byte_less [of d] by linarith+
  then have "hex_byte c = hex_byte d \<longleftrightarrow> byte c div 16 = byte d div 16 \<and> byte c mod 16 = byte d mod 16"
    by (simp add: hex_byte_def hex_digit_inject)
  then show ?thesis by (metis byte_inject div_mult_mod_eq)
qed

lemma hex_encode_inject: "hex_encode s = hex_encode t \<longleftrightarrow> s = t"
proof
  show "hex_encode s = hex_encode t \<Longrightarrow> s = t"
  proof (induction s arbitrary: t)
    case Nil
    then show ?case by (cases t) (auto simp: hex_encode_def hex_byte_def)
  next
    case (Cons c s)
    then obtain d u where t: "t = d # u" by (cases t) (auto simp: hex_encode_def hex_byte_def)
    have "hex_byte c @ hex_encode s = hex_byte d @ hex_encode u"
      using Cons.prems t by (simp add: hex_encode_def)
    then have "hex_byte c = hex_byte d \<and> hex_encode s = hex_encode u"
      by (subst (asm) append_eq_append_conv) (simp_all add: hex_byte_def)
    with Cons.IH t show ?case by (simp add: hex_byte_inject)
  qed
qed simp

lemma hex_nibble_digit: "n < 16 \<Longrightarrow> hex_nibble (hex_digit n) = Some n"
proof -
  have "\<forall>n \<in> set [0..<16]. hex_nibble (hex_digit n) = Some n" by code_simp
  then show "n < 16 \<Longrightarrow> hex_nibble (hex_digit n) = Some n" by simp
qed

lemma hex_decode_encode [simp]: "hex_decode (hex_encode s) = Some s"
proof (induction s)
  case Nil
  then show ?case by (simp add: hex_encode_def)
next
  case (Cons c s)
  have "byte c < 256" by (simp add: byte_def)
  then have "hex_nibble (hex_digit (byte c div 16)) = Some (byte c div 16)"
    "hex_nibble (hex_digit (byte c mod 16)) = Some (byte c mod 16)"
    by (simp_all add: hex_nibble_digit)
  moreover have "char_of (16 * (byte c div 16) + byte c mod 16) = c" by (simp add: byte_def)
  ultimately show ?case using Cons by (simp add: hex_encode_def hex_byte_def)
qed

lemma hex_encode_no_newline: "newline \<notin> set (hex_encode s)"
proof -
  have digit: "hex_digit n \<noteq> newline" if "n < 16" for n
  proof -
    have "hex_digit n \<in> set ''0123456789abcdef''"
      unfolding hex_digit_def using that by (intro nth_mem) simp
    then show ?thesis by (auto simp: newline_def)
  qed
  have "newline \<notin> set (hex_byte c)" for c
  proof -
    have "byte c div 16 < 16" using byte_less [of c] by linarith
    then show ?thesis using digit [of "byte c div 16"] digit [of "byte c mod 16"]
      by (simp add: hex_byte_def)
  qed
  then show ?thesis by (auto simp: hex_encode_def)
qed

lemma length_to_be_bytes [simp]: "length (to_be_bytes n) = 4"
  by (simp add: to_be_bytes_def)

lemma from_to_be_bytes: "n < 2 ^ 32 \<Longrightarrow> from_be_bytes (to_be_bytes n) = n"
proof -
  assume "n < 2 ^ 32"
  define a b where "a = n div 256" and "b = a div 256"
  have "n div 2 ^ 8 = a" "n div 2 ^ 16 = b" "n div 2 ^ 24 = b div 256"
    by (simp_all add: a_def b_def div_mult2_eq [symmetric])
  moreover have "b div 256 < 256"
    using \<open>n < 2 ^ 32\<close> by (simp add: a_def b_def div_mult2_eq [symmetric] less_mult_imp_div_less)
  ultimately show ?thesis
    by (simp add: to_be_bytes_def from_be_bytes_def byte_def a_def b_def mod_less)
qed

lemma to_from_be_bytes: "length s = 4 \<Longrightarrow> to_be_bytes (from_be_bytes s) = s"
proof -
  assume "length s = 4"
  then obtain a b c d where s: "s = [a, b, c, d]"
    by (auto simp: numeral_eq_Suc length_Suc_conv)
  have low: "char_of (x * 256 + byte e) = e" and high: "(x * 256 + byte e) div 256 = x" for x e
    using byte_less [of e] by (simp_all add: char_of_eq_iff take_bit_eq_mod byte_def)
  define x y z where "x = byte a" and "y = x * 256 + byte b" and "z = y * 256 + byte c"
  have n: "from_be_bytes s = z * 256 + byte d"
    by (simp add: s from_be_bytes_def x_def y_def z_def)
  have "(z * 256 + byte d) div 2 ^ 8 = z" "(z * 256 + byte d) div 2 ^ 16 = y"
    "(z * 256 + byte d) div 2 ^ 24 = x"
    using high [of z d] high [of y c] high [of x b]
    by (simp_all add: y_def [symmetric] z_def [symmetric] div_mult2_eq [of _ 256 "256 :: nat", simplified]
        div_mult2_eq [of _ 256 "65536 :: nat", simplified])
  then show ?thesis
    using low [of z d] low [of y c] low [of x b] low [of 0 a]
    by (simp add: s n [unfolded s] to_be_bytes_def x_def y_def z_def)
qed

lemma from_be_bytes_less: "length s = 4 \<Longrightarrow> from_be_bytes s < 2 ^ 32"
proof -
  assume "length s = 4"
  then obtain a b c d where "s = [a, b, c, d]"
    by (auto simp: numeral_eq_Suc length_Suc_conv)
  then show ?thesis
    using byte_less [of a] byte_less [of b] byte_less [of c] byte_less [of d]
    by (simp add: from_be_bytes_def)
qed

lemma package_statement_inject:
  assumes "newline \<notin> set t" "newline \<notin> set v" "newline \<notin> set t'" "newline \<notin> set v'"
  shows "package_statement t v h = package_statement t' v' h' \<longleftrightarrow> t = t' \<and> v = v' \<and> h = h'"
proof -
  have "package_statement t v h = package_statement t' v' h' \<longleftrightarrow>
      t @ newline # v @ newline # hex_encode h @ [newline] = t' @ newline # v' @ newline # hex_encode h' @ [newline]"
    by (simp add: package_statement_def)
  also have "\<dots> \<longleftrightarrow> t = t' \<and> v = v' \<and> hex_encode h = hex_encode h'"
    using assms hex_encode_no_newline by (simp only: first_split_inject simp_thms append_same_eq)
  finally show ?thesis by (simp only: hex_encode_inject)
qed

lemma floor_statement_inject:
  assumes "newline \<notin> set t" "newline \<notin> set v" "newline \<notin> set t'" "newline \<notin> set v'"
  shows "floor_statement t v = floor_statement t' v' \<longleftrightarrow> t = t' \<and> v = v'"
proof -
  have "floor_statement t v = floor_statement t' v' \<longleftrightarrow> t @ newline # v @ [newline] = t' @ newline # v' @ [newline]"
    by (simp add: floor_statement_def)
  also have "\<dots> \<longleftrightarrow> t = t' \<and> v = v'"
    using assms by (simp only: first_split_inject simp_thms append_same_eq)
  finally show ?thesis .
qed

lemma key_statement_inject:
  "renewal_statement k = renewal_statement k' \<longleftrightarrow> k = k'"
  "bootstrap_statement k = bootstrap_statement k' \<longleftrightarrow> k = k'"
  by (simp_all add: renewal_statement_def bootstrap_statement_def statement_of_def hex_encode_inject)

lemma statement_kinds_disjoint:
  "package_statement t v h \<noteq> floor_statement t' v'"
  "package_statement t v h \<noteq> renewal_statement k"
  "package_statement t v h \<noteq> bootstrap_statement k"
  "floor_statement t v \<noteq> renewal_statement k"
  "floor_statement t v \<noteq> bootstrap_statement k"
  "renewal_statement k \<noteq> bootstrap_statement k'"
  by (simp_all add: package_statement_def floor_statement_def renewal_statement_def
      bootstrap_statement_def statement_of_def)

lemma length_from_be: "length s = 4 \<Longrightarrow> from_be_bytes s \<le> u32_max"
  using from_be_bytes_less [of s] by (simp add: u32_max_def)

text \<open>The number a serial in hexadecimal stands for.\<close>

definition hex_value :: "char \<Rightarrow> nat" where
  "hex_value c =
     (if is_ascii_digit c then byte c - 48 else if is_ascii_lowercase c then byte c - 87 else byte c - 55)"

fun hexnum :: "string \<Rightarrow> nat" where
  "hexnum [] = 0"
| "hexnum (c # cs) = hex_value c * 16 ^ length cs + hexnum cs"

definition serial_char :: "char \<Rightarrow> bool" where
  "serial_char c \<longleftrightarrow> is_ascii_hexdigit c \<or> c = CHR '':'' \<or> c = CHR '' ''"

definition serial_value :: "string \<Rightarrow> nat" where
  "serial_value s = hexnum (filter (\<lambda>c. \<not> (c = CHR '':'' \<or> c = CHR '' '')) s)"

definition hex_lower :: "char \<Rightarrow> bool" where
  "hex_lower c \<longleftrightarrow> is_ascii_digit c \<or> (97 \<le> byte c \<and> byte c \<le> 102)"

lemma byte_char_of: "n < 256 \<Longrightarrow> byte (char_of n) = n"
  by (simp add: byte_def)

lemma byte_lower: "byte (to_ascii_lowercase c) = (if is_ascii_uppercase c then byte c + 32 else byte c)"
  by (simp add: to_ascii_lowercase_def is_ascii_uppercase_def byte_char_of)

lemma lower_hexdigit: "is_ascii_hexdigit c \<Longrightarrow> hex_lower (to_ascii_lowercase c)"
  by (auto simp: hex_lower_def is_ascii_hexdigit_def is_ascii_digit_def byte_lower is_ascii_uppercase_def)

lemma hex_value_lower: "is_ascii_hexdigit c \<Longrightarrow> hex_value (to_ascii_lowercase c) = hex_value c"
  by (auto simp: hex_value_def is_ascii_hexdigit_def is_ascii_digit_def is_ascii_lowercase_def byte_lower
      is_ascii_uppercase_def)

lemma hexnum_lower: "list_all is_ascii_hexdigit s \<Longrightarrow> hexnum (map to_ascii_lowercase s) = hexnum s"
  by (induction s) (simp_all add: hex_value_lower)

lemma hexnum_dropWhile: "hexnum (dropWhile (\<lambda>c. c = CHR ''0'') s) = hexnum s"
  by (induction s) (simp_all add: hex_value_def is_ascii_digit_def byte_def)

lemma hex_value_less: "hex_lower c \<Longrightarrow> hex_value c < 16"
  by (auto simp: hex_lower_def hex_value_def is_ascii_digit_def is_ascii_lowercase_def)

lemma hex_value_inject:
  assumes "hex_lower c" and "hex_lower d" and "hex_value c = hex_value d"
  shows "c = d"
proof -
  have "byte c = byte d"
    using assms by (auto simp: hex_lower_def hex_value_def is_ascii_digit_def is_ascii_lowercase_def split: if_splits)
  then show ?thesis by (simp add: byte_inject)
qed

lemma hexnum_less: "list_all hex_lower s \<Longrightarrow> hexnum s < 16 ^ length s"
proof (induction s)
  case (Cons c s)
  have "hex_value c * 16 ^ length s \<le> 15 * 16 ^ length s"
    using Cons.prems hex_value_less [of c] by (intro mult_le_mono1) simp
  moreover have "hexnum s < 16 ^ length s" using Cons by simp
  ultimately have "hex_value c * 16 ^ length s + hexnum s < 16 * 16 ^ length s" by linarith
  then show ?case by simp
qed simp

lemma hexnum_inject_same_length:
  assumes "length a = length b" and "list_all hex_lower a" and "list_all hex_lower b" and "hexnum a = hexnum b"
  shows "a = b"
  using assms
proof (induction a b rule: list_induct2)
  case (Cons x xs y ys)
  let ?p = "16 ^ length ys :: nat"
  have "hexnum xs < ?p" "hexnum ys < ?p"
    using Cons hexnum_less [of xs] hexnum_less [of ys] by simp_all
  moreover have eq: "hex_value x * ?p + hexnum xs = hex_value y * ?p + hexnum ys"
    using Cons by simp
  ultimately have "hex_value x = hex_value y"
    by (metis div_mult_self3 div_less add_0_right power_not_zero zero_neq_numeral)
  with eq Cons show ?case by (auto intro: hex_value_inject)
qed simp

lemma hexnum_ge:
  assumes "hex_lower c" and "c \<noteq> CHR ''0''"
  shows "16 ^ length s \<le> hexnum (c # s)"
proof -
  have "hex_lower (CHR ''0'')" "hex_value (CHR ''0'') = 0"
    by (simp_all add: hex_lower_def hex_value_def is_ascii_digit_def byte_def)
  then have "1 \<le> hex_value c"
    using assms hex_value_inject [of c "CHR ''0''"] by (cases "hex_value c") auto
  then have "1 * 16 ^ length s \<le> hex_value c * 16 ^ length s" by (intro mult_le_mono1)
  then have "16 ^ length s \<le> hex_value c * 16 ^ length s + hexnum s" by linarith
  then show ?thesis by simp
qed

lemma hexnum_length:
  assumes "list_all hex_lower a" and "list_all hex_lower b" and "length a < length b"
    and "hd b \<noteq> CHR ''0''"
  shows "hexnum a < hexnum b"
proof -
  obtain c s where b: "b = c # s" using assms by (cases b) auto
  have "hexnum a < 16 ^ length a" using assms by (simp add: hexnum_less)
  also have "\<dots> \<le> 16 ^ length s" using assms b by (intro power_increasing) auto
  also have "\<dots> \<le> hexnum b" using assms b hexnum_ge [of c s] by simp
  finally show ?thesis .
qed

lemma hexnum_inject:
  assumes "list_all hex_lower a" and "list_all hex_lower b"
    and "a = [] \<or> hd a \<noteq> CHR ''0''" and "b = [] \<or> hd b \<noteq> CHR ''0''"
  shows "hexnum a = hexnum b \<longleftrightarrow> a = b"
proof
  assume eq: "hexnum a = hexnum b"
  have "length a = length b"
    using hexnum_length [of a b] hexnum_length [of b a] assms eq by (cases "length a" "length b" rule: linorder_cases) auto
  with assms eq show "a = b" by (intro hexnum_inject_same_length)
qed simp

definition serial_digits :: "string \<Rightarrow> string" where
  "serial_digits s =
     dropWhile (\<lambda>c. c = CHR ''0'') (map to_ascii_lowercase (filter (\<lambda>c. \<not> (c = CHR '':'' \<or> c = CHR '' '')) s))"

lemma normalize_serial_digits:
  "normalize_serial s = (if serial_digits s = [] then ''0'' else serial_digits s)"
  by (simp only: normalize_serial_def serial_digits_def Let_def)

lemma serial_digits_hd: "serial_digits s = [] \<or> hd (serial_digits s) \<noteq> CHR ''0''"
  unfolding serial_digits_def using hd_dropWhile by blast

lemma serial_digits_lower: "list_all serial_char s \<Longrightarrow> list_all hex_lower (serial_digits s)"
  unfolding serial_digits_def
  by (rule list_all_dropWhile) (auto simp: list_all_iff serial_char_def lower_hexdigit)

lemma serial_digits_value: "list_all serial_char s \<Longrightarrow> serial_value s = hexnum (serial_digits s)"
  unfolding serial_digits_def serial_value_def hexnum_dropWhile
  by (rule hexnum_lower [symmetric]) (auto simp: list_all_iff serial_char_def)

section \<open>Properties\<close>

text \<open>
  C15: A signature over one statement is a signature over nothing else. A package statement determines the
  agent type, the version and the hash it was made for, a floor statement its agent type and version
  (for types and versions without a line break, which the identity tokens are), a renewal or bootstrap
  statement its key; and no statement of one kind is a statement of another.
\<close>

theorem statements_unambiguous:
  assumes "newline \<notin> set t" "newline \<notin> set v" "newline \<notin> set t'" "newline \<notin> set v'"
  shows "(package_statement t v h = package_statement t' v' h' \<longleftrightarrow> t = t' \<and> v = v' \<and> h = h')
    \<and> (floor_statement t v = floor_statement t' v' \<longleftrightarrow> t = t' \<and> v = v')
    \<and> (renewal_statement k = renewal_statement k' \<longleftrightarrow> k = k')
    \<and> (bootstrap_statement k = bootstrap_statement k' \<longleftrightarrow> k = k')
    \<and> distinct [package_statement t v h, floor_statement t' v', renewal_statement k, bootstrap_statement k']"
  using package_statement_inject [OF assms] floor_statement_inject [OF assms]
  by (simp add: key_statement_inject statement_kinds_disjoint)

theorem statements_unambiguous_witness:
  "package_statement ''agent'' ''1.0.0'' ''ab'' \<noteq> package_statement ''agent'' ''1.0.1'' ''ab''
   \<and> floor_statement ''agent'' ''1.0.0'' \<noteq> floor_statement ''agent'' ''1.0.1''"
proof -
  have nl: "newline \<notin> set ''agent''" "newline \<notin> set ''1.0.0''" "newline \<notin> set ''1.0.1''"
    by (simp_all add: newline_def)
  show ?thesis
    using statements_unambiguous [OF nl(1,2,1,3), of "''ab''" "''ab''" "[]" "[]"] by simp
qed

text \<open>
  C16: The content of a proof extension round-trips. Encoding a certificate and a signature, both
  non-empty and the certificate's length within \<open>u32\<close>, decodes to them; and whatever decodes is the
  encoding of what it decoded to, so a proof has one encoding.
\<close>

theorem proof_content_roundtrip:
  "decode content = Some (certificate, signature) \<longleftrightarrow>
     content = encode certificate signature \<and> certificate \<noteq> [] \<and> signature \<noteq> []
     \<and> length certificate \<le> u32_max"
proof
  assume *: "decode content = Some (certificate, signature)"
  let ?n = "from_be_bytes (take 4 content)"
  from * have len: "4 + ?n \<le> length content" and ne: "certificate \<noteq> []" "signature \<noteq> []"
    and parts: "certificate = drop 4 (take (4 + ?n) content)" "signature = drop (4 + ?n) content"
    by (auto simp: decode_def Let_def split: if_splits)
  have "length certificate = ?n" using len parts(1) by simp
  moreover have "to_be_bytes ?n = take 4 content" using len by (intro to_from_be_bytes) simp
  moreover have "?n \<le> u32_max" using len by (intro length_from_be) simp
  moreover have "take 4 content @ certificate @ signature = content"
    using len parts by (metis append.assoc append_take_drop_id le_add1 min.absorb1 take_take)
  ultimately show "content = encode certificate signature \<and> certificate \<noteq> [] \<and> signature \<noteq> []
      \<and> length certificate \<le> u32_max"
    using ne by (simp add: encode_def)
next
  assume *: "content = encode certificate signature \<and> certificate \<noteq> [] \<and> signature \<noteq> []
      \<and> length certificate \<le> u32_max"
  then have "from_be_bytes (take 4 content) = length certificate"
    by (simp add: encode_def from_to_be_bytes u32_max_def)
  with * show "decode content = Some (certificate, signature)"
    by (simp add: decode_def encode_def Let_def)
qed

text \<open>
  C17: Two spellings of a serial in hex digits, colons and spaces normalize to the same text exactly when they
  are the same number; so a revocation written with any spelling names the certificate it means.
\<close>

theorem normalize_serial_iff_number:
  assumes "list_all serial_char s" and "list_all serial_char t"
  shows "normalize_serial s = normalize_serial t \<longleftrightarrow> serial_value s = serial_value t"
proof -
  have "normalize_serial s = normalize_serial t \<longleftrightarrow> serial_digits s = serial_digits t"
    unfolding normalize_serial_digits
    using serial_digits_hd [of s] serial_digits_hd [of t] by (auto dest: sym)
  also have "\<dots> \<longleftrightarrow> hexnum (serial_digits s) = hexnum (serial_digits t)"
    using serial_digits_hd serial_digits_lower assms by (intro hexnum_inject [symmetric])
  finally show ?thesis using serial_digits_value assms by simp
qed

theorem normalize_serial_iff_number_witness:
  "normalize_serial ''00:0A:1b'' = normalize_serial ''a1B'' \<longleftrightarrow> serial_value ''00:0A:1b'' = serial_value ''a1B''"
  by (rule normalize_serial_iff_number; code_simp)

end
