(* ===== verification/Rate.thy ===== *)
theory Rate
  imports Prelude
begin

unbundle bit_operations_syntax

text \<open>
  The token buckets a sender's messages are counted in (\<open>fleet-core/src/rate.rs\<close>): a bounded table of
  buckets that forgets the one used least recently. The Server's \<open>AgentRate\<close> and the Gateway's
  \<open>HostRate\<close> are its clients; what they rely on is the locale \<open>token_buckets\<close>.
\<close>

section \<open>Peers\<close>

text \<open>An IPv4 address is its 32 bits, an IPv6 address its eight 16-bit segments.\<close>

datatype ip_addr = V4 "32 word" | V6 "16 word list"

definition to_ipv4_mapped :: "16 word list \<Rightarrow> 32 word option" where
  "to_ipv4_mapped segments =
     (if length segments = 8 \<and> take 5 segments = [0, 0, 0, 0, 0] \<and> segments ! 5 = 0xFFFF
      then Some (push_bit 16 (ucast (segments ! 6)) OR ucast (segments ! 7)) else None)"

definition peer_key :: "ip_addr \<Rightarrow> ip_addr" where
  "peer_key peer =
     (case peer of
        V6 v6 \<Rightarrow> (case to_ipv4_mapped v6 of
                    Some v4 \<Rightarrow> V4 v4
                  | None \<Rightarrow> V6 (take 4 v6 @ replicate (length v6 - 4) 0))
      | V4 v4 \<Rightarrow> V4 v4)"

section \<open>The table\<close>

definition TOKEN :: nat where
  "TOKEN = 1000"

record level =
  milli :: nat
  at_ms :: nat
  used :: nat

record 'k table =
  capacity :: nat
  tick :: nat
  buckets :: "('k \<times> level) list"
  order :: "(nat, 'k) btree"

definition table_new :: "nat \<Rightarrow> 'k table" where
  "table_new cap = \<lparr>capacity = max cap 1, tick = 0, buckets = [], order = []\<rparr>"

text \<open>\<open>pop_first\<close> and the removal of the bucket it names, when a new key meets a full table.\<close>

definition make_room :: "'k \<Rightarrow> 'k table \<Rightarrow> 'k table" where
  "make_room key t =
     (if map_of (buckets t) key = None \<and> length (buckets t) \<ge> capacity t
      then (case order t of
              [] \<Rightarrow> t
            | (_, oldest) # rest \<Rightarrow> t\<lparr>order := rest, buckets := AList.delete oldest (buckets t)\<rparr>)
      else t)"

definition full_milli :: "nat \<Rightarrow> nat" where
  "full_milli burst = burst * TOKEN"

definition refill :: "nat \<Rightarrow> nat \<Rightarrow> nat \<Rightarrow> level \<Rightarrow> level" where
  "refill rate burst now_ms l =
     (let gained = saturating_mul (saturating_sub now_ms (at_ms l)) rate in
      l\<lparr>milli := min (saturating_add (milli l) gained) (full_milli burst), at_ms := max (at_ms l) now_ms\<rparr>)"

definition table_level :: "'k table \<Rightarrow> 'k \<Rightarrow> nat \<Rightarrow> nat \<Rightarrow> nat \<Rightarrow> nat \<times> 'k table" where
  "table_level t0 key rate burst now_ms =
     (let t1 = make_room key t0;
          tk = tick t1 + 1;
          found = (case map_of (buckets t1) key of
                     Some l \<Rightarrow> l
                   | None \<Rightarrow> \<lparr>milli = full_milli burst, at_ms = now_ms, used = tk\<rparr>);
          l = refill rate burst now_ms found;
          ord = bt_insert tk key (bt_remove (used found) (order t1)) in
      (milli l,
       t1\<lparr>tick := tk, buckets := AList.update key (l\<lparr>used := tk\<rparr>) (buckets t1), order := ord\<rparr>))"

definition table_spend :: "'k table \<Rightarrow> 'k \<Rightarrow> 'k table" where
  "table_spend t key =
     (case map_of (buckets t) key of
        None \<Rightarrow> t
      | Some l \<Rightarrow> t\<lparr>buckets := AList.update key (l\<lparr>milli := saturating_sub (milli l) TOKEN\<rparr>) (buckets t)\<rparr>)"

definition table_take :: "'k table \<Rightarrow> 'k \<Rightarrow> nat \<Rightarrow> nat \<Rightarrow> nat \<Rightarrow> bool \<times> 'k table" where
  "table_take t key rate burst now_ms =
     (case table_level t key rate burst now_ms of
        (held, t') \<Rightarrow> if held < TOKEN then (False, t') else (True, table_spend t' key))"

definition table_len :: "'k table \<Rightarrow> nat" where
  "table_len t = length (buckets t)"

definition table_is_empty :: "'k table \<Rightarrow> bool" where
  "table_is_empty t \<longleftrightarrow> buckets t = []"

section \<open>The invariant\<close>

text \<open>
  The table never holds more than its capacity, and the order of use lists each bucket exactly once,
  under the tick the bucket itself records.
\<close>

definition agrees :: "(nat \<rightharpoonup> 'k) \<Rightarrow> ('k \<rightharpoonup> level) \<Rightarrow> bool" where
  "agrees ord bs \<longleftrightarrow> (\<forall>n k. ord n = Some k \<longleftrightarrow> (\<exists>l. bs k = Some l \<and> used l = n))"

definition used_until :: "nat \<Rightarrow> ('k \<rightharpoonup> level) \<Rightarrow> bool" where
  "used_until n bs \<longleftrightarrow> (\<forall>k l. bs k = Some l \<longrightarrow> used l \<le> n)"

definition table_wf :: "'k table \<Rightarrow> bool" where
  "table_wf t \<longleftrightarrow>
     1 \<le> capacity t
     \<and> distinct (map fst (buckets t))
     \<and> length (buckets t) \<le> capacity t
     \<and> bt_wf (order t)
     \<and> agrees (map_of (order t)) (map_of (buckets t))
     \<and> used_until (tick t) (map_of (buckets t))"

lemma agrees_remove:
  assumes "agrees ord bs" and "ord n = Some k"
  shows "agrees (ord(n := None)) (bs(k := None))"
  unfolding agrees_def
proof (intro allI)
  fix n' k'
  have iff: "ord n' = Some k' \<longleftrightarrow> (\<exists>l. bs k' = Some l \<and> used l = n')" for n' k'
    using assms(1) by (simp add: agrees_def)
  show "(ord(n := None)) n' = Some k' \<longleftrightarrow> (\<exists>l. (bs(k := None)) k' = Some l \<and> used l = n')"
    using iff [of n' k'] iff [of n k'] iff [of n k] assms(2) by auto
qed

lemma agrees_put:
  assumes "agrees ord bs" and "used l = tk" and "\<And>k' l'. bs k' = Some l' \<Longrightarrow> used l' < tk"
    and that: "\<And>l0. bs k = Some l0 \<Longrightarrow> used l0 = n" "bs k = None \<Longrightarrow> n = tk"
  shows "agrees ((ord(n := None))(tk \<mapsto> k)) (bs(k \<mapsto> l))"
  unfolding agrees_def
proof (intro allI)
  fix n' k'
  have iff: "ord n' = Some k' \<longleftrightarrow> (\<exists>l. bs k' = Some l \<and> used l = n')" for n' k'
    using assms(1) by (simp add: agrees_def)
  have tk: "ord tk = None"
    using iff [of tk] assms(3) by (metis less_irrefl not_Some_eq)
  have other: "ord n = Some k'' \<Longrightarrow> k'' = k" for k''
    using iff [of n k''] iff [of n k] that tk by (cases "bs k") auto
  show "((ord(n := None))(tk \<mapsto> k)) n' = Some k' \<longleftrightarrow> (\<exists>l'. (bs(k \<mapsto> l)) k' = Some l' \<and> used l' = n')"
  proof (cases "n' = tk")
    case True
    then show ?thesis using assms(2) iff [of tk k'] tk by auto
  next
    case False
    then have "((ord(n := None))(tk \<mapsto> k)) n' = Some k' \<longleftrightarrow> n' \<noteq> n \<and> ord n' = Some k'" by simp
    also have "\<dots> \<longleftrightarrow> k' \<noteq> k \<and> ord n' = Some k'"
      using other [of k'] iff [of n' k] that(1) by auto
    also have "\<dots> \<longleftrightarrow> (\<exists>l'. (bs(k \<mapsto> l)) k' = Some l' \<and> used l' = n')"
      using False assms(2) iff [of n' k'] by auto
    finally show ?thesis .
  qed
qed

lemma agrees_keep:
  assumes "agrees ord bs" and "bs k = Some l0" and "used l = used l0"
  shows "agrees ord (bs(k \<mapsto> l))"
  using assms by (auto simp: agrees_def)

lemma used_until_remove: "used_until n bs \<Longrightarrow> used_until n (bs(k := None))"
  by (simp add: used_until_def)

lemma used_until_put: "used_until n bs \<Longrightarrow> n \<le> m \<Longrightarrow> used l \<le> m \<Longrightarrow> used_until m (bs(k \<mapsto> l))"
  by (fastforce simp: used_until_def)

lemma table_wf_new: "table_wf (table_new cap)"
  by (simp add: table_wf_def table_new_def agrees_def used_until_def)

lemma length_delete:
  "distinct (map fst m) \<Longrightarrow> map_of m k = Some v \<Longrightarrow> length (AList.delete k m) = length m - 1"
proof (induction m)
  case (Cons e m)
  obtain k' v' where e: "e = (k', v')" by (cases e)
  have "AList.delete k' m = m"
    using Cons.prems e by (simp add: delete_idem)
  moreover have "m \<noteq> []" if "k' \<noteq> k" using that Cons.prems e by auto
  ultimately show ?case using Cons e by (cases "k' = k") auto
qed simp

lemma length_update:
  "length (AList.update k v m) = (if map_of m k = None then Suc (length m) else length m)"
  by (induction m) auto

lemma bt_tail:
  assumes "bt_wf ((n, k) # rest)"
  shows "bt_wf rest" and "map_of rest = (map_of ((n, k) # rest))(n := None)"
proof -
  show "bt_wf rest" using assms by (simp add: bt_wf_Cons)
  have "map_of rest n = None" using assms by (auto simp: bt_wf_Cons map_of_eq_None_iff)
  then show "map_of rest = (map_of ((n, k) # rest))(n := None)" by auto
qed

text \<open>A full table forgets one bucket for a new key, and it is the one used least recently.\<close>

lemma make_room_forgets:
  assumes "table_wf t" and "map_of (buckets t) key = None" and "length (buckets t) \<ge> capacity t"
  obtains n oldest rest where "order t = (n, oldest) # rest" and "oldest \<noteq> key"
    and "make_room key t = t\<lparr>order := rest, buckets := AList.delete oldest (buckets t)\<rparr>"
    and "map_of (order t) n = Some oldest" and "map_of (buckets t) oldest \<noteq> None"
proof -
  have "buckets t \<noteq> []" using assms by (auto simp: table_wf_def)
  then obtain k l bs where "buckets t = (k, l) # bs" by (metis list.exhaust surj_pair)
  then have "map_of (order t) (used l) = Some k" using assms by (auto simp: table_wf_def agrees_def)
  then obtain n oldest rest where ord: "order t = (n, oldest) # rest" by (cases "order t") auto
  then have first: "map_of (order t) n = Some oldest" by simp
  then have held: "map_of (buckets t) oldest \<noteq> None" using assms(1) by (auto simp: table_wf_def agrees_def)
  then have "oldest \<noteq> key" using assms(2) by auto
  moreover have "make_room key t = t\<lparr>order := rest, buckets := AList.delete oldest (buckets t)\<rparr>"
    using ord assms by (simp add: make_room_def)
  ultimately show thesis using ord first held that by blast
qed

lemma make_room_wf:
  assumes "table_wf t"
  shows "table_wf (make_room key t)"
proof (cases "map_of (buckets t) key = None \<and> length (buckets t) \<ge> capacity t")
  case False
  then show ?thesis using assms by (auto simp: make_room_def)
next
  case True
  then obtain n oldest rest where ord: "order t = (n, oldest) # rest"
    and room: "make_room key t = t\<lparr>order := rest, buckets := AList.delete oldest (buckets t)\<rparr>"
    and first: "map_of (order t) n = Some oldest"
    using make_room_forgets [OF assms] by metis
  have "bt_wf ((n, oldest) # rest)" using assms ord by (simp add: table_wf_def)
  note tail = bt_tail [OF this]
  have "agrees (map_of rest) (map_of (AList.delete oldest (buckets t)))"
    unfolding tail(2) ord [symmetric] delete_conv'
    using assms first by (intro agrees_remove) (auto simp: table_wf_def)
  then show ?thesis
    using assms tail(1) length_delete_le [of oldest "buckets t"]
    by (simp add: room table_wf_def delete_conv' distinct_delete used_until_remove)
qed

lemma make_room_simps [simp]:
  "capacity (make_room key t) = capacity t" "tick (make_room key t) = tick t"
  by (auto simp: make_room_def split: list.splits)

lemma make_room_key:
  assumes "table_wf t"
  shows "map_of (buckets (make_room key t)) key = map_of (buckets t) key"
proof (cases "map_of (buckets t) key = None \<and> length (buckets t) \<ge> capacity t")
  case True
  then obtain n oldest rest where "oldest \<noteq> key"
    "make_room key t = t\<lparr>order := rest, buckets := AList.delete oldest (buckets t)\<rparr>"
    using make_room_forgets [OF assms] by metis
  then show ?thesis by (simp add: delete_conv')
qed (auto simp: make_room_def)

lemma make_room_length:
  assumes "table_wf t" and "map_of (buckets t) key = None"
  shows "length (buckets (make_room key t)) < capacity t"
proof (cases "length (buckets t) \<ge> capacity t")
  case True
  then obtain n oldest rest v where "map_of (buckets t) oldest = Some v"
    "make_room key t = t\<lparr>order := rest, buckets := AList.delete oldest (buckets t)\<rparr>"
    using make_room_forgets [OF assms] by (metis not_Some_eq)
  moreover have "distinct (map fst (buckets t))" "length (buckets t) \<le> capacity t" "1 \<le> capacity t"
    using assms(1) by (simp_all add: table_wf_def)
  ultimately show ?thesis using True by (simp add: length_delete)
qed (simp add: make_room_def)

text \<open>The other buckets stay as they are, apart from the one that is forgotten.\<close>

lemma make_room_other:
  assumes "table_wf t"
  shows "map_of (buckets (make_room key t)) k \<in> {map_of (buckets t) k, None}"
  by (auto simp: make_room_def delete_conv' split: list.splits)

lemma table_level_wf:
  assumes "table_wf t"
  shows "table_wf (snd (table_level t key rate burst now))"
proof -
  define t1 where "t1 = make_room key t"
  define tk where "tk = tick t1 + 1"
  define found where "found = (case map_of (buckets t1) key of Some l \<Rightarrow> l
      | None \<Rightarrow> \<lparr>milli = full_milli burst, at_ms = now, used = tk\<rparr>)"
  define l where "l = (refill rate burst now found)\<lparr>used := tk\<rparr>"
  have wf: "table_wf t1" using assms by (simp add: t1_def make_room_wf)
  have t': "snd (table_level t key rate burst now) =
      t1\<lparr>tick := tk, buckets := AList.update key l (buckets t1), order := bt_insert tk key (bt_remove (used found) (order t1))\<rparr>"
    by (simp only: table_level_def t1_def tk_def found_def l_def Let_def snd_conv)
  have lt: "used l' < tk" if "map_of (buckets t1) k' = Some l'" for k' l'
    using wf that unfolding table_wf_def used_until_def tk_def by (metis less_add_one le_less_trans)
  have "agrees ((map_of (order t1))(used found := None, tk \<mapsto> key)) ((map_of (buckets t1))(key \<mapsto> l))"
    using wf lt by (intro agrees_put) (auto simp: table_wf_def l_def found_def)
  moreover have "length (AList.update key l (buckets t1)) \<le> capacity t1"
    using make_room_length [OF assms, of key] make_room_key [OF assms, of key] wf
    by (auto simp: length_update t1_def table_wf_def)
  moreover have "used_until tk ((map_of (buckets t1))(key \<mapsto> l))"
    using wf by (intro used_until_put) (auto simp: table_wf_def tk_def l_def)
  ultimately show ?thesis
    using wf by (simp add: t' table_wf_def update_conv' distinct_update)
qed

lemma table_spend_wf: "table_wf t \<Longrightarrow> table_wf (table_spend t key)"
  by (cases "map_of (buckets t) key")
    (auto simp: table_spend_def table_wf_def update_conv' distinct_update length_update used_until_def
      simp del: map_of_eq_Some_iff intro!: agrees_keep used_until_put [where n = "tick t"])

lemma table_take_wf: "table_wf t \<Longrightarrow> table_wf (snd (table_take t key rate burst now))"
  using table_level_wf [of t key rate burst now]
  by (auto simp: table_take_def table_spend_wf split: prod.splits)

section \<open>What a client relies on\<close>

text \<open>
  The tokens a key's bucket holds at a moment: what \<open>level\<close> would answer then. \<open>u32\<close> rates and
  bursts keep \<open>full\<close> below \<open>u64::MAX\<close>, so no saturation is visible in it.
\<close>

definition tokens :: "'k table \<Rightarrow> 'k \<Rightarrow> nat \<Rightarrow> nat \<Rightarrow> nat \<Rightarrow> nat" where
  "tokens t key rate burst now =
     (case map_of (buckets t) key of
        None \<Rightarrow> full_milli burst
      | Some l \<Rightarrow> milli (refill rate burst now l))"

definition MAX_U32 :: nat where "MAX_U32 = 2 ^ 32 - 1"

locale token_buckets =
  fixes wf :: "'t \<Rightarrow> bool"
    and held :: "'t \<Rightarrow> 'k \<Rightarrow> nat \<Rightarrow> nat \<Rightarrow> nat \<Rightarrow> nat"
    and level :: "'t \<Rightarrow> 'k \<Rightarrow> nat \<Rightarrow> nat \<Rightarrow> nat \<Rightarrow> nat \<times> 't"
    and spend :: "'t \<Rightarrow> 'k \<Rightarrow> 't"
    and grab :: "'t \<Rightarrow> 'k \<Rightarrow> nat \<Rightarrow> nat \<Rightarrow> nat \<Rightarrow> bool \<times> 't"
  assumes level_wf: "wf t \<Longrightarrow> wf (snd (level t k r b now))"
    and spend_wf: "wf t \<Longrightarrow> wf (spend t k)"
    and level_held: "wf t \<Longrightarrow> b \<le> MAX_U32 \<Longrightarrow> fst (level t k r b now) = held t k r b now"
    and level_self: "wf t \<Longrightarrow> b \<le> MAX_U32 \<Longrightarrow> now \<le> later \<Longrightarrow>
      held (snd (level t k r b now)) k r b later = held t k r b later"
    and level_other: "wf t \<Longrightarrow> b' \<le> MAX_U32 \<Longrightarrow> k' \<noteq> k \<Longrightarrow>
      held t k' r' b' later \<le> held (snd (level t k r b now)) k' r' b' later"
    and spend_self: "wf t \<Longrightarrow> b \<le> MAX_U32 \<Longrightarrow> TOKEN \<le> held t k r b now \<Longrightarrow>
      held (spend (snd (level t k r b now)) k) k r b now + TOKEN = held t k r b now"
    and spend_other: "wf t \<Longrightarrow> k' \<noteq> k \<Longrightarrow> held (spend t k) k' r' b' later = held t k' r' b' later"
    and grab_eq: "grab t k r b now =
      (if fst (level t k r b now) < TOKEN then (False, snd (level t k r b now))
       else (True, spend (snd (level t k r b now)) k))"
begin

lemma grab_wf: "wf t \<Longrightarrow> wf (snd (grab t k r b now))"
  by (simp add: grab_eq level_wf spend_wf)

lemma grab_iff: "wf t \<Longrightarrow> b \<le> MAX_U32 \<Longrightarrow> fst (grab t k r b now) \<longleftrightarrow> TOKEN \<le> held t k r b now"
  by (auto simp: grab_eq level_held)

text \<open>Asking a level takes nothing from any bucket, neither its own nor another.\<close>

lemma level_keeps:
  "wf t \<Longrightarrow> b \<le> MAX_U32 \<Longrightarrow> b' \<le> MAX_U32 \<Longrightarrow> now \<le> later \<Longrightarrow> (k' = k \<Longrightarrow> r' = r \<and> b' = b) \<Longrightarrow>
   held t k' r' b' later \<le> held (snd (level t k r b now)) k' r' b' later"
  using level_self level_other by (cases "k' = k") auto

lemma grab_refused_keeps:
  "wf t \<Longrightarrow> b \<le> MAX_U32 \<Longrightarrow> b' \<le> MAX_U32 \<Longrightarrow> now \<le> later \<Longrightarrow> (k' = k \<Longrightarrow> r' = r \<and> b' = b) \<Longrightarrow>
   \<not> fst (grab t k r b now) \<Longrightarrow> held t k' r' b' later \<le> held (snd (grab t k r b now)) k' r' b' later"
  by (simp add: grab_eq level_keeps split: if_splits)

lemma grab_other:
  "wf t \<Longrightarrow> b' \<le> MAX_U32 \<Longrightarrow> k' \<noteq> k \<Longrightarrow>
   held t k' r' b' later \<le> held (snd (grab t k r b now)) k' r' b' later"
  by (simp add: grab_eq level_other spend_other level_wf)

lemma grab_costs:
  "wf t \<Longrightarrow> b \<le> MAX_U32 \<Longrightarrow> fst (grab t k r b now) \<Longrightarrow>
   held (snd (grab t k r b now)) k r b now + TOKEN = held t k r b now"
  by (auto simp: grab_eq level_held spend_self split: if_splits)

end

lemma full_milli_u64: "burst \<le> MAX_U32 \<Longrightarrow> full_milli burst \<le> u64_max"
  by (simp add: full_milli_def TOKEN_def MAX_U32_def u64_max_def)

lemma milli_refill:
  assumes "burst \<le> MAX_U32"
  shows "milli (refill rate burst now l) = min (milli l + (now - at_ms l) * rate) (full_milli burst)"
  using full_milli_u64 [OF assms]
  by (auto simp: refill_def Let_def saturating_add_def saturating_mul_def saturating_sub_def min_def)

lemma at_refill [simp]: "at_ms (refill rate burst now l) = max (at_ms l) now"
  by (simp add: refill_def Let_def)

lemma refill_twice:
  assumes "burst \<le> MAX_U32" and "now \<le> later"
  shows "milli (refill rate burst later ((refill rate burst now l)\<lparr>used := n\<rparr>)) = milli (refill rate burst later l)"
proof -
  have "(now - at_ms l) * rate + (later - max (at_ms l) now) * rate = (later - at_ms l) * rate"
    using assms(2) by (simp flip: add_mult_distrib) (simp add: max_def)
  moreover have "min (min (m + g) f + h) f = min (m + (g + h)) f" for m g h f :: nat by simp
  ultimately show ?thesis using assms(1) by (simp add: milli_refill)
qed

definition fresh :: "nat \<Rightarrow> nat \<Rightarrow> nat \<Rightarrow> level" where
  "fresh burst now n = \<lparr>milli = full_milli burst, at_ms = now, used = n\<rparr>"

lemma milli_fresh: "burst \<le> MAX_U32 \<Longrightarrow> milli (refill rate burst now (fresh burst at n)) = full_milli burst"
  by (simp add: milli_refill fresh_def)

text \<open>What \<^const>\<open>table_level\<close> does to the bucket it asks and to the others.\<close>

lemma table_level_self:
  assumes "table_wf t"
  shows "map_of (buckets (snd (table_level t key rate burst now))) key =
    Some ((refill rate burst now (case map_of (buckets t) key of Some l \<Rightarrow> l
      | None \<Rightarrow> fresh burst now (tick t + 1)))\<lparr>used := tick t + 1\<rparr>)"
  by (simp add: table_level_def Let_def update_conv' make_room_key [OF assms] fresh_def cong: option.case_cong)

lemma table_level_other:
  "k \<noteq> key \<Longrightarrow> map_of (buckets (snd (table_level t key rate burst now))) k = map_of (buckets (make_room key t)) k"
  by (simp add: table_level_def Let_def update_conv')

lemma table_level_fst:
  assumes "table_wf t" and "burst \<le> MAX_U32"
  shows "fst (table_level t key rate burst now) = tokens t key rate burst now"
  using milli_fresh [OF assms(2)] make_room_key [OF assms(1), of key]
  by (auto simp: table_level_def tokens_def Let_def fresh_def split: option.splits)

lemma table_spend_map:
  "map_of (buckets (table_spend t key)) =
     (map_of (buckets t))(key := map_option (\<lambda>l. l\<lparr>milli := milli l - TOKEN\<rparr>) (map_of (buckets t) key))"
  by (auto simp: table_spend_def update_conv' saturating_sub_def split: option.splits)

lemma tokens_le: "burst \<le> MAX_U32 \<Longrightarrow> tokens t key rate burst now \<le> full_milli burst"
  by (auto simp: tokens_def milli_refill split: option.splits)

lemma tokens_level_self:
  assumes "table_wf t" and "burst \<le> MAX_U32" and "now \<le> later"
  shows "tokens (snd (table_level t key rate burst now)) key rate burst later = tokens t key rate burst later"
  using assms
  by (auto simp: tokens_def table_level_self [OF assms(1)] refill_twice milli_fresh split: option.splits)

lemma tokens_level_other:
  assumes "table_wf t" and "burst' \<le> MAX_U32" and "k \<noteq> key"
  shows "tokens t k rate' burst' later \<le> tokens (snd (table_level t key rate burst now)) k rate' burst' later"
  using make_room_other [OF assms(1), of key k] assms tokens_le [of burst' t k rate' later]
  by (auto simp: tokens_def table_level_other split: option.splits)

lemma tokens_spend_self:
  assumes "table_wf t" and "burst \<le> MAX_U32" and "TOKEN \<le> tokens t key rate burst now"
  shows "tokens (table_spend (snd (table_level t key rate burst now)) key) key rate burst now + TOKEN
    = tokens t key rate burst now"
proof -
  define l where "l = (refill rate burst now (case map_of (buckets t) key of Some l \<Rightarrow> l
      | None \<Rightarrow> fresh burst now (tick t + 1)))\<lparr>used := tick t + 1\<rparr>"
  have l: "milli l = tokens t key rate burst now" "now \<le> at_ms l"
    using milli_fresh [OF assms(2)] by (auto simp: l_def tokens_def split: option.splits)
  have "map_of (buckets (table_spend (snd (table_level t key rate burst now)) key)) key
      = Some (l\<lparr>milli := milli l - TOKEN\<rparr>)"
    by (simp add: table_spend_map table_level_self [OF assms(1)] l_def)
  then have "tokens (table_spend (snd (table_level t key rate burst now)) key) key rate burst now
      = min (milli l - TOKEN) (full_milli burst)"
    using l(2) assms(2) by (simp add: tokens_def milli_refill)
  then show ?thesis using l(1) assms(3) tokens_le [OF assms(2), of t key rate now] by simp
qed

interpretation table: token_buckets table_wf tokens table_level table_spend table_take
proof
  fix t :: "'a table" and k k' :: 'a and r b now later r' b' :: nat
  show "table_take t k r b now =
      (if fst (table_level t k r b now) < TOKEN then (False, snd (table_level t k r b now))
       else (True, table_spend (snd (table_level t k r b now)) k))"
    by (simp add: table_take_def split: prod.splits)
  show "k' \<noteq> k \<Longrightarrow> tokens (table_spend t k) k' r' b' later = tokens t k' r' b' later"
    by (simp add: tokens_def table_spend_map)
qed (simp_all add: table_level_wf table_spend_wf table_level_fst tokens_level_self tokens_level_other
    tokens_spend_self)

section \<open>The table as a machine\<close>

datatype 'k table_op = AskLevel 'k nat nat nat | Spend 'k | Take 'k nat nat nat

fun table_step :: "'k table_op \<Rightarrow> 'k table \<Rightarrow> 'k table" where
  "table_step (AskLevel k r b now) t = snd (table_level t k r b now)"
| "table_step (Spend k) t = table_spend t k"
| "table_step (Take k r b now) t = snd (table_take t k r b now)"

interpretation table_machine: machine "\<lambda>t. \<exists>cap. t = table_new cap" table_step table_wf
proof
  fix t :: "'a table" and c :: "'a table_op"
  show "\<exists>cap. t = table_new cap \<Longrightarrow> table_wf t" by (auto simp: table_wf_new)
  show "table_wf t \<Longrightarrow> table_wf (table_step c t)"
    by (cases c) (simp_all add: table_level_wf table_spend_wf table_take_wf)
qed

lemma capacity_level [simp]: "capacity (snd (table_level t k r b now)) = capacity t"
  by (simp add: table_level_def Let_def)

lemma capacity_spend [simp]: "capacity (table_spend t k) = capacity t"
  by (simp add: table_spend_def split: option.splits)

lemma capacity_step [simp]: "capacity (table_step c t) = capacity t"
  by (cases c) (simp_all add: table_take_def split: prod.splits, metis capacity_level snd_conv)

lemma capacity_run: "capacity (fold table_step cs t) = capacity t"
  by (induction cs arbitrary: t) simp_all

section \<open>The rate a key gets\<close>

text \<open>A run of takes at one rate and burst, and how many of them a key was granted.\<close>

fun run_takes :: "nat \<Rightarrow> nat \<Rightarrow> 'k \<Rightarrow> ('k \<times> nat) list \<Rightarrow> 'k table \<Rightarrow> nat" where
  "run_takes rate burst key [] t = 0"
| "run_takes rate burst key ((k, now) # reqs) t =
     (case table_take t k rate burst now of
        (ok, t') \<Rightarrow> (if ok \<and> k = key then 1 else 0) + run_takes rate burst key reqs t')"

text \<open>What a key may still be granted by the moment \<open>till\<close>, in thousandths.\<close>

definition credit :: "nat \<Rightarrow> nat \<Rightarrow> nat \<Rightarrow> nat \<Rightarrow> 'k \<Rightarrow> 'k table \<Rightarrow> nat" where
  "credit rate burst start till key t =
     (case map_of (buckets t) key of
        None \<Rightarrow> full_milli burst + rate * (till - start)
      | Some l \<Rightarrow> milli l + rate * (till - at_ms l))"

lemma make_room_id:
  "map_of (buckets t) k \<noteq> None \<or> length (buckets t) < capacity t \<Longrightarrow> make_room k t = t"
  by (auto simp: make_room_def)

lemma credit_take_other:
  assumes "k \<noteq> key" and "map_of (buckets t) k \<noteq> None \<or> length (buckets t) < capacity t"
  shows "credit rate burst start till key (snd (table_take t k rate burst now)) = credit rate burst start till key t"
  using assms(1) table_level_other [of key k t rate burst now] make_room_id [OF assms(2)]
  by (auto simp: credit_def table_take_def table_spend_map split: prod.splits)

lemma credit_take_self:
  assumes wf: "table_wf t" and b: "burst \<le> MAX_U32" and now: "start \<le> now" "now \<le> till"
  shows "(if fst (table_take t key rate burst now) then TOKEN else 0)
      + credit rate burst start till key (snd (table_take t key rate burst now)) \<le> credit rate burst start till key t"
proof -
  define l0 where "l0 = (case map_of (buckets t) key of Some l \<Rightarrow> l | None \<Rightarrow> fresh burst now (tick t + 1))"
  define l where "l = (refill rate burst now l0)\<lparr>used := tick t + 1\<rparr>"
  have self: "map_of (buckets (snd (table_level t key rate burst now))) key = Some l"
    by (simp add: table_level_self [OF wf] l_def l0_def)
  have fst: "fst (table_level t key rate burst now) = milli l"
    using table_level_fst [OF wf b, of key rate now] milli_fresh [OF b]
    by (auto simp: l_def l0_def tokens_def split: option.splits)
  have "(now - at_ms l0) * rate + rate * (till - max (at_ms l0) now) \<le> rate * (till - at_ms l0)"
    using now(2) by (simp add: mult.commute flip: add_mult_distrib2) (simp add: max_def)
  then have "milli l + rate * (till - at_ms l) \<le> milli l0 + rate * (till - at_ms l0)"
    using b by (simp add: l_def milli_refill)
  also have "\<dots> \<le> credit rate burst start till key t"
    using now by (auto simp: credit_def l0_def fresh_def intro!: mult_le_mono2 split: option.splits)
  finally show ?thesis
    using self fst by (auto simp: table_take_def credit_def table_spend_map split: prod.splits)
qed

lemma keys_take:
  assumes "table_wf t" and "map_of (buckets t) k \<noteq> None \<or> length (buckets t) < capacity t"
  shows "dom (map_of (buckets (snd (table_take t k rate burst now)))) = insert k (dom (map_of (buckets t)))"
proof -
  have "dom (map_of (buckets (snd (table_level t k rate burst now)))) = insert k (dom (map_of (buckets t)))"
    using make_room_id [OF assms(2)] by (auto simp: table_level_def Let_def update_conv')
  moreover have "dom (map_of (buckets (table_spend t' k))) = dom (map_of (buckets t'))" for t'
    by (auto simp: table_spend_map)
  ultimately show ?thesis by (simp add: table.grab_eq)
qed

lemma room_if_few:
  assumes "table_wf t" and "card (dom (map_of (buckets t)) \<union> K) \<le> capacity t" and "k \<in> K" and "finite K"
  shows "map_of (buckets t) k \<noteq> None \<or> length (buckets t) < capacity t"
proof (rule disjCI)
  assume "\<not> length (buckets t) < capacity t"
  moreover have "card (dom (map_of (buckets t))) = length (buckets t)"
    using assms(1) distinct_card [of "map fst (buckets t)"]
    by (simp add: table_wf_def dom_map_of_conv_image_fst)
  ultimately have "card (dom (map_of (buckets t)) \<union> K) \<le> card (dom (map_of (buckets t)))"
    using assms(2) by simp
  then have "dom (map_of (buckets t)) = dom (map_of (buckets t)) \<union> K"
    using assms(4) by (intro card_seteq) (auto simp: finite_dom_map_of)
  then show "map_of (buckets t) k \<noteq> None" using assms(3) by auto
qed

lemma run_takes_credit:
  assumes "table_wf t" and "burst \<le> MAX_U32" and "\<forall>(k, now) \<in> set reqs. start \<le> now \<and> now \<le> till"
    and "card (dom (map_of (buckets t)) \<union> fst ` set reqs) \<le> capacity t"
  shows "run_takes rate burst key reqs t * TOKEN \<le> credit rate burst start till key t"
  using assms
proof (induction reqs arbitrary: t)
  case Nil
  then show ?case by simp
next
  case (Cons req reqs)
  obtain k now where req: "req = (k, now)" by (cases req)
  obtain ok t' where take: "table_take t k rate burst now = (ok, t')" by (cases "table_take t k rate burst now")
  have room: "map_of (buckets t) k \<noteq> None \<or> length (buckets t) < capacity t"
    using Cons.prems req by (intro room_if_few [where K = "fst ` set (req # reqs)"]) auto
  have t': "t' = snd (table_take t k rate burst now)" "ok = fst (table_take t k rate burst now)"
    using take by simp_all
  have "dom (map_of (buckets t')) \<union> fst ` set reqs = dom (map_of (buckets t)) \<union> fst ` set (req # reqs)"
    using keys_take [OF Cons.prems(1) room, of rate burst now] t' req by auto
  moreover have "capacity t' = capacity t"
    using capacity_step [of "Take k rate burst now" t] t' by simp
  ultimately have "run_takes rate burst key reqs t' * TOKEN \<le> credit rate burst start till key t'"
    using Cons.prems t' table_take_wf by (intro Cons.IH) auto
  moreover have "(if ok \<and> k = key then TOKEN else 0) + credit rate burst start till key t' \<le> credit rate burst start till key t"
  proof (cases "k = key")
    case True
    then show ?thesis
      using credit_take_self [OF Cons.prems(1,2), of start now till key rate] Cons.prems(3) req t' by auto
  next
    case False
    then show ?thesis using credit_take_other [OF False room] t' by simp
  qed
  ultimately show ?case by (auto simp: req take)
qed

section \<open>Properties\<close>

text \<open>
  C18: The rate limit holds. As long as a table is not asked for more keys than it has room for, so that no
  bucket is forgotten, the messages a key is granted among requests between two moments are at most
  \<open>burst\<close> plus \<open>rate\<close> for each second between them, however the requests of the keys are interleaved.
\<close>

theorem take_rate_bound:
  assumes "burst \<le> MAX_U32"
    and "\<forall>(k, now) \<in> set reqs. start \<le> now \<and> now \<le> till"
    and "card (fst ` set reqs) \<le> cap"
  shows "run_takes rate burst key reqs (table_new cap) * TOKEN \<le> burst * TOKEN + rate * (till - start)"
  using run_takes_credit [OF table_wf_new assms(1,2), of cap] assms(3)
  by (simp add: credit_def table_new_def full_milli_def)

theorem take_rate_bound_witness:
  "run_takes 2 3 ''a'' [(''a'', 0), (''a'', 0), (''b'', 1), (''a'', 2), (''a'', 3), (''a'', 503)] (table_new 4) * TOKEN
     \<le> 3 * TOKEN + 2 * (503 - 0)"
  by (rule take_rate_bound) (simp_all add: MAX_U32_def card_insert_if)

text \<open>
  C19: After any sequence of operations a table holds at most its capacity of buckets, and its order of use
  lists exactly the buckets it holds, each once; so memory is bounded, and the bucket forgotten when a new
  key meets a full table is one the table holds.
\<close>

theorem table_bounded:
  "table_len (fold table_step cs (table_new cap)) \<le> max cap 1
   \<and> table_wf (fold table_step cs (table_new cap))"
  using table_machine.reach_inv [of "table_new cap" cs] capacity_run [of cs "table_new cap"]
  by (auto simp: table_wf_def table_len_def table_new_def)

text \<open>
  C20: Buckets are isolated: taking for one key never lowers what another key's bucket holds at any moment;
  a grant costs its own key exactly one token, and a refusal takes nothing from any key.
\<close>

theorem take_isolated:
  assumes "table_wf t" and "burst \<le> MAX_U32" and "burst' \<le> MAX_U32"
  shows "(k \<noteq> key \<longrightarrow> tokens t k rate' burst' later \<le> tokens (snd (table_take t key rate burst now)) k rate' burst' later)
    \<and> (fst (table_take t key rate burst now) \<longrightarrow>
        tokens (snd (table_take t key rate burst now)) key rate burst now + TOKEN = tokens t key rate burst now)
    \<and> (\<not> fst (table_take t key rate burst now) \<and> now \<le> later \<longrightarrow>
        tokens t key rate burst later \<le> tokens (snd (table_take t key rate burst now)) key rate burst later)"
proof (intro conjI impI)
  show "tokens t k rate' burst' later \<le> tokens (snd (table_take t key rate burst now)) k rate' burst' later"
    if "k \<noteq> key" using assms that by (intro table.grab_other)
  show "tokens (snd (table_take t key rate burst now)) key rate burst now + TOKEN = tokens t key rate burst now"
    if "fst (table_take t key rate burst now)" using assms that by (intro table.grab_costs)
  show "tokens t key rate burst later \<le> tokens (snd (table_take t key rate burst now)) key rate burst later"
    if "\<not> fst (table_take t key rate burst now) \<and> now \<le> later"
    using assms that by (intro table.grab_refused_keeps) auto
qed

theorem take_isolated_witness:
  "tokens (table_new 1) ''b'' 2 3 7 \<le> tokens (snd (table_take (table_new 1) ''a'' 2 3 5)) ''b'' 2 3 7
   \<and> tokens (snd (table_take (table_new 1) ''a'' 2 3 5)) ''a'' 2 3 5 + TOKEN = tokens (table_new 1) ''a'' 2 3 5"
proof -
  have "fst (table_take (table_new 1) ''a'' 2 3 5)"
    by (simp add: table_take_def table_level_def make_room_def table_new_def refill_def
        full_milli_def TOKEN_def saturating_add_def u64_max_def)
  then show ?thesis
    using take_isolated [OF table_wf_new [of 1], of 3 3 "''b''" "''a''" 2 7 2 5] by (simp add: MAX_U32_def)
qed

end
