(* ===== verification/Agent_Rate.thy ===== *)
theory Agent_Rate
  imports Rate Core_Rules
begin

text \<open>
  How often an admitted peer may be heard on the Agent plane (\<open>fleet-server/src/agent_rate.rs\<close>): two
  tables of token buckets, one for subjects and aggregates and one for what a Gateway carries. The
  clock's reading is the argument \<open>now\<close>; the lock makes each operation one step. The results rest on
  the contract \<open>token_buckets\<close> alone, through its interpretation \<open>table\<close>.
\<close>

section \<open>Data\<close>

record limits =
  messages_per_sec :: nat
  burst :: nat
  gateway_messages_per_sec :: nat
  gateway_burst :: nat

definition default_limits :: limits where
  "default_limits =
     \<lparr>messages_per_sec = 10, burst = 300, gateway_messages_per_sec = 500, gateway_burst = 10000\<rparr>"

datatype subject = Host string | Certificate cert_id | Peer ip_addr

definition subject_peer :: "ip_addr option \<Rightarrow> subject" where
  "subject_peer peer = Peer (peer_key (case peer of Some ip \<Rightarrow> ip | None \<Rightarrow> V4 0))"

datatype bucket = AgentBucket | HostBucket | GatewayBucket | EnrolmentBucket | BootstrapBucket
  | UncheckedEnrolmentBucket

fun bucket_as_str :: "bucket \<Rightarrow> string" where
  "bucket_as_str AgentBucket = ''agent''"
| "bucket_as_str HostBucket = ''host''"
| "bucket_as_str GatewayBucket = ''gateway''"
| "bucket_as_str EnrolmentBucket = ''enrolment''"
| "bucket_as_str BootstrapBucket = ''bootstrap''"
| "bucket_as_str UncheckedEnrolmentBucket = ''unchecked_enrolment''"

datatype own_key = Own subject | Gateway string | Enrolments string | UncheckedEnrolments string

datatype named = NamedAgent string | NamedEnrolment cert_id

record agent_rate =
  rate_limits :: limits
  own :: "own_key table"
  agents :: "(string \<times> named) table"

section \<open>Operations\<close>

definition with_capacities :: "limits \<Rightarrow> nat \<Rightarrow> nat \<Rightarrow> agent_rate" where
  "with_capacities lims subjects nagents =
     \<lparr>rate_limits = lims, own = table_new subjects, agents = table_new nagents\<rparr>"

definition MAX_ISSUED :: nat where
  "MAX_ISSUED = 100000"

definition agent_rate_new :: "limits \<Rightarrow> nat \<Rightarrow> agent_rate" where
  "agent_rate_new lims max_agents = with_capacities lims MAX_ISSUED max_agents"

text \<open>One token from a bucket of its own in the first table.\<close>

definition take_own :: "agent_rate \<Rightarrow> own_key \<Rightarrow> bucket \<Rightarrow> nat \<Rightarrow> (bucket + unit) \<times> agent_rate" where
  "take_own r key bucket now =
     (case table_take (own r) key (messages_per_sec (rate_limits r)) (burst (rate_limits r)) now of
        (ok, t) \<Rightarrow> (if ok then Ok () else Err bucket, r\<lparr>own := t\<rparr>))"

definition rate_take ::
  "agent_rate \<Rightarrow> subject \<Rightarrow> bool \<Rightarrow> named option \<Rightarrow> nat \<Rightarrow> (bucket + unit) \<times> agent_rate" where
  "rate_take r subj gateway nm now =
     (let lims = rate_limits r in
      case (subj, gateway) of
        (Host host, True) \<Rightarrow>
          (let aggregate = Gateway host in
           case table_level (own r) aggregate (gateway_messages_per_sec lims) (gateway_burst lims) now of
             (lvl, own1) \<Rightarrow>
               if lvl < TOKEN then (Err GatewayBucket, r\<lparr>own := own1\<rparr>)
               else (case nm of
                 None \<Rightarrow> (Ok (), r\<lparr>own := table_spend own1 aggregate\<rparr>)
               | Some n \<Rightarrow>
                 (case table_level (agents r) (host, n) (messages_per_sec lims) (burst lims) now of
                    (lvl2, agents1) \<Rightarrow>
                      if lvl2 < TOKEN then (Err AgentBucket, r\<lparr>own := own1, agents := agents1\<rparr>)
                      else (Ok (), r\<lparr>own := table_spend own1 aggregate,
                                     agents := table_spend agents1 (host, n)\<rparr>))))
      | _ \<Rightarrow> take_own r (Own subj) HostBucket now)"

definition admit :: "agent_rate \<Rightarrow> subject \<Rightarrow> bool \<Rightarrow> string option \<Rightarrow> nat \<Rightarrow> (bucket + unit) \<times> agent_rate" where
  "admit r subj gateway agent now =
     rate_take r subj gateway
       (case agent of None \<Rightarrow> None | Some uid \<Rightarrow> if length uid = 16 then Some (NamedAgent uid) else None) now"

definition admit_enrolment ::
  "agent_rate \<Rightarrow> subject \<Rightarrow> bool \<Rightarrow> cert_id option \<Rightarrow> nat \<Rightarrow> (bucket + unit) \<times> agent_rate" where
  "admit_enrolment r subj gateway bootstrap now =
     (let lims = rate_limits r in
      case (subj, gateway) of
        (Host host, True) \<Rightarrow>
          (case bootstrap of
             None \<Rightarrow> take_own r (UncheckedEnrolments host) UncheckedEnrolmentBucket now
           | Some cert \<Rightarrow>
             (let aggregate = Enrolments host; key = (host, NamedEnrolment cert) in
              case table_level (own r) aggregate (gateway_messages_per_sec lims) (gateway_burst lims) now of
                (lvl, own1) \<Rightarrow>
                  if lvl < TOKEN then (Err EnrolmentBucket, r\<lparr>own := own1\<rparr>)
                  else (case table_level (agents r) key (messages_per_sec lims) (burst lims) now of
                    (lvl2, agents1) \<Rightarrow>
                      if lvl2 < TOKEN then (Err BootstrapBucket, r\<lparr>own := own1, agents := agents1\<rparr>)
                      else (Ok (), r\<lparr>own := table_spend own1 aggregate,
                                     agents := table_spend agents1 key\<rparr>))))
      | _ \<Rightarrow> rate_take r subj False None now)"

section \<open>What the buckets hold\<close>

text \<open>Each key of a table has one rate and burst, so what its bucket holds at a moment is determined.\<close>

definition own_rate :: "limits \<Rightarrow> own_key \<Rightarrow> nat" where
  "own_rate lims k = (case k of Own _ \<Rightarrow> messages_per_sec lims | UncheckedEnrolments _ \<Rightarrow> messages_per_sec lims
     | Gateway _ \<Rightarrow> gateway_messages_per_sec lims | Enrolments _ \<Rightarrow> gateway_messages_per_sec lims)"

definition own_burst :: "limits \<Rightarrow> own_key \<Rightarrow> nat" where
  "own_burst lims k = (case k of Own _ \<Rightarrow> burst lims | UncheckedEnrolments _ \<Rightarrow> burst lims
     | Gateway _ \<Rightarrow> gateway_burst lims | Enrolments _ \<Rightarrow> gateway_burst lims)"

definition own_held :: "agent_rate \<Rightarrow> own_key \<Rightarrow> nat \<Rightarrow> nat" where
  "own_held r k now = tokens (own r) k (own_rate (rate_limits r) k) (own_burst (rate_limits r) k) now"

definition agent_held :: "agent_rate \<Rightarrow> string \<times> named \<Rightarrow> nat \<Rightarrow> nat" where
  "agent_held r n now = tokens (agents r) n (messages_per_sec (rate_limits r)) (burst (rate_limits r)) now"

definition rate_wf :: "agent_rate \<Rightarrow> bool" where
  "rate_wf r \<longleftrightarrow> table_wf (own r) \<and> table_wf (agents r)
     \<and> burst (rate_limits r) \<le> MAX_U32 \<and> gateway_burst (rate_limits r) \<le> MAX_U32"

text \<open>No bucket outside the two sets holds less than before, now or later.\<close>

definition spares :: "own_key set \<Rightarrow> (string \<times> named) set \<Rightarrow> nat \<Rightarrow> agent_rate \<Rightarrow> agent_rate \<Rightarrow> bool" where
  "spares K N now r r' \<longleftrightarrow>
     (\<forall>later \<ge> now. (\<forall>k. k \<notin> K \<longrightarrow> own_held r k later \<le> own_held r' k later)
       \<and> (\<forall>n. n \<notin> N \<longrightarrow> agent_held r n later \<le> agent_held r' n later))"

lemma own_burst_le: "rate_wf r \<Longrightarrow> own_burst (rate_limits r) k \<le> MAX_U32"
  by (cases k) (simp_all add: rate_wf_def own_burst_def)

lemmas held_defs = own_held_def agent_held_def rate_wf_def

text \<open>The steps the operations are made of: asking a level spares every bucket; spending spares the others.\<close>

lemma own_level_spares:
  assumes "rate_wf r"
  shows "spares {} {} now r (r\<lparr>own := snd (table_level (own r) k (own_rate (rate_limits r) k) (own_burst (rate_limits r) k) now)\<rparr>)"
  using assms own_burst_le [OF assms]
  by (auto simp: spares_def held_defs intro!: table.level_keeps)

lemma agent_level_spares:
  assumes "rate_wf r"
  shows "spares {} {} now r (r\<lparr>agents := snd (table_level (agents r) n (messages_per_sec (rate_limits r)) (burst (rate_limits r)) now)\<rparr>)"
  using assms by (auto simp: spares_def held_defs intro!: table.level_keeps)

lemma own_spend_spares: "rate_wf r \<Longrightarrow> spares {k} {} now r (r\<lparr>own := table_spend (own r) k\<rparr>)"
  by (auto simp: spares_def held_defs table.spend_other)

lemma agent_spend_spares: "rate_wf r \<Longrightarrow> spares {} {n} now r (r\<lparr>agents := table_spend (agents r) n\<rparr>)"
  by (auto simp: spares_def held_defs table.spend_other)

lemma spares_trans: "spares K N now r r' \<Longrightarrow> spares K' N' now r' r'' \<Longrightarrow> spares (K \<union> K') (N \<union> N') now r r''"
  unfolding spares_def by (meson UnCI le_trans)

lemma rate_wf_keeps:
  "rate_wf r \<Longrightarrow> rate_wf (r\<lparr>own := snd (table_level (own r) k a b now)\<rparr>)"
  "rate_wf r \<Longrightarrow> rate_wf (r\<lparr>own := table_spend (own r) k\<rparr>)"
  "rate_wf r \<Longrightarrow> rate_wf (r\<lparr>agents := snd (table_level (agents r) n a b now)\<rparr>)"
  "rate_wf r \<Longrightarrow> rate_wf (r\<lparr>agents := table_spend (agents r) n\<rparr>)"
  "rate_wf r \<Longrightarrow> rate_wf (r\<lparr>own := snd (table_take (own r) k a b now)\<rparr>)"
  by (simp_all add: rate_wf_def table_level_wf table_spend_wf table_take_wf)

text \<open>Two levels and two spends, as a message through a Gateway makes them.\<close>

lemma paired_spares:
  fixes r :: agent_rate
  assumes wf: "rate_wf r"
    and own1: "own1 = snd (table_level (own r) k (own_rate (rate_limits r) k) (own_burst (rate_limits r) k) now)"
    and agents1: "agents1 = snd (table_level (agents r) n (messages_per_sec (rate_limits r)) (burst (rate_limits r)) now)"
  shows "spares {} {} now r (r\<lparr>own := own1\<rparr>)"
    and "spares {k} {} now r (r\<lparr>own := table_spend own1 k\<rparr>)"
    and "spares {} {} now r (r\<lparr>own := own1, agents := agents1\<rparr>)"
    and "spares {k} {n} now r (r\<lparr>own := table_spend own1 k, agents := table_spend agents1 n\<rparr>)"
proof -
  let ?r1 = "r\<lparr>own := own1\<rparr>" and ?r2 = "r\<lparr>own := own1, agents := agents1\<rparr>"
  show 1: "spares {} {} now r ?r1" using own_level_spares [OF wf] own1 by simp
  have wf1: "rate_wf ?r1" using rate_wf_keeps(1) [OF wf] own1 by simp
  show "spares {k} {} now r (r\<lparr>own := table_spend own1 k\<rparr>)"
    using spares_trans [OF 1 own_spend_spares [OF wf1, of k]] by simp
  show 2: "spares {} {} now r ?r2"
    using spares_trans [OF 1 agent_level_spares [OF wf1, of now n]] agents1 by simp
  have wf2: "rate_wf ?r2" using rate_wf_keeps(3) [OF wf1] agents1 by simp
  have 3: "spares {k} {} now r (?r2\<lparr>own := table_spend own1 k\<rparr>)"
    using spares_trans [OF 2 own_spend_spares [OF wf2, of k]] by simp
  have "rate_wf (?r2\<lparr>own := table_spend own1 k\<rparr>)" using rate_wf_keeps(2) [OF wf2] by simp
  then show "spares {k} {n} now r (r\<lparr>own := table_spend own1 k, agents := table_spend agents1 n\<rparr>)"
    using spares_trans [OF 3 agent_spend_spares [of _ n]] by simp
qed

lemma take_own_spares:
  assumes wf: "rate_wf r" and own: "own_rate (rate_limits r) k = messages_per_sec (rate_limits r)"
    "own_burst (rate_limits r) k = burst (rate_limits r)"
    and take: "take_own r k bucket now = (res, r')"
  shows "spares {k} {} now r r'" and "res = Err e \<Longrightarrow> spares {} {} now r r'"
proof -
  have r': "r' = r\<lparr>own := snd (table_take (own r) k (messages_per_sec (rate_limits r)) (burst (rate_limits r)) now)\<rparr>"
    and res: "res = (if fst (table_take (own r) k (messages_per_sec (rate_limits r)) (burst (rate_limits r)) now) then Ok () else Err bucket)"
    using take by (auto simp: take_own_def split: prod.splits)
  show "spares {k} {} now r r'"
    using wf own_burst_le [OF wf] by (auto simp: r' spares_def held_defs intro!: table.grab_other)
  show "res = Err e \<Longrightarrow> spares {} {} now r r'"
    using wf own_burst_le [OF wf] own res
    by (auto simp: r' spares_def held_defs intro!: table.grab_refused_keeps split: if_splits)
qed

lemma aggregate_params:
  "own_rate lims (Gateway h) = gateway_messages_per_sec lims" "own_burst lims (Gateway h) = gateway_burst lims"
  "own_rate lims (Enrolments h) = gateway_messages_per_sec lims" "own_burst lims (Enrolments h) = gateway_burst lims"
  "own_rate lims (Own s) = messages_per_sec lims" "own_burst lims (Own s) = burst lims"
  "own_rate lims (UncheckedEnrolments h) = messages_per_sec lims" "own_burst lims (UncheckedEnrolments h) = burst lims"
  by (simp_all add: own_rate_def own_burst_def)

text \<open>Everything an operation can answer, by the steps it took.\<close>

lemma rate_take_gateway:
  fixes r :: agent_rate
  assumes take: "rate_take r (Host h) True nm now = (res, r')"
  obtains own1 agents1 n where
    "own1 = snd (table_level (own r) (Gateway h) (own_rate (rate_limits r) (Gateway h)) (own_burst (rate_limits r) (Gateway h)) now)"
    "agents1 = snd (table_level (agents r) (h, n) (messages_per_sec (rate_limits r)) (burst (rate_limits r)) now)"
    "nm = Some n \<or> nm = None"
    "(res = Err GatewayBucket \<and> r' = r\<lparr>own := own1\<rparr>)
     \<or> (res = Err AgentBucket \<and> r' = r\<lparr>own := own1, agents := agents1\<rparr>)
     \<or> (res = Ok () \<and> nm = None \<and> r' = r\<lparr>own := table_spend own1 (Gateway h)\<rparr>)
     \<or> (res = Ok () \<and> nm = Some n
        \<and> TOKEN \<le> fst (table_level (own r) (Gateway h) (own_rate (rate_limits r) (Gateway h)) (own_burst (rate_limits r) (Gateway h)) now)
        \<and> TOKEN \<le> fst (table_level (agents r) (h, n) (messages_per_sec (rate_limits r)) (burst (rate_limits r)) now)
        \<and> r' = r\<lparr>own := table_spend own1 (Gateway h), agents := table_spend agents1 (h, n)\<rparr>)"
  using take
  by (cases nm) (auto simp: rate_take_def Let_def aggregate_params split: prod.splits if_splits)

lemma admit_enrolment_gateway:
  fixes r :: agent_rate
  assumes take: "admit_enrolment r (Host h) True (Some c) now = (res, r')"
  obtains own1 agents1 where
    "own1 = snd (table_level (own r) (Enrolments h) (own_rate (rate_limits r) (Enrolments h)) (own_burst (rate_limits r) (Enrolments h)) now)"
    "agents1 = snd (table_level (agents r) (h, NamedEnrolment c) (messages_per_sec (rate_limits r)) (burst (rate_limits r)) now)"
    "(res = Err EnrolmentBucket \<and> r' = r\<lparr>own := own1\<rparr>)
     \<or> (res = Err BootstrapBucket \<and> r' = r\<lparr>own := own1, agents := agents1\<rparr>)
     \<or> (res = Ok () \<and> r' = r\<lparr>own := table_spend own1 (Enrolments h), agents := table_spend agents1 (h, NamedEnrolment c)\<rparr>)"
  using take
  by (auto simp: admit_enrolment_def Let_def aggregate_params split: prod.splits if_splits)

lemma rate_take_other:
  "\<not> (gateway \<and> (\<exists>h. subj = Host h)) \<Longrightarrow> rate_take r subj gateway nm now = take_own r (Own subj) HostBucket now"
  by (cases subj; cases gateway) (simp_all add: rate_take_def Let_def)

lemma rate_take_refused:
  assumes wf: "rate_wf r" and take: "rate_take r subj gateway nm now = (Err e, r')"
  shows "spares {} {} now r r'"
proof (cases "gateway \<and> (\<exists>h. subj = Host h)")
  case True
  then obtain h where "rate_take r (Host h) True nm now = (Err e, r')" using take by auto
  then show ?thesis
    by (elim rate_take_gateway) (use paired_spares [OF wf] in \<open>auto simp del: aggregate_params\<close>)
next
  case False
  then have "take_own r (Own subj) HostBucket now = (Err e, r')" using take rate_take_other by metis
  then show ?thesis by (rule take_own_spares(2) [OF wf aggregate_params(5,6) _ refl])
qed

lemma admit_enrolment_refused:
  assumes wf: "rate_wf r" and take: "admit_enrolment r subj gateway bootstrap now = (Err e, r')"
  shows "spares {} {} now r r'"
proof (cases "gateway \<and> (\<exists>h. subj = Host h)")
  case True
  then obtain h where *: "admit_enrolment r (Host h) True bootstrap now = (Err e, r')" using take by auto
  show ?thesis
  proof (cases bootstrap)
    case None
    then have "take_own r (UncheckedEnrolments h) UncheckedEnrolmentBucket now = (Err e, r')"
      using * by (simp add: admit_enrolment_def)
    then show ?thesis by (rule take_own_spares(2) [OF wf aggregate_params(7,8) _ refl])
  next
    case (Some c)
    then show ?thesis
      using * by (auto elim!: admit_enrolment_gateway simp: paired_spares [OF wf])
  qed
next
  case False
  then have "rate_take r subj False None now = (Err e, r')"
    using take by (cases subj; cases gateway) (simp_all add: admit_enrolment_def Let_def)
  then show ?thesis by (rule rate_take_refused [OF wf])
qed

text \<open>Every state the operations lead to from a new limit is well formed.\<close>

datatype rate_op = Admit subject bool "string option" nat | AdmitEnrolment subject bool "cert_id option" nat

fun rate_step :: "rate_op \<Rightarrow> agent_rate \<Rightarrow> agent_rate" where
  "rate_step (Admit subj gateway agent now) r = snd (admit r subj gateway agent now)"
| "rate_step (AdmitEnrolment subj gateway bootstrap now) r = snd (admit_enrolment r subj gateway bootstrap now)"

lemma take_own_wf: "rate_wf r \<Longrightarrow> rate_wf (snd (take_own r k bucket now))"
  by (simp add: take_own_def rate_wf_def split: prod.splits) (metis snd_conv table_take_wf)

lemma rate_take_wf: "rate_wf r \<Longrightarrow> rate_wf (snd (rate_take r subj gateway nm now))"
proof (cases "gateway \<and> (\<exists>h. subj = Host h)")
  case True
  then obtain h where h: "subj = Host h" "gateway" by blast
  obtain res r' where take: "rate_take r (Host h) True nm now = (res, r')" by (cases "rate_take r (Host h) True nm now")
  then have "rate_wf r \<Longrightarrow> rate_wf r'"
    by (elim rate_take_gateway) (auto simp: rate_wf_def table_level_wf table_spend_wf)
  then show "rate_wf r \<Longrightarrow> ?thesis" using take h by simp
next
  case False
  then show "rate_wf r \<Longrightarrow> ?thesis" by (simp add: rate_take_other take_own_wf)
qed

lemma admit_enrolment_wf: "rate_wf r \<Longrightarrow> rate_wf (snd (admit_enrolment r subj gateway bootstrap now))"
proof (cases "gateway \<and> (\<exists>h. subj = Host h) \<and> bootstrap \<noteq> None")
  case True
  then obtain h c where h: "subj = Host h" "gateway" "bootstrap = Some c" by blast
  obtain res r' where take: "admit_enrolment r (Host h) True (Some c) now = (res, r')"
    by (cases "admit_enrolment r (Host h) True (Some c) now")
  then have "rate_wf r \<Longrightarrow> rate_wf r'"
    by (elim admit_enrolment_gateway) (auto simp: rate_wf_def table_level_wf table_spend_wf)
  then show "rate_wf r \<Longrightarrow> ?thesis" using take h by simp
next
  case False
  then show "rate_wf r \<Longrightarrow> ?thesis"
    by (cases subj; cases gateway; cases bootstrap) (simp_all add: admit_enrolment_def Let_def take_own_wf rate_take_wf)
qed

interpretation rate_machine: machine
  "\<lambda>r. \<exists>lims n m. burst lims \<le> MAX_U32 \<and> gateway_burst lims \<le> MAX_U32 \<and> r = with_capacities lims n m"
  rate_step rate_wf
proof
  fix r c
  show "\<exists>lims n m. burst lims \<le> MAX_U32 \<and> gateway_burst lims \<le> MAX_U32 \<and> r = with_capacities lims n m \<Longrightarrow> rate_wf r"
    by (auto simp: rate_wf_def with_capacities_def table_wf_new)
  show "rate_wf r \<Longrightarrow> rate_wf (rate_step c r)"
    by (cases c) (simp_all add: admit_def rate_take_wf admit_enrolment_wf)
qed

section \<open>Properties\<close>

text \<open>
  C21: A refusal takes nothing. When a message, a download or an enrolment request is refused, no
  bucket of either table holds less afterwards than it would have held, now or at any later moment.
\<close>

theorem refused_takes_nothing:
  assumes "rate_wf r"
  shows "(admit r subj gateway agent now = (Err e, r1) \<longrightarrow> spares {} {} now r r1)
    \<and> (admit_enrolment r subj gateway bootstrap now = (Err e, r2) \<longrightarrow> spares {} {} now r r2)"
  using rate_take_refused [OF assms] admit_enrolment_refused [OF assms] by (auto simp: admit_def)

theorem refused_takes_nothing_witness:
  "let r = with_capacities \<lparr>messages_per_sec = 1, burst = 0, gateway_messages_per_sec = 1, gateway_burst = 0\<rparr> 4 4 in
   \<exists>r1. admit r (Host ''h'') True None 5 = (Err GatewayBucket, r1) \<and> spares {} {} 5 r r1"
proof -
  define r where "r = with_capacities \<lparr>messages_per_sec = 1, burst = 0, gateway_messages_per_sec = 1, gateway_burst = 0\<rparr> 4 4"
  have wf: "rate_wf r" by (simp add: r_def with_capacities_def rate_wf_def table_wf_new)
  have "fst (admit r (Host ''h'') True None 5) = Err GatewayBucket"
    by (simp add: r_def with_capacities_def admit_def rate_take_def table_level_def table_new_def make_room_def
        refill_def full_milli_def TOKEN_def Let_def)
  then obtain r1 where "admit r (Host ''h'') True None 5 = (Err GatewayBucket, r1)"
    by (metis prod.collapse)
  then show ?thesis
    using refused_takes_nothing [OF wf, of "Host ''h''" True None 5 GatewayBucket r1] by (auto simp: r_def Let_def)
qed

text \<open>
  C22: Enrolments through a Gateway cost the Gateway's members nothing: a request with a checked bootstrap
  certificate takes only from the Gateway's enrolment aggregate and that certificate's bucket, and one without
  takes only from the bucket of unchecked enrolments, so forged proofs do not spend the tokens of checked ones.
\<close>

theorem enrolment_spares_members:
  assumes wf: "rate_wf r" and take: "admit_enrolment r (Host h) True bootstrap now = (res, r')"
  shows "spares (case bootstrap of None \<Rightarrow> {UncheckedEnrolments h} | Some _ \<Rightarrow> {Enrolments h})
    (case bootstrap of None \<Rightarrow> {} | Some c \<Rightarrow> {(h, NamedEnrolment c)}) now r r'"
proof (cases bootstrap)
  case None
  then have "take_own r (UncheckedEnrolments h) UncheckedEnrolmentBucket now = (res, r')"
    using take by (simp add: admit_enrolment_def)
  then show ?thesis using None take_own_spares(1) [OF wf aggregate_params(7,8)] by simp
next
  case (Some c)
  have weaker: "spares {} {} now r x \<Longrightarrow> spares K N now r x" for x K N by (simp add: spares_def)
  show ?thesis
    using take [unfolded Some]
    by (elim admit_enrolment_gateway) (use paired_spares [OF wf] weaker in \<open>auto simp: Some\<close>)
qed

theorem enrolment_spares_members_witness:
  "let r = with_capacities default_limits 4 4 in
   spares {UncheckedEnrolments ''h''} {} 5 r (snd (admit_enrolment r (Host ''h'') True None 5))"
proof -
  have wf: "rate_wf (with_capacities default_limits 4 4)"
    by (simp add: with_capacities_def rate_wf_def table_wf_new default_limits_def MAX_U32_def)
  show ?thesis
    using enrolment_spares_members [OF wf, of "''h''" None 5] by (simp add: Let_def) (metis prod.collapse)
qed

text \<open>
  C23: A message through a Gateway that is admitted costs exactly one token of the Gateway's aggregate and one of
  the Agent it names.
\<close>

theorem gateway_message_costs:
  assumes wf: "rate_wf r" and uid: "length uid = 16"
    and take: "admit r (Host h) True (Some uid) now = (Ok (), r')"
  shows "own_held r' (Gateway h) now + TOKEN = own_held r (Gateway h) now
    \<and> agent_held r' (h, NamedAgent uid) now + TOKEN = agent_held r (h, NamedAgent uid) now"
proof -
  have "rate_take r (Host h) True (Some (NamedAgent uid)) now = (Ok (), r')"
    using take uid by (simp add: admit_def)
  then show ?thesis
    by (elim rate_take_gateway)
      (use wf own_burst_le [OF wf] in \<open>auto simp: held_defs table.spend_self table.level_held\<close>)
qed

theorem gateway_message_costs_witness:
  "let r = with_capacities default_limits 4 4; r' = snd (admit r (Host ''h'') True (Some ''0123456789abcdef'') 5) in
   own_held r' (Gateway ''h'') 5 + TOKEN = own_held r (Gateway ''h'') 5
   \<and> agent_held r' (''h'', NamedAgent ''0123456789abcdef'') 5 + TOKEN = agent_held r (''h'', NamedAgent ''0123456789abcdef'') 5"
proof -
  let ?r = "with_capacities default_limits 4 4"
  have wf: "rate_wf ?r"
    by (simp add: with_capacities_def rate_wf_def table_wf_new default_limits_def MAX_U32_def)
  have "fst (admit ?r (Host ''h'') True (Some ''0123456789abcdef'') 5) = Ok ()"
    by (simp add: with_capacities_def default_limits_def admit_def rate_take_def table_level_def table_new_def
        make_room_def refill_def full_milli_def TOKEN_def saturating_add_def u64_max_def Let_def)
  then show ?thesis
    using gateway_message_costs [OF wf, of "''0123456789abcdef''" "''h''" 5] by (simp add: Let_def) (metis prod.collapse)
qed

end
