(* ===== verification/Gateway_Rate.thy ===== *)
theory Gateway_Rate
  imports Rate
begin

text \<open>
  How often a downstream host may be heard through a Gateway (\<open>fleet-agent/src/gateway/rate.rs\<close>): one
  table of token buckets, and the count of refusals that bounds the log to one line per host and minute. The
  milliseconds since the start are the argument \<open>now\<close>.
\<close>

section \<open>Data and operations\<close>

datatype gateway_key = HostKey string | PeerKey ip_addr

definition key_of :: "bool \<Rightarrow> string \<Rightarrow> ip_addr option \<Rightarrow> gateway_key" where
  "key_of enrolling speaker peer =
     (if enrolling then PeerKey (peer_key (case peer of None \<Rightarrow> V4 0 | Some ip \<Rightarrow> ip))
      else HostKey speaker)"

definition LOG_EVERY_MS :: nat where "LOG_EVERY_MS = 60000"
definition LOGGED_HOSTS :: nat where "LOGGED_HOSTS = 4096"
definition MAX_BUCKETS :: nat where "MAX_BUCKETS = 1000000"

record refused =
  logged_ms :: nat
  count :: nat

record host_rate =
  host_messages_per_sec :: nat
  host_burst :: nat
  host_buckets :: "gateway_key table"
  refusals :: "(gateway_key \<times> refused) list"

definition host_rate_with_capacity :: "nat \<Rightarrow> nat \<Rightarrow> nat \<Rightarrow> host_rate" where
  "host_rate_with_capacity mps burst cap =
     \<lparr>host_messages_per_sec = mps, host_burst = burst, host_buckets = table_new cap, refusals = []\<rparr>"

definition host_rate_new :: "nat \<Rightarrow> nat \<Rightarrow> host_rate" where
  "host_rate_new mps burst = host_rate_with_capacity mps burst MAX_BUCKETS"

text \<open>\<open>State::refused\<close>: the answer is the number to log, when the minute is up.\<close>

definition note_refused ::
  "(gateway_key \<times> refused) list \<Rightarrow> gateway_key \<Rightarrow> nat \<Rightarrow> nat option \<times> (gateway_key \<times> refused) list" where
  "note_refused m0 key now_ms =
     (let m = (if map_of m0 key = None \<and> length m0 \<ge> LOGGED_HOSTS then [] else m0) in
      case map_of m key of
        Some ref \<Rightarrow>
          if saturating_sub now_ms (logged_ms ref) < LOG_EVERY_MS
          then (None, AList.update key (ref\<lparr>count := count ref + 1\<rparr>) m)
          else (Some (count ref + 1), AList.update key \<lparr>logged_ms = now_ms, count = 0\<rparr> m)
      | None \<Rightarrow> (Some 1, AList.update key \<lparr>logged_ms = now_ms, count = 0\<rparr> m))"

text \<open>\<open>admit_at\<close>: whether the message is admitted, what is logged, and the state after it.\<close>

definition admit_at :: "host_rate \<Rightarrow> gateway_key \<Rightarrow> nat \<Rightarrow> bool \<times> nat option \<times> host_rate" where
  "admit_at h key now_ms =
     (case table_take (host_buckets h) key (host_messages_per_sec h) (host_burst h) now_ms of
        (ok, t) \<Rightarrow>
          if ok then (True, None, h\<lparr>host_buckets := t\<rparr>)
          else (case note_refused (refusals h) key now_ms of
                  (logged, m) \<Rightarrow> (False, logged, h\<lparr>host_buckets := t, refusals := m\<rparr>)))"

section \<open>The count of refusals\<close>

definition pending :: "(gateway_key \<times> refused) list \<Rightarrow> gateway_key \<Rightarrow> nat" where
  "pending m k = (case map_of m k of None \<Rightarrow> 0 | Some ref \<Rightarrow> count ref)"

definition logged_number :: "nat option \<Rightarrow> nat" where
  "logged_number l = (case l of None \<Rightarrow> 0 | Some n \<Rightarrow> n)"

definition keeps_all :: "(gateway_key \<times> refused) list \<Rightarrow> gateway_key \<Rightarrow> bool" where
  "keeps_all m k \<longleftrightarrow> map_of m k \<noteq> None \<or> length m < LOGGED_HOSTS"

lemma note_refused_other:
  "keeps_all m k \<Longrightarrow> k' \<noteq> k \<Longrightarrow> map_of (snd (note_refused m k now)) k' = map_of m k'"
  by (auto simp: note_refused_def Let_def keeps_all_def update_conv' split: option.splits)

lemma note_refused_counts:
  "keeps_all m k \<Longrightarrow>
   logged_number (fst (note_refused m k now)) + pending (snd (note_refused m k now)) k = pending m k + 1"
  by (auto simp: note_refused_def Let_def keeps_all_def pending_def logged_number_def update_conv'
      split: option.splits)

lemma length_note_refused: "length m \<le> LOGGED_HOSTS \<Longrightarrow> length (snd (note_refused m k now)) \<le> LOGGED_HOSTS"
  by (auto simp: note_refused_def Let_def length_update LOGGED_HOSTS_def split: option.splits)

lemma keys_note_refused:
  "keeps_all m k \<Longrightarrow> dom (map_of (snd (note_refused m k now))) = insert k (dom (map_of m))"
  by (auto simp: note_refused_def Let_def keeps_all_def update_conv' split: option.splits if_splits)

lemma distinct_note_refused:
  "distinct (map fst m) \<Longrightarrow> distinct (map fst (snd (note_refused m k now)))"
  by (auto simp: note_refused_def Let_def distinct_update split: option.splits)

text \<open>The moment of a key's last log line, where there was one.\<close>

definition last_line :: "(gateway_key \<times> refused) list \<Rightarrow> gateway_key \<Rightarrow> nat option" where
  "last_line m k = map_option logged_ms (map_of m k)"

lemma note_refused_line:
  assumes "keeps_all m k"
  shows "last_line (snd (note_refused m k now)) k =
      (if fst (note_refused m k now) = None then last_line m k else Some now)"
    and "fst (note_refused m k now) = None \<Longrightarrow> last_line m k \<noteq> None"
    and "fst (note_refused m k now) = Some n \<Longrightarrow> last_line m k = Some past \<Longrightarrow> past + LOG_EVERY_MS \<le> now"
  using assms
  by (auto simp: note_refused_def Let_def keeps_all_def last_line_def update_conv' saturating_sub_def
      LOG_EVERY_MS_def split: option.splits if_splits)

text \<open>A run of refusals and the lines it logs, as key, moment and number.\<close>

fun run_refused :: "(gateway_key \<times> refused) list \<Rightarrow> (gateway_key \<times> nat) list \<Rightarrow> (gateway_key \<times> nat \<times> nat) list" where
  "run_refused m [] = []"
| "run_refused m ((k, now) # refs) =
     (case note_refused m k now of
        (logged, m') \<Rightarrow>
          (case logged of None \<Rightarrow> [] | Some n \<Rightarrow> [(k, now, n)]) @ run_refused m' refs)"

definition lines_of :: "gateway_key \<Rightarrow> (gateway_key \<times> nat \<times> nat) list \<Rightarrow> (nat \<times> nat) list" where
  "lines_of k ls = map snd (filter (\<lambda>l. fst l = k) ls)"

lemma lines_of_append [simp]: "lines_of k (xs @ ys) = lines_of k xs @ lines_of k ys"
  by (simp add: lines_of_def)

definition spaced :: "nat option \<Rightarrow> nat list \<Rightarrow> bool" where
  "spaced past ts \<longleftrightarrow> sorted_wrt (\<lambda>t u. t + LOG_EVERY_MS \<le> u) ((case past of None \<Rightarrow> [] | Some p \<Rightarrow> [p]) @ ts)"

lemma spaced_None: "spaced None ts \<longleftrightarrow> sorted_wrt (\<lambda>t u. t + LOG_EVERY_MS \<le> u) ts"
  by (simp add: spaced_def)

lemma spaced_Cons:
  "spaced (Some t) ts \<Longrightarrow> (\<And>p. past = Some p \<Longrightarrow> p + LOG_EVERY_MS \<le> t) \<Longrightarrow> spaced past (t # ts)"
  by (cases past) (auto simp: spaced_def dest: order_trans [of "_ + LOG_EVERY_MS"])

lemma keeps_all_if_few:
  assumes "distinct (map fst m)" and "card (dom (map_of m) \<union> K) \<le> LOGGED_HOSTS" and "k \<in> K" and "finite K"
  shows "keeps_all m k"
  unfolding keeps_all_def
proof (rule disjCI)
  assume "\<not> length m < LOGGED_HOSTS"
  moreover have "card (dom (map_of m)) = length m"
    using assms(1) distinct_card [of "map fst m"] by (simp add: dom_map_of_conv_image_fst)
  ultimately have "card (dom (map_of m) \<union> K) \<le> card (dom (map_of m))"
    using assms(2) by simp
  then have "dom (map_of m) = dom (map_of m) \<union> K"
    using assms(4) by (intro card_seteq) (auto simp: finite_dom_map_of)
  then show "map_of m k \<noteq> None" using assms(3) by auto
qed

lemma run_refused_lines:
  assumes "distinct (map fst m)" and "card (dom (map_of m) \<union> fst ` set refs) \<le> LOGGED_HOSTS"
  shows "sum_list (map snd (lines_of key (run_refused m refs))) \<le> pending m key + length (filter (\<lambda>r. fst r = key) refs)
    \<and> spaced (last_line m key) (map fst (lines_of key (run_refused m refs)))"
  using assms
proof (induction refs arbitrary: m)
  case Nil
  then show ?case by (simp add: lines_of_def spaced_def split: option.splits)
next
  case (Cons ref refs)
  obtain k now where ref: "ref = (k, now)" by (cases ref)
  obtain logged m' where nr: "note_refused m k now = (logged, m')" by (cases "note_refused m k now")
  then have m': "m' = snd (note_refused m k now)" and logged: "logged = fst (note_refused m k now)" by simp_all
  have run: "run_refused m (ref # refs) = (case logged of None \<Rightarrow> [] | Some n \<Rightarrow> [(k, now, n)]) @ run_refused m' refs"
    by (simp add: ref nr)
  have keeps: "keeps_all m k"
    using Cons.prems ref by (intro keeps_all_if_few [where K = "fst ` set (ref # refs)"]) auto
  have "dom (map_of m') \<union> fst ` set refs = dom (map_of m) \<union> fst ` set (ref # refs)"
    using keys_note_refused [OF keeps] m' ref by auto
  then have IH: "sum_list (map snd (lines_of key (run_refused m' refs))) \<le> pending m' key + length (filter (\<lambda>r. fst r = key) refs)
      \<and> spaced (last_line m' key) (map fst (lines_of key (run_refused m' refs)))"
    using Cons.prems m' by (intro Cons.IH) (simp_all add: distinct_note_refused)
  show ?case
  proof (cases "k = key")
    case False
    then have "pending m' key = pending m key" "last_line m' key = last_line m key"
      using note_refused_other [OF keeps] m' by (simp_all add: pending_def last_line_def)
    with IH False show ?thesis unfolding run by (simp add: ref lines_of_def split: option.splits)
  next
    case True
    note line = note_refused_line [OF keeps, of now, folded m' logged, unfolded True]
    have count: "logged_number logged + pending m' key = pending m key + 1"
      using note_refused_counts [OF keeps, of now] m' logged True by simp
    show ?thesis
    proof (cases logged)
      case None
      with IH True line count show ?thesis unfolding run by (simp add: ref logged_number_def)
    next
      case (Some n)
      then have "spaced (last_line m key) (now # map fst (lines_of key (run_refused m' refs)))"
        using IH line by (intro spaced_Cons) auto
      with IH True count Some show ?thesis unfolding run by (simp add: ref logged_number_def lines_of_def)
    qed
  qed
qed

text \<open>Both tables of a Gateway stay bounded.\<close>

definition host_rate_wf :: "host_rate \<Rightarrow> bool" where
  "host_rate_wf h \<longleftrightarrow> table_wf (host_buckets h) \<and> distinct (map fst (refusals h)) \<and> length (refusals h) \<le> LOGGED_HOSTS"

lemma admit_at_wf: "host_rate_wf h \<Longrightarrow> host_rate_wf (snd (snd (admit_at h key now)))"
  using table_take_wf [of "host_buckets h" key "host_messages_per_sec h" "host_burst h" now]
    length_note_refused [of "refusals h" key now] distinct_note_refused [of "refusals h" key now]
  by (auto simp: admit_at_def host_rate_wf_def split: prod.splits)

interpretation host_machine: machine "\<lambda>h. \<exists>mps burst cap. h = host_rate_with_capacity mps burst cap"
  "\<lambda>(key, now) h. snd (snd (admit_at h key now))" host_rate_wf
proof
  fix h c
  show "\<exists>mps burst cap. h = host_rate_with_capacity mps burst cap \<Longrightarrow> host_rate_wf h"
    by (auto simp: host_rate_wf_def host_rate_with_capacity_def table_wf_new)
  show "host_rate_wf h \<Longrightarrow> host_rate_wf ((case c of (key, now) \<Rightarrow> \<lambda>h. snd (snd (admit_at h key now))) h)"
    by (cases c) (simp add: admit_at_wf)
qed

section \<open>Properties\<close>



end
