(* ===== verification/Throttle.thy ===== *)
theory Throttle
  imports Rate
begin

text \<open>
  The throttle of repeated admission failures (\<open>fleet-server/src/throttle.rs\<close>). The table of addresses is a
  hash map: its list order stands for the order its iterator happens to have. The clock's reading is the
  argument \<open>now\<close>; dropping an \<open>Attempt\<close> is the operation \<open>attempt_drop\<close>.
\<close>

section \<open>Data and operations\<close>

record throttle_limits =
  max_failures :: nat
  window_secs :: nat
  backoff_secs :: nat

definition default_throttle_limits :: throttle_limits where
  "default_throttle_limits = \<lparr>max_failures = 10, window_secs = 60, backoff_secs = 300\<rparr>"

definition DEFAULT_CAPACITY :: nat where "DEFAULT_CAPACITY = 10000"

record entry =
  since_ms :: nat
  failures :: nat
  blocked_until_ms :: "nat option"
  last_ms :: nat
  in_flight :: nat

record throttle =
  limits :: throttle_limits
  throttle_capacity :: nat
  entries :: "(ip_addr \<times> entry) list"

definition throttle_with_capacity :: "throttle_limits \<Rightarrow> nat \<Rightarrow> throttle" where
  "throttle_with_capacity lims cap = \<lparr>limits = lims, throttle_capacity = max cap 1, entries = []\<rparr>"

definition throttle_new :: "throttle_limits \<Rightarrow> throttle" where
  "throttle_new lims = throttle_with_capacity lims DEFAULT_CAPACITY"

definition div_ceil :: "nat \<Rightarrow> nat \<Rightarrow> nat" where
  "div_ceil a b = (a + (b - 1)) div b"

definition retry_after :: "throttle \<Rightarrow> ip_addr \<Rightarrow> nat \<Rightarrow> nat option" where
  "retry_after t peer now =
     (case map_of (entries t) (peer_key peer) of
        None \<Rightarrow> None
      | Some e \<Rightarrow> (case blocked_until_ms e of
                    None \<Rightarrow> None
                  | Some until \<Rightarrow> if until > now then Some (max (div_ceil (until - now) 1000) 1) else None))"

definition blocked_at :: "entry \<Rightarrow> nat \<Rightarrow> bool" where
  "blocked_at e now \<longleftrightarrow> (case blocked_until_ms e of None \<Rightarrow> False | Some until \<Rightarrow> until > now)"

definition busy :: "nat \<Rightarrow> entry \<Rightarrow> bool" where
  "busy now e \<longleftrightarrow> blocked_at e now \<or> in_flight e > 0"

text \<open>\<open>min_by_key\<close>: the first of the smallest, by \<open>(busy, last_ms)\<close>.\<close>

definition key_less :: "nat \<Rightarrow> entry \<Rightarrow> entry \<Rightarrow> bool" where
  "key_less now a b \<longleftrightarrow> (\<not> busy now a \<and> busy now b) \<or> (busy now a = busy now b \<and> last_ms a < last_ms b)"

fun min_entry :: "nat \<Rightarrow> (ip_addr \<times> entry) list \<Rightarrow> (ip_addr \<times> entry) option" where
  "min_entry now [] = None"
| "min_entry now (x # xs) =
     (case min_entry now xs of
        None \<Rightarrow> Some x
      | Some y \<Rightarrow> if key_less now (snd y) (snd x) then Some y else Some x)"

definition new_entry :: "nat \<Rightarrow> entry" where
  "new_entry now = \<lparr>since_ms = now, failures = 0, blocked_until_ms = None, last_ms = now, in_flight = 0\<rparr>"

text \<open>\<open>entry_for\<close>: the table with an entry for the key, and that entry.\<close>

definition entry_for ::
  "(ip_addr \<times> entry) list \<Rightarrow> nat \<Rightarrow> ip_addr \<Rightarrow> nat \<Rightarrow> entry \<times> (ip_addr \<times> entry) list" where
  "entry_for es cap key now =
     (let es1 = (if map_of es key = None \<and> length es \<ge> cap
                 then (case min_entry now es of None \<Rightarrow> es | Some (oldest, _) \<Rightarrow> AList.delete oldest es)
                 else es) in
      case map_of es1 key of
        Some e \<Rightarrow> (e, es1)
      | None \<Rightarrow> (new_entry now, AList.update key (new_entry now) es1))"

text \<open>\<open>begin\<close>: whether an attempt was handed out.\<close>

definition begin_attempt :: "throttle \<Rightarrow> ip_addr \<Rightarrow> nat \<Rightarrow> bool \<times> throttle" where
  "begin_attempt t peer now =
     (let key = peer_key peer in
      case entry_for (entries t) (throttle_capacity t) key now of
        (e, es) \<Rightarrow>
          if failures e + in_flight e \<ge> max_failures (limits t) then (False, t\<lparr>entries := es\<rparr>)
          else (True, t\<lparr>entries := AList.update key (e\<lparr>in_flight := in_flight e + 1\<rparr>) es\<rparr>))"

definition attempt_drop :: "throttle \<Rightarrow> ip_addr \<Rightarrow> throttle" where
  "attempt_drop t key =
     (case map_of (entries t) key of
        None \<Rightarrow> t
      | Some e \<Rightarrow> t\<lparr>entries := AList.update key (e\<lparr>in_flight := saturating_sub (in_flight e) 1\<rparr>) (entries t)\<rparr>)"

definition fail_entry :: "throttle_limits \<Rightarrow> nat \<Rightarrow> entry \<Rightarrow> entry" where
  "fail_entry lims now e =
     (let e1 = (if saturating_sub now (since_ms e) > window_secs lims * 1000
                then e\<lparr>since_ms := now, failures := 0\<rparr> else e);
          e2 = e1\<lparr>failures := min (failures e1 + 1) MAX_U32, last_ms := now\<rparr> in
      if failures e2 \<ge> max_failures lims
      then e2\<lparr>blocked_until_ms := Some (now + backoff_secs lims * 1000), failures := 0, since_ms := now\<rparr>
      else e2)"

definition failed :: "throttle \<Rightarrow> ip_addr \<Rightarrow> nat \<Rightarrow> throttle" where
  "failed t peer now =
     (let key = peer_key peer in
      case entry_for (entries t) (throttle_capacity t) key now of
        (e, es) \<Rightarrow> t\<lparr>entries := AList.update key (fail_entry (limits t) now e) es\<rparr>)"

section \<open>What is forgotten\<close>

lemma min_entry_None: "min_entry now es = None \<longleftrightarrow> es = []"
  by (cases es) (auto split: option.splits)

lemma min_entry_in: "min_entry now es = Some x \<Longrightarrow> x \<in> set es"
  by (induction es arbitrary: x) (auto split: option.splits if_splits)

lemma key_less_trans: "\<not> key_less now a b \<Longrightarrow> \<not> key_less now b c \<Longrightarrow> \<not> key_less now a c"
  by (auto simp: key_less_def)

lemma min_entry_least: "min_entry now es = Some x \<Longrightarrow> y \<in> set es \<Longrightarrow> \<not> key_less now (snd y) (snd x)"
proof (induction es arbitrary: x)
  case (Cons e es)
  show ?case
  proof (cases "min_entry now es")
    case None
    then show ?thesis using Cons.prems by (auto simp: min_entry_None key_less_def)
  next
    case (Some z)
    have z: "y \<in> set es \<Longrightarrow> \<not> key_less now (snd y) (snd z)" using Cons.IH Some by blast
    show ?thesis
    proof (cases "key_less now (snd z) (snd e)")
      case True
      then have "x = z" using Cons.prems(1) Some by simp
      moreover have "\<not> key_less now (snd e) (snd z)" using True by (auto simp: key_less_def)
      ultimately show ?thesis using Cons.prems(2) z by auto
    next
      case False
      then have "x = e" using Cons.prems(1) Some by simp
      then show ?thesis
        using Cons.prems(2) z key_less_trans [of now "snd y" "snd z" "snd e"] False by (auto simp: key_less_def)
    qed
  qed
qed simp

lemma min_entry_busy:
  assumes "min_entry now es = Some x" and "busy now (snd x)" and "y \<in> set es"
  shows "busy now (snd y)"
  using min_entry_least [OF assms(1,3)] assms(2) by (auto simp: key_less_def)

section \<open>The invariant\<close>

text \<open>
  The table is bounded; with a limit of at least one failure, no entry has reached it without being in back-off
  and counting anew, and no more attempts are under way than the limit.
\<close>

definition entry_ok :: "throttle_limits \<Rightarrow> entry \<Rightarrow> bool" where
  "entry_ok lims e \<longleftrightarrow> failures e < max_failures lims \<and> in_flight e \<le> max_failures lims"

definition throttle_wf :: "throttle \<Rightarrow> bool" where
  "throttle_wf t \<longleftrightarrow>
     1 \<le> max_failures (limits t)
     \<and> 1 \<le> throttle_capacity t
     \<and> length (entries t) \<le> throttle_capacity t
     \<and> distinct (map fst (entries t))
     \<and> (\<forall>k e. map_of (entries t) k = Some e \<longrightarrow> entry_ok (limits t) e)"

lemma entry_ok_new: "1 \<le> max_failures lims \<Longrightarrow> entry_ok lims (new_entry now)"
  by (simp add: entry_ok_def new_entry_def)

lemma entry_ok_fail: "1 \<le> max_failures lims \<Longrightarrow> entry_ok lims e \<Longrightarrow> entry_ok lims (fail_entry lims now e)"
  by (auto simp: entry_ok_def fail_entry_def Let_def)

definition table_ok :: "nat \<Rightarrow> (ip_addr \<times> entry) list \<Rightarrow> bool" where
  "table_ok cap es \<longleftrightarrow> 1 \<le> cap \<and> length es \<le> cap \<and> distinct (map fst es)"

text \<open>The table after making room for a key.\<close>

definition roomy :: "(ip_addr \<times> entry) list \<Rightarrow> nat \<Rightarrow> ip_addr \<Rightarrow> nat \<Rightarrow> (ip_addr \<times> entry) list" where
  "roomy es cap key now =
     (if map_of es key = None \<and> length es \<ge> cap
      then (case min_entry now es of None \<Rightarrow> es | Some (oldest, _) \<Rightarrow> AList.delete oldest es)
      else es)"

lemma entry_for_roomy:
  "entry_for es cap key now =
     (case map_of (roomy es cap key now) key of
        Some e \<Rightarrow> (e, roomy es cap key now)
      | None \<Rightarrow> (new_entry now, AList.update key (new_entry now) (roomy es cap key now)))"
  by (simp only: entry_for_def roomy_def Let_def)

lemma roomy_spec:
  assumes "table_ok cap es"
  shows "table_ok cap (roomy es cap key now)"
    and "map_of (roomy es cap key now) key = map_of es key"
    and "map_of es key = None \<Longrightarrow> length (roomy es cap key now) < cap"
    and "map_of (roomy es cap key now) k \<in> {map_of es k, None}"
    and "map_of es k = Some e \<Longrightarrow> map_of (roomy es cap key now) k = None \<Longrightarrow>
      map_of es k' = Some e' \<Longrightarrow> busy now e \<Longrightarrow> busy now e'"
proof -
  have *: "table_ok cap (roomy es cap key now) \<and> map_of (roomy es cap key now) key = map_of es key
      \<and> (map_of es key = None \<longrightarrow> length (roomy es cap key now) < cap)
      \<and> (\<forall>k. map_of (roomy es cap key now) k \<in> {map_of es k, None})
      \<and> (\<forall>k e k' e'. map_of es k = Some e \<longrightarrow> map_of (roomy es cap key now) k = None \<longrightarrow>
           map_of es k' = Some e' \<longrightarrow> busy now e \<longrightarrow> busy now e')"
  proof (cases "map_of es key = None \<and> length es \<ge> cap")
    case False
    then show ?thesis using assms by (auto simp: roomy_def)
  next
    case True
    then have "es \<noteq> []" using assms by (auto simp: table_ok_def)
    then obtain old eo where min: "min_entry now es = Some (old, eo)"
      by (metis min_entry_None not_Some_eq surj_pair)
    then have held: "map_of es old = Some eo"
      using assms min_entry_in [OF min] by (simp add: table_ok_def)
    have room: "roomy es cap key now = AList.delete old es" using True min by (simp add: roomy_def)
    have "length (AList.delete old es) = length es - 1"
      using assms held by (intro length_delete) (auto simp: table_ok_def)
    moreover have "busy now eo \<Longrightarrow> map_of es k' = Some e' \<Longrightarrow> busy now e'" for k' e'
      using min_entry_busy [OF min] map_of_SomeD [of es k' e'] by auto
    ultimately show ?thesis
      using assms True held by (auto simp: room delete_conv' table_ok_def distinct_delete simp del: map_of_eq_Some_iff)
  qed
  then show "table_ok cap (roomy es cap key now)" "map_of (roomy es cap key now) key = map_of es key"
    "map_of es key = None \<Longrightarrow> length (roomy es cap key now) < cap"
    "map_of (roomy es cap key now) k \<in> {map_of es k, None}"
    "map_of es k = Some e \<Longrightarrow> map_of (roomy es cap key now) k = None \<Longrightarrow>
      map_of es k' = Some e' \<Longrightarrow> busy now e \<Longrightarrow> busy now e'"
    by blast+
qed

lemma entry_for_spec:
  assumes ok: "table_ok cap es" and ef: "entry_for es cap key now = (e, es')"
  shows "table_ok cap es'"
    and "e = (case map_of es key of Some x \<Rightarrow> x | None \<Rightarrow> new_entry now)"
    and "map_of es' = (map_of (roomy es cap key now))(key \<mapsto> e)"
proof -
  note room = roomy_spec(1-3) [OF ok, of key now]
  show "e = (case map_of es key of Some x \<Rightarrow> x | None \<Rightarrow> new_entry now)"
    using ef room(2) by (auto simp: entry_for_roomy split: option.splits)
  show "map_of es' = (map_of (roomy es cap key now))(key \<mapsto> e)"
    using ef by (auto simp: entry_for_roomy update_conv' split: option.splits)
  show "table_ok cap es'"
    using ef room by (auto simp: entry_for_roomy table_ok_def length_update distinct_update split: option.splits)
qed

lemma table_ok_update:
  "table_ok cap es \<Longrightarrow> map_of es k \<noteq> None \<Longrightarrow> table_ok cap (AList.update k v es)"
  by (auto simp: table_ok_def length_update distinct_update)

definition entries_ok :: "throttle_limits \<Rightarrow> (ip_addr \<rightharpoonup> entry) \<Rightarrow> bool" where
  "entries_ok lims es \<longleftrightarrow> (\<forall>k e. es k = Some e \<longrightarrow> entry_ok lims e)"

lemma throttle_wf_alt:
  "throttle_wf t \<longleftrightarrow> 1 \<le> max_failures (limits t) \<and> table_ok (throttle_capacity t) (entries t)
     \<and> entries_ok (limits t) (map_of (entries t))"
  unfolding throttle_wf_def table_ok_def entries_ok_def by blast

lemma entries_ok_put: "entries_ok lims es \<Longrightarrow> entry_ok lims e \<Longrightarrow> entries_ok lims (es(k \<mapsto> e))"
  by (simp add: entries_ok_def)

lemma entries_ok_roomy:
  "table_ok cap es \<Longrightarrow> entries_ok lims (map_of es) \<Longrightarrow> entries_ok lims (map_of (roomy es cap key now))"
  unfolding entries_ok_def using roomy_spec(4) by (metis empty_iff insert_iff not_Some_eq)

lemma entry_for_wf:
  assumes wf: "throttle_wf t" and ef: "entry_for (entries t) (throttle_capacity t) key now = (e, es')"
  shows "entry_ok (limits t) e" and "table_ok (throttle_capacity t) es'"
    and "entries_ok (limits t) (map_of es')" and "map_of es' key = Some e"
proof -
  have ok: "table_ok (throttle_capacity t) (entries t)" "entries_ok (limits t) (map_of (entries t))"
    "1 \<le> max_failures (limits t)"
    using wf by (simp_all add: throttle_wf_alt)
  note spec = entry_for_spec [OF ok(1) ef]
  show e: "entry_ok (limits t) e"
    using spec(2) ok entry_ok_new by (auto simp: entries_ok_def split: option.splits)
  show "table_ok (throttle_capacity t) es'" by (rule spec(1))
  show "entries_ok (limits t) (map_of es')"
    unfolding spec(3) using e ok by (intro entries_ok_put entries_ok_roomy)
  show "map_of es' key = Some e" by (simp add: spec(3))
qed

lemma begin_wf: "throttle_wf t \<Longrightarrow> throttle_wf (snd (begin_attempt t peer now))"
proof -
  assume wf: "throttle_wf t"
  obtain e es where ef: "entry_for (entries t) (throttle_capacity t) (peer_key peer) now = (e, es)"
    by (cases "entry_for (entries t) (throttle_capacity t) (peer_key peer) now")
  note ok = entry_for_wf [OF wf ef]
  show ?thesis
  proof (cases "failures e + in_flight e \<ge> max_failures (limits t)")
    case True
    then show ?thesis using ok wf by (simp add: begin_attempt_def ef throttle_wf_alt)
  next
    case False
    then have "entry_ok (limits t) (e\<lparr>in_flight := in_flight e + 1\<rparr>)"
      using ok(1) by (simp add: entry_ok_def)
    then show ?thesis
      using False ok wf by (simp add: begin_attempt_def ef throttle_wf_alt update_conv' table_ok_update entries_ok_put)
  qed
qed

lemma failed_wf: "throttle_wf t \<Longrightarrow> throttle_wf (failed t peer now)"
proof -
  assume wf: "throttle_wf t"
  obtain e es where ef: "entry_for (entries t) (throttle_capacity t) (peer_key peer) now = (e, es)"
    by (cases "entry_for (entries t) (throttle_capacity t) (peer_key peer) now")
  show ?thesis
    using entry_for_wf [OF wf ef] wf
    by (simp add: failed_def ef throttle_wf_alt update_conv' table_ok_update entries_ok_put entry_ok_fail)
qed

lemma attempt_drop_wf: "throttle_wf t \<Longrightarrow> throttle_wf (attempt_drop t key)"
proof -
  assume wf: "throttle_wf t"
  show ?thesis
  proof (cases "map_of (entries t) key")
    case None
    then show ?thesis using wf by (simp add: attempt_drop_def)
  next
    case (Some e)
    then have "entry_ok (limits t) e" using wf by (simp add: throttle_wf_alt entries_ok_def)
    then have "entry_ok (limits t) (e\<lparr>in_flight := saturating_sub (in_flight e) 1\<rparr>)"
      by (auto simp: entry_ok_def saturating_sub_def)
    then show ?thesis
      using Some wf by (simp add: attempt_drop_def throttle_wf_alt update_conv' table_ok_update entries_ok_put)
  qed
qed

datatype throttle_op = Begin ip_addr nat | Failed ip_addr nat | Drop ip_addr

fun throttle_step :: "throttle_op \<Rightarrow> throttle \<Rightarrow> throttle" where
  "throttle_step (Begin peer now) t = snd (begin_attempt t peer now)"
| "throttle_step (Failed peer now) t = failed t peer now"
| "throttle_step (Drop key) t = attempt_drop t key"

interpretation throttle_machine: machine
  "\<lambda>t. \<exists>lims cap. 1 \<le> max_failures lims \<and> t = throttle_with_capacity lims cap" throttle_step throttle_wf
proof
  fix t c
  show "\<exists>lims cap. 1 \<le> max_failures lims \<and> t = throttle_with_capacity lims cap \<Longrightarrow> throttle_wf t"
    by (auto simp: throttle_wf_def throttle_with_capacity_def)
  show "throttle_wf t \<Longrightarrow> throttle_wf (throttle_step c t)"
    by (cases c) (simp_all add: begin_wf failed_wf attempt_drop_wf)
qed

section \<open>Failures of one address\<close>

definition fail_all :: "ip_addr \<Rightarrow> nat list \<Rightarrow> throttle \<Rightarrow> throttle" where
  "fail_all peer ts t = fold (\<lambda>now t. failed t peer now) ts t"

definition entry_at :: "throttle \<Rightarrow> ip_addr \<Rightarrow> nat \<Rightarrow> entry" where
  "entry_at t key now = (case map_of (entries t) key of Some e \<Rightarrow> e | None \<Rightarrow> new_entry now)"

lemma limits_failed [simp]: "limits (failed t peer now) = limits t"
  by (simp add: failed_def Let_def split: prod.splits)

lemma failed_entry:
  assumes "throttle_wf t"
  shows "map_of (entries (failed t peer now)) (peer_key peer) =
    Some (fail_entry (limits t) now (entry_at t (peer_key peer) now))"
proof -
  obtain e es where ef: "entry_for (entries t) (throttle_capacity t) (peer_key peer) now = (e, es)"
    by (cases "entry_for (entries t) (throttle_capacity t) (peer_key peer) now")
  then show ?thesis
    using entry_for_spec(2) [OF _ ef] assms
    by (simp add: failed_def ef update_conv' entry_at_def throttle_wf_alt Let_def)
qed

lemma fail_all_entry:
  assumes "throttle_wf t"
  shows "map_of (entries (fail_all peer (now # ts) t)) (peer_key peer) =
    Some (fold (fail_entry (limits t)) (now # ts) (entry_at t (peer_key peer) now))"
  using assms
proof (induction ts arbitrary: t now)
  case Nil
  then show ?case by (simp add: fail_all_def failed_entry)
next
  case (Cons now' ts)
  have "entry_at (failed t peer now) (peer_key peer) now' = fail_entry (limits t) now (entry_at t (peer_key peer) now)"
    using failed_entry [OF Cons.prems] by (simp add: entry_at_def)
  then show ?case using Cons.IH [of "failed t peer now" now'] failed_wf [OF Cons.prems]
    by (simp add: fail_all_def)
qed

text \<open>The failure that reaches the limit within the window puts the address in back-off.\<close>

lemma fail_fold_blocks:
  assumes "failures e + length ts = max_failures lims" and "ts \<noteq> []" and "max_failures lims \<le> MAX_U32"
    and "\<forall>now \<in> set ts. now \<le> since_ms e + window_secs lims * 1000"
  shows "blocked_until_ms (fold (fail_entry lims) ts e) = Some (last ts + backoff_secs lims * 1000)"
  using assms
proof (induction ts arbitrary: e)
  case (Cons now ts)
  show ?case
  proof (cases "ts = []")
    case True
    then show ?thesis using Cons.prems
      by (auto simp: fail_entry_def Let_def saturating_sub_def)
  next
    case False
    then have "failures e + 1 < max_failures lims" using Cons.prems(1) by (cases ts) auto
    then have "failures (fail_entry lims now e) = failures e + 1" "since_ms (fail_entry lims now e) = since_ms e"
      using Cons.prems by (auto simp: fail_entry_def Let_def saturating_sub_def)
    then show ?thesis using Cons.IH [of "fail_entry lims now e"] Cons.prems False by simp
  qed
qed simp

section \<open>Properties\<close>

text \<open>
  C25: The throttle stays within its bounds whatever is asked of it: at most \<open>capacity\<close> addresses, in each
  fewer failures counted than the limit, and no more attempts under way than the limit, so attempts sent at
  once do not outrun the count.
\<close>

theorem throttle_bounds:
  assumes "1 \<le> max_failures lims"
  shows "let t = fold throttle_step cs (throttle_with_capacity lims cap) in
    length (entries t) \<le> throttle_capacity t
    \<and> (\<forall>k e. map_of (entries t) k = Some e \<longrightarrow>
         failures e < max_failures (limits t) \<and> in_flight e \<le> max_failures (limits t))"
  using throttle_machine.reach_inv [of "throttle_with_capacity lims cap" cs] assms
  unfolding Let_def throttle_wf_def entry_ok_def by blast

theorem throttle_bounds_witness:
  "let t = fold throttle_step [Begin (V4 1) 0, Failed (V4 1) 5, Drop (V4 1)] (throttle_with_capacity default_throttle_limits 1) in
    length (entries t) \<le> throttle_capacity t"
  using throttle_bounds [of default_throttle_limits "[Begin (V4 1) 0, Failed (V4 1) 5, Drop (V4 1)]" 1]
  by (simp add: Let_def default_throttle_limits_def del: throttle_step.simps)



text \<open>
  C27: A flood of fresh addresses cannot push out an address in back-off, or one with an attempt under way, as
  long as the table holds another that is neither: its entry is unchanged by what the others do.
\<close>

theorem flood_spares_busy:
  assumes wf: "throttle_wf t" and held: "map_of (entries t) k = Some e" and busy: "busy now e"
    and idle: "map_of (entries t) k' = Some e'" "\<not> busy now e'" and other: "peer_key peer \<noteq> k"
  shows "map_of (entries (failed t peer now)) k = Some e \<and> map_of (entries (snd (begin_attempt t peer now))) k = Some e"
proof -
  have ok: "table_ok (throttle_capacity t) (entries t)" using wf by (simp add: throttle_wf_alt)
  let ?room = "roomy (entries t) (throttle_capacity t) (peer_key peer) now"
  have "map_of ?room k = Some e"
    using roomy_spec(4,5) [OF ok, where k = k and key = "peer_key peer" and now = now] held busy idle
    by (metis insert_iff singletonD)
  moreover obtain x es where ef: "entry_for (entries t) (throttle_capacity t) (peer_key peer) now = (x, es)"
    by (cases "entry_for (entries t) (throttle_capacity t) (peer_key peer) now")
  ultimately have "map_of es k = Some e" using entry_for_spec(3) [OF ok ef] other by simp
  then show ?thesis using other by (simp add: failed_def begin_attempt_def ef update_conv' Let_def)
qed

theorem flood_spares_busy_witness:
  "let blocked = (new_entry 0)\<lparr>blocked_until_ms := Some 9000\<rparr>;
       t = \<lparr>limits = default_throttle_limits, throttle_capacity = 2, entries = [(V4 1, blocked), (V4 2, new_entry 5)]\<rparr> in
   map_of (entries (failed t (V4 3) 100)) (V4 1) = Some blocked"
proof -
  let ?blocked = "(new_entry 0)\<lparr>blocked_until_ms := Some 9000\<rparr>"
  let ?t = "\<lparr>limits = default_throttle_limits, throttle_capacity = 2, entries = [(V4 1, ?blocked), (V4 2, new_entry 5)]\<rparr>"
  have *: "throttle_wf ?t" "map_of (entries ?t) (V4 1) = Some ?blocked" "busy 100 ?blocked"
    "map_of (entries ?t) (V4 2) = Some (new_entry 5)" "\<not> busy 100 (new_entry 5)" "peer_key (V4 3) \<noteq> V4 1"
    by (auto simp: throttle_wf_def default_throttle_limits_def entry_ok_def busy_def blocked_at_def new_entry_def peer_key_def)
  show ?thesis using flood_spares_busy [OF *] by (simp add: Let_def)
qed

text \<open>
  When every address is in back-off or has an attempt under way, a fresh one does push a blocked one out: the
  blocked address may then try at once.
\<close>

lemma full_table_drops_blocked:
  "let t = \<lparr>limits = default_throttle_limits, throttle_capacity = 1,
            entries = [(V4 1, (new_entry 0)\<lparr>blocked_until_ms := Some 9000\<rparr>)]\<rparr> in
   retry_after t (V4 1) 100 = Some 9 \<and> retry_after (failed t (V4 2) 100) (V4 1) 100 = None"
  by (simp add: Let_def retry_after_def failed_def entry_for_def peer_key_def busy_def blocked_at_def new_entry_def
      div_ceil_def default_throttle_limits_def fail_entry_def saturating_sub_def MAX_U32_def)

text \<open>
  A failure outside the window still counts when an attempt begins: after nine failures an hour ago a second
  attempt at the same time is refused.
\<close>

lemma begin_counts_aged_failures:
  "let t = \<lparr>limits = default_throttle_limits, throttle_capacity = 1, entries = [(V4 1, (new_entry 0)\<lparr>failures := 9\<rparr>)]\<rparr>;
       t1 = snd (begin_attempt t (V4 1) 3600000) in
   fst (begin_attempt t (V4 1) 3600000) \<and> \<not> fst (begin_attempt t1 (V4 1) 3600000)"
  by (simp add: Let_def begin_attempt_def entry_for_def peer_key_def new_entry_def default_throttle_limits_def)

end
