(* ===== verification/Labels.thy ===== *)
theory Labels
  imports Prelude
begin

text \<open>
  Attributes as the protocol carries them (\<open>opamp/src/attributes.rs\<close>, with the schema \<open>anyvalue.proto\<close>)
  and the effective description Selectors match (\<open>fleet-server/src/labels.rs\<close>).
\<close>

section \<open>Attributes\<close>

text \<open>
  The alternatives of \<open>AnyValue\<close>; an \<open>AnyValue\<close> itself may hold none, and a \<open>KeyValue\<close> may hold no
  \<open>AnyValue\<close>. A double is its 64 bits.
\<close>

datatype any_value =
    StringValue string
  | BoolValue bool
  | IntValue int
  | DoubleValue "64 word"
  | ArrayValue "any_value option list"
  | KvlistValue "(string \<times> any_value option option) list"
  | BytesValue string

record key_value =
  kv_key :: string
  kv_value :: "any_value option option"

record agent_description =
  identifying_attributes :: "key_value list"
  non_identifying_attributes :: "key_value list"

definition string_value :: "key_value list \<Rightarrow> string \<Rightarrow> string option" where
  "string_value attributes key =
     (case find (\<lambda>kv. kv_key kv = key) attributes of
        None \<Rightarrow> None
      | Some kv \<Rightarrow>
        (case kv_value kv of
           Some (Some (StringValue s)) \<Rightarrow> if s \<noteq> [] then Some s else None
         | _ \<Rightarrow> None))"

definition string_attr :: "string \<Rightarrow> string \<Rightarrow> key_value" where
  "string_attr key value = \<lparr>kv_key = key, kv_value = Some (Some (StringValue value))\<rparr>"

definition string_array_attr :: "string \<Rightarrow> string list \<Rightarrow> key_value" where
  "string_array_attr key values =
     \<lparr>kv_key = key, kv_value = Some (Some (ArrayValue (map (\<lambda>v. Some (StringValue v)) values)))\<rparr>"

section \<open>Labels\<close>

definition RESERVED_PREFIX :: string where "RESERVED_PREFIX = ''fleet.''"
definition CLIENT_KIND_PREFIX :: string where "CLIENT_KIND_PREFIX = ''supervisor.kind.''"

datatype label_refusal = EmptyKey | ReservedKey string | EmptyValue string

fun check_pairs :: "(string, string) btree \<Rightarrow> label_refusal + unit" where
  "check_pairs [] = Ok ()"
| "check_pairs ((key, value) # pairs) =
     (if str_trim key = [] then Err EmptyKey
      else if starts_with key RESERVED_PREFIX then Err (ReservedKey key)
      else if str_trim value = [] then Err (EmptyValue key)
      else check_pairs pairs)"

definition reported_keys :: "agent_description option \<Rightarrow> string list" where
  "reported_keys description =
     (case description of
        None \<Rightarrow> []
      | Some d \<Rightarrow> map kv_key (identifying_attributes d @ non_identifying_attributes d))"

record sources =
  src_host :: "(string, string) btree"
  src_reported :: "agent_description option"
  src_own :: "(string, string) btree"
  src_inherited :: "(string, string) btree"

definition adds_nothing :: "sources \<Rightarrow> bool" where
  "adds_nothing s \<longleftrightarrow>
     src_host s = [] \<and> src_own s = [] \<and> src_inherited s = []
     \<and> \<not> (case src_reported s of
            None \<Rightarrow> False
          | Some d \<Rightarrow> list_ex (\<lambda>kv. starts_with (kv_key kv) RESERVED_PREFIX)
                       (identifying_attributes d @ non_identifying_attributes d))"

text \<open>The loop over the labels: \<open>taken\<close> is the set of keys some earlier source has.\<close>

fun push_labels :: "(string \<times> string) list \<Rightarrow> string bset \<Rightarrow> key_value list \<Rightarrow> key_value list" where
  "push_labels [] taken attrs = attrs"
| "push_labels ((key, value) # ls) taken attrs =
     (if starts_with key RESERVED_PREFIX \<or> key \<in> set taken
      then push_labels ls taken attrs
      else push_labels ls (bs_insert key taken) (attrs @ [string_attr key value]))"

definition effective_description :: "sources \<Rightarrow> agent_description option" where
  "effective_description s =
     (if adds_nothing s then src_reported s
      else
        let reported = (case src_reported s of
                          Some d \<Rightarrow> d
                        | None \<Rightarrow> \<lparr>identifying_attributes = [], non_identifying_attributes = []\<rparr>);
            theirs = filter (\<lambda>kv. \<not> starts_with (kv_key kv) RESERVED_PREFIX);
            effective = \<lparr>identifying_attributes = theirs (identifying_attributes reported),
                         non_identifying_attributes =
                           map (\<lambda>e. string_attr (fst e) (snd e)) (src_host s)
                           @ theirs (non_identifying_attributes reported)\<rparr>;
            taken = fold bs_insert (reported_keys (Some effective)) []
        in Some (effective\<lparr>non_identifying_attributes :=
                   push_labels (src_own s @ src_inherited s) taken (non_identifying_attributes effective)\<rparr>))"

definition shadowed :: "agent_description option \<Rightarrow> (string, string) btree \<Rightarrow> string list" where
  "shadowed description labels =
     filter (\<lambda>key. key \<in> set (reported_keys description)) (map fst labels)"

definition ignored :: "agent_description option \<Rightarrow> string list" where
  "ignored description = filter (\<lambda>key. starts_with key RESERVED_PREFIX) (reported_keys description)"

definition is_client_agent :: "agent_description option \<Rightarrow> bool" where
  "is_client_agent description =
     (case description of
        None \<Rightarrow> False
      | Some d \<Rightarrow> list_ex (\<lambda>kv. starts_with (kv_key kv) CLIENT_KIND_PREFIX) (non_identifying_attributes d))"

text \<open>The string an Agent reports under a key: an identifying attribute before a non-identifying one.\<close>

definition described :: "agent_description \<Rightarrow> string \<Rightarrow> string option" where
  "described d key =
     (case string_value (identifying_attributes d) key of
        Some v \<Rightarrow> Some v
      | None \<Rightarrow> string_value (non_identifying_attributes d) key)"

definition machine_of :: "agent_description option \<Rightarrow> string option" where
  "machine_of description =
     (case description of
        None \<Rightarrow> None
      | Some d \<Rightarrow>
        (let reported = (\<lambda>key. case described d key of Some v \<Rightarrow> if v \<noteq> [] then Some v else None | None \<Rightarrow> None) in
         case reported ''host.id'' of
           Some i \<Rightarrow> Some (''host.id='' @ i)
         | None \<Rightarrow> map_option (\<lambda>n. ''host.name='' @ n) (reported ''host.name'')))"

section \<open>The lookup an effective description answers\<close>

lemma string_value_Nil [simp]: "string_value [] key = None"
  by (simp add: string_value_def)

lemma string_value_append:
  "string_value (xs @ ys) key = (if key \<in> kv_key ` set xs then string_value xs key else string_value ys key)"
proof -
  have "find P (xs @ ys) = (case find P xs of None \<Rightarrow> find P ys | Some x \<Rightarrow> Some x)" for P :: "key_value \<Rightarrow> bool"
    by (induction xs) auto
  moreover have "find (\<lambda>kv. kv_key kv = key) xs = None \<longleftrightarrow> key \<notin> kv_key ` set xs"
    by (auto simp: find_None_iff)
  ultimately show ?thesis by (auto simp: string_value_def split: option.splits)
qed

lemma string_value_absent: "key \<notin> kv_key ` set xs \<Longrightarrow> string_value xs key = None"
  by (induction xs) (auto simp: string_value_def)

lemma string_value_filter:
  "string_value (filter (\<lambda>kv. P (kv_key kv)) xs) key = (if P key then string_value xs key else None)"
proof (induction xs)
  case (Cons x xs)
  then show ?case
    by (cases "kv_key x = key") (auto simp: string_value_def)
qed simp

text \<open>The value of a pair, where an empty one is none.\<close>

definition pair_value :: "(string, string) btree \<Rightarrow> string \<Rightarrow> string option" where
  "pair_value m key = (case map_of m key of Some v \<Rightarrow> if v \<noteq> [] then Some v else None | None \<Rightarrow> None)"

lemma string_value_pairs: "string_value (map (\<lambda>e. string_attr (fst e) (snd e)) m) key = pair_value m key"
proof (induction m)
  case (Cons e m)
  then show ?case by (cases e) (auto simp: string_value_def string_attr_def pair_value_def)
qed (simp add: pair_value_def)

lemma keys_pairs: "kv_key ` set (map (\<lambda>e. string_attr (fst e) (snd e)) m) = fst ` set m"
  by (simp add: string_attr_def image_image)

lemma push_labels_value:
  "string_value (push_labels ls taken attrs) key =
     (if key \<in> kv_key ` set attrs then string_value attrs key
      else if starts_with key RESERVED_PREFIX \<or> key \<in> set taken then None
      else pair_value ls key)"
proof (induction ls taken attrs rule: push_labels.induct)
  case (1 taken attrs)
  then show ?case by (simp add: string_value_absent pair_value_def)
next
  case (2 k v ls taken attrs)
  have single: "string_value [string_attr k v] k = (if v \<noteq> [] then Some v else None)"
    by (simp add: string_value_def string_attr_def)
  show ?case
  proof (cases "starts_with k RESERVED_PREFIX \<or> k \<in> set taken")
    case True
    then show ?thesis using 2 by (auto simp: pair_value_def)
  next
    case False
    then show ?thesis using 2 single
      by (auto simp: pair_value_def string_value_append string_attr_def)
  qed
qed

lemma set_fold_bs_insert: "set (fold bs_insert xs acc) = set xs \<union> set acc"
  by (induction xs arbitrary: acc) auto

text \<open>
  What clause 18 of ADR-0043 says a key stands for: a reserved key is the Host's; any other key is what the
  Agent reports under it, and only a key the Agent does not report is a label, its own before its Client Agent's.
\<close>

definition selector_value :: "sources \<Rightarrow> string \<Rightarrow> string option" where
  "selector_value s key =
     (if starts_with key RESERVED_PREFIX then pair_value (src_host s) key
      else if key \<in> set (reported_keys (src_reported s))
      then (case src_reported s of None \<Rightarrow> None | Some d \<Rightarrow> described d key)
      else if key \<in> dom (map_of (src_own s)) then pair_value (src_own s) key
      else pair_value (src_inherited s) key)"

lemma pair_value_append:
  "pair_value (m @ n) key = (if key \<in> dom (map_of m) then pair_value m key else pair_value n key)"
  by (auto simp: pair_value_def map_add_def split: option.splits)

lemma described_absent: "key \<notin> set (reported_keys (Some d)) \<Longrightarrow> described d key = None"
  by (auto simp: described_def reported_keys_def string_value_absent)

lemma effective_shortcut:
  assumes "adds_nothing s"
  shows "(case src_reported s of None \<Rightarrow> None | Some d \<Rightarrow> described d key) = selector_value s key"
proof (cases "src_reported s")
  case None
  then show ?thesis using assms by (simp add: adds_nothing_def selector_value_def pair_value_def reported_keys_def)
next
  case (Some d)
  have "key \<notin> set (reported_keys (Some d))" if "starts_with key RESERVED_PREFIX"
    using assms Some that by (auto simp: adds_nothing_def list_ex_iff reported_keys_def)
  then show ?thesis
    using assms Some described_absent [of key d]
    by (auto simp: adds_nothing_def selector_value_def pair_value_def)
qed

lemma effective_built:
  fixes ident nonid :: "key_value list" and own :: "(string \<times> string) list"
  assumes host: "\<forall>k \<in> fst ` set host. starts_with k RESERVED_PREFIX"
    and theirs: "theirs = filter (\<lambda>kv. \<not> starts_with (kv_key kv) RESERVED_PREFIX)"
    and eff: "eff = \<lparr>identifying_attributes = theirs ident,
      non_identifying_attributes = map (\<lambda>e. string_attr (fst e) (snd e)) host @ theirs nonid\<rparr>"
  shows "described (eff\<lparr>non_identifying_attributes :=
      push_labels own (fold bs_insert (reported_keys (Some eff)) []) (non_identifying_attributes eff)\<rparr>) key =
    (if starts_with key RESERVED_PREFIX then pair_value host key
     else if key \<in> kv_key ` set (ident @ nonid)
     then (case string_value ident key of Some v \<Rightarrow> Some v | None \<Rightarrow> string_value nonid key)
     else pair_value own key)"
proof -
  have keys: "key \<in> kv_key ` set (theirs xs) \<longleftrightarrow> key \<in> kv_key ` set xs \<and> \<not> starts_with key RESERVED_PREFIX" for xs
    by (auto simp: theirs)
  have vals: "string_value (theirs xs) key = (if starts_with key RESERVED_PREFIX then None else string_value xs key)" for xs
    using string_value_filter [of "\<lambda>k. \<not> starts_with k RESERVED_PREFIX" xs key] by (simp add: theirs)
  have hostkey: "key \<in> fst ` set host \<Longrightarrow> starts_with key RESERVED_PREFIX" using host by blast
  have nohost: "key \<notin> fst ` set host \<Longrightarrow> pair_value host key = None"
    by (simp add: pair_value_def map_of_eq_None_iff [symmetric] del: map_of_eq_None_iff)
  have taken: "set (fold bs_insert (reported_keys (Some eff)) []) =
      kv_key ` set (theirs ident) \<union> fst ` set host \<union> kv_key ` set (theirs nonid)"
    unfolding set_fold_bs_insert reported_keys_def eff option.case agent_description.simps
    by (simp only: set_map set_append image_Un keys_pairs [unfolded set_map]) auto
  have attrs: "key \<in> kv_key ` set (non_identifying_attributes eff) \<longleftrightarrow> key \<in> fst ` set host \<or> key \<in> kv_key ` set (theirs nonid)"
    unfolding eff by (simp only: agent_description.simps set_append image_Un Un_iff keys_pairs)
  have attrval: "string_value (non_identifying_attributes eff) key =
      (if key \<in> fst ` set host then pair_value host key else string_value (theirs nonid) key)"
    unfolding eff agent_description.simps string_value_append keys_pairs string_value_pairs by simp
  have non: "string_value (push_labels own (fold bs_insert (reported_keys (Some eff)) []) (non_identifying_attributes eff)) key =
      (if starts_with key RESERVED_PREFIX then pair_value host key
       else if key \<in> kv_key ` set (ident @ nonid) then string_value nonid key else pair_value own key)"
    unfolding push_labels_value attrs attrval taken Un_iff keys vals set_append image_Un
    using hostkey nohost string_value_absent [of key nonid] by (cases "key \<in> fst ` set host") auto
  have "string_value (identifying_attributes eff) key =
      (if starts_with key RESERVED_PREFIX then None else string_value ident key)"
    by (simp add: eff vals)
  moreover have d: "described (eff\<lparr>non_identifying_attributes := X\<rparr>) key =
      (case string_value (identifying_attributes eff) key of Some v \<Rightarrow> Some v | None \<Rightarrow> string_value X key)" for X
    by (simp add: described_def split: option.split)
  ultimately show ?thesis
    unfolding d non
    using string_value_absent [of key ident] by (cases "string_value ident key") (simp_all, fastforce)
qed

section \<open>Properties\<close>

text \<open>
  C28: What a Selector sees under a key is decided by the source that has it, in the order of ADR-0043 clause 18: a
  \<open>fleet.\<close> key only by the Host's certificate, whatever the Agent reports or an operator labels; any other key by the
  Agent's report, whatever a label says; and only a key the Agent does not report by its own label, then by its
  Client Agent's. The description that is borrowed instead of built answers the same.
\<close>

theorem effective_description_precedence:
  assumes "\<forall>k \<in> fst ` set (src_host s). starts_with k RESERVED_PREFIX"
  shows "(case effective_description s of None \<Rightarrow> None | Some d \<Rightarrow> described d key) = selector_value s key"
proof (cases "adds_nothing s")
  case True
  then show ?thesis using effective_shortcut by (simp add: effective_description_def)
next
  case False
  show ?thesis
    using False effective_built [OF assms refl refl]
    by (auto simp: effective_description_def selector_value_def Let_def pair_value_append described_def
        reported_keys_def split: option.splits)
qed

theorem effective_description_precedence_witness:
  "let s = \<lparr>src_host = [(''fleet.host.cn'', ''h1'')],
            src_reported = Some \<lparr>identifying_attributes = [string_attr ''service.name'' ''otel''],
                                 non_identifying_attributes = [string_attr ''fleet.host.cn'' ''h2'']\<rparr>,
            src_own = [(''rollout'', ''canary''), (''service.name'', ''x'')], src_inherited = []\<rparr> in
   (case effective_description s of None \<Rightarrow> None | Some d \<Rightarrow> described d ''fleet.host.cn'') = Some ''h1''
   \<and> (case effective_description s of None \<Rightarrow> None | Some d \<Rightarrow> described d ''service.name'') = Some ''otel''
   \<and> (case effective_description s of None \<Rightarrow> None | Some d \<Rightarrow> described d ''rollout'') = Some ''canary''"
proof -
  let ?s = "\<lparr>src_host = [(''fleet.host.cn'', ''h1'')],
            src_reported = Some \<lparr>identifying_attributes = [string_attr ''service.name'' ''otel''],
                                 non_identifying_attributes = [string_attr ''fleet.host.cn'' ''h2'']\<rparr>,
            src_own = [(''rollout'', ''canary''), (''service.name'', ''x'')], src_inherited = []\<rparr>"
  have "\<forall>k \<in> fst ` set (src_host ?s). starts_with k RESERVED_PREFIX"
    by (simp add: starts_with_def RESERVED_PREFIX_def)
  note eff = effective_description_precedence [OF this]
  show ?thesis
    unfolding Let_def eff
    by (simp add: selector_value_def starts_with_def RESERVED_PREFIX_def pair_value_def reported_keys_def
        described_def string_value_def string_attr_def)
qed


end
