(* ===== verification/Identity.thy ===== *)
theory Identity
  imports Fleet_Version Core_Rules Labels
begin

text \<open>
  What names the things the Server stores: the name grammar of Configurations and Deployments (\<open>validate_name\<close>
  in \<open>fleet-server/src/configs.rs\<close>), and platforms, Package identities and the state of a signature
  (\<open>fleet-server/src/packages.rs\<close>). The signature check's port is the parameter \<open>verifies\<close>.
\<close>

section \<open>Names\<close>

definition WINDOWS_RESERVED :: "string list" where
  "WINDOWS_RESERVED =
     [''con'', ''prn'', ''aux'', ''nul'', ''com1'', ''com2'', ''com3'', ''com4'', ''com5'', ''com6'', ''com7'', ''com8'',
      ''com9'', ''lpt1'', ''lpt2'', ''lpt3'', ''lpt4'', ''lpt5'', ''lpt6'', ''lpt7'', ''lpt8'', ''lpt9'']"

datatype name_refusal = NameLength | NameCharacters | NameHyphen | NameReserved

definition name_char :: "char \<Rightarrow> bool" where
  "name_char b \<longleftrightarrow> is_ascii_lowercase b \<or> is_ascii_digit b \<or> b = CHR ''-''"

definition validate_name :: "string \<Rightarrow> name_refusal + unit" where
  "validate_name name =
     (if name = [] \<or> length name > 32 then Err NameLength
      else if \<not> list_all name_char name then Err NameCharacters
      else if starts_with name ''-'' \<or> ends_with name ''-'' then Err NameHyphen
      else if name \<in> set WINDOWS_RESERVED then Err NameReserved
      else Ok ())"

section \<open>Platforms\<close>

record platform =
  os :: string
  arch :: string

datatype token_refusal = TokenLength | TokenCharacters

definition token_char :: "char \<Rightarrow> bool" where
  "token_char b \<longleftrightarrow> is_ascii_lowercase b \<or> is_ascii_digit b \<or> b = CHR ''_''"

definition token :: "string \<Rightarrow> (string \<Rightarrow> string) \<Rightarrow> token_refusal + string" where
  "token raw canonicalise =
     (let lowered = map to_ascii_lowercase (str_trim raw);
          canon = canonicalise lowered in
      if canon = [] \<or> length canon > 16 then Err TokenLength
      else if \<not> list_all token_char canon then Err TokenCharacters
      else Ok canon)"

definition platform_new :: "string \<Rightarrow> string \<Rightarrow> token_refusal + platform" where
  "platform_new o' a' =
     (case token o' canonical_os of
        Inl e \<Rightarrow> Err e
      | Inr o'' \<Rightarrow> (case token a' canonical_arch of
                     Inl e \<Rightarrow> Err e
                   | Inr a'' \<Rightarrow> Ok \<lparr>os = o'', arch = a''\<rparr>))"

definition platform_reported :: "agent_description option \<Rightarrow> platform option" where
  "platform_reported description =
     (case description of
        None \<Rightarrow> None
      | Some d \<Rightarrow>
        (let attribute = (\<lambda>key. case string_value (non_identifying_attributes d) key of
                                   Some v \<Rightarrow> Some v
                                 | None \<Rightarrow> string_value (identifying_attributes d) key) in
         case attribute ''os.type'' of
           None \<Rightarrow> None
         | Some o' \<Rightarrow>
           (case attribute ''host.arch'' of
              None \<Rightarrow> None
            | Some a' \<Rightarrow> (case platform_new o' a' of Inr p \<Rightarrow> Some p | Inl _ \<Rightarrow> None))))"

definition platform_tag :: "platform \<Rightarrow> string" where
  "platform_tag p = os p @ ''-'' @ arch p"

section \<open>Package identities\<close>

record package_id =
  agent_type :: string
  pkg_version :: string

datatype identity_refusal = IdentityLength | IdentityCharacters | NotSemver | NotAnIdentity

definition identity_char :: "char \<Rightarrow> bool" where
  "identity_char b \<longleftrightarrow> is_ascii_alphanumeric b \<or> b \<in> {CHR ''.'', CHR ''_'', CHR ''+'', CHR ''-''}"

definition validate_identity_token :: "string \<Rightarrow> identity_refusal + unit" where
  "validate_identity_token value =
     (if value = [] \<or> length value > 64 then Err IdentityLength
      else if \<not> list_all identity_char value then Err IdentityCharacters
      else Ok ())"

definition package_load :: "string \<Rightarrow> string \<Rightarrow> identity_refusal + package_id" where
  "package_load ty ver =
     (case validate_identity_token ty of
        Inl e \<Rightarrow> Err e
      | Inr _ \<Rightarrow> (case validate_identity_token ver of
                    Inl e \<Rightarrow> Err e
                  | Inr _ \<Rightarrow> Ok \<lparr>agent_type = ty, pkg_version = ver\<rparr>))"

definition package_is_semver :: "package_id \<Rightarrow> bool" where
  "package_is_semver i = is_semver (pkg_version i)"

definition package_new :: "string \<Rightarrow> string \<Rightarrow> identity_refusal + package_id" where
  "package_new ty ver =
     (case package_load ty ver of
        Inl e \<Rightarrow> Err e
      | Inr i \<Rightarrow> if \<not> package_is_semver i then Err NotSemver else Ok i)"

definition package_display_name :: "package_id \<Rightarrow> string" where
  "package_display_name i = agent_type i @ '' '' @ pkg_version i"

definition package_display :: "package_id \<Rightarrow> string" where
  "package_display i = agent_type i @ ''@'' @ pkg_version i"

definition package_parse :: "string \<Rightarrow> identity_refusal + package_id" where
  "package_parse raw =
     (case split_on (CHR ''@'') raw of
        [ty, ver] \<Rightarrow> package_load ty ver
      | _ \<Rightarrow> Err NotAnIdentity)"

section \<open>Signatures\<close>

record package_entry =
  entry_platform :: platform
  content_hash :: string
  entry_size :: nat
  entry_signature :: "string option"

datatype signature_state_t = Missing | Valid | Invalid | Unchecked

fun signature_state_as_str :: "signature_state_t \<Rightarrow> string" where
  "signature_state_as_str Missing = ''missing''"
| "signature_state_as_str Valid = ''valid''"
| "signature_state_as_str Invalid = ''invalid''"
| "signature_state_as_str Unchecked = ''unchecked''"

definition ED25519_SIGNATURE_LEN :: nat where "ED25519_SIGNATURE_LEN = 64"

definition signature_state :: "(string \<Rightarrow> string \<Rightarrow> bool) option \<Rightarrow> package_id \<Rightarrow> package_entry \<Rightarrow> signature_state_t" where
  "signature_state verifier i e =
     (case entry_signature e of
        None \<Rightarrow> Missing
      | Some signature \<Rightarrow>
        (case verifier of
           None \<Rightarrow> Unchecked
         | Some verifies \<Rightarrow>
           if verifies (package_statement (agent_type i) (pkg_version i) (content_hash e)) signature
           then Valid else Invalid))"

section \<open>Lemmas\<close>

definition package_ok :: "package_id \<Rightarrow> bool" where
  "package_ok i \<longleftrightarrow> validate_identity_token (agent_type i) = Ok () \<and> validate_identity_token (pkg_version i) = Ok ()"

lemma package_load_ok: "package_load ty ver = Ok i \<longleftrightarrow> i = \<lparr>agent_type = ty, pkg_version = ver\<rparr> \<and> package_ok i"
  by (auto simp: package_load_def package_ok_def split: sum.splits)

lemma identity_token_chars:
  assumes "validate_identity_token s = Ok ()"
  shows "CHR ''@'' \<notin> set s" and "newline \<notin> set s" and "CHR ''/'' \<notin> set s" and "s \<noteq> []"
  using assms
  by (auto simp: validate_identity_token_def list_all_iff identity_char_def ascii_defs newline_def split: if_splits)

lemma split_on_single: "c \<notin> set s \<Longrightarrow> split_on c s = [s]"
  by (induction s) auto

lemma split_on_append: "c \<notin> set s \<Longrightarrow> split_on c (s @ c # t) = s # split_on c t"
  by (induction s) auto

lemma package_parse_display: "package_ok i \<Longrightarrow> package_parse (package_display i) = Ok i"
  by (simp add: package_parse_def package_display_def package_ok_def identity_token_chars
      split_on_append split_on_single package_load_ok)

lemma package_display_parse: "package_parse raw = Ok i \<Longrightarrow> package_display i = raw \<and> package_ok i"
proof -
  assume "package_parse raw = Ok i"
  then obtain ty ver where parts: "split_on (CHR ''@'') raw = [ty, ver]" "package_load ty ver = Ok i"
    by (auto simp: package_parse_def split: list.splits)
  then have "raw = ty @ CHR ''@'' # ver" using join_split [of "CHR ''@''" raw] by simp
  with parts show ?thesis by (auto simp: package_load_ok package_display_def)
qed

lemma str_trim_id: "space_len s = 0 \<Longrightarrow> space_len_end s = 0 \<Longrightarrow> str_trim s = s"
proof -
  assume "space_len s = 0" "space_len_end s = 0"
  then have "trim_start s n = s" "trim_end s n = s" for n by (cases n; simp)+
  then show ?thesis by (simp add: str_trim_def Let_def)
qed

lemma space_len_visible: "list_all (\<lambda>c. 32 < byte c \<and> byte c < 128) s \<Longrightarrow> space_len s = 0"
  by (cases s rule: space_len.cases) (auto split: list.splits)

lemma str_trim_visible: "list_all (\<lambda>c. 32 < byte c \<and> byte c < 128) s \<Longrightarrow> str_trim s = s"
proof (rule str_trim_id)
  assume *: "list_all (\<lambda>c. 32 < byte c \<and> byte c < 128) s"
  then show "space_len s = 0" by (rule space_len_visible)
  have "space_len (drop n s) = 0" for n
    using * by (intro space_len_visible) (auto simp: list_all_iff dest: in_set_dropD)
  then show "space_len_end s = 0" by (simp add: space_len_end_def Let_def)
qed

lemma token_char_visible: "token_char c \<Longrightarrow> 32 < byte c \<and> byte c < 128"
  by (auto simp: token_char_def is_ascii_lowercase_def is_ascii_digit_def byte_def)

lemma token_char_lower: "token_char c \<Longrightarrow> to_ascii_lowercase c = c"
  by (auto simp: token_char_def to_ascii_lowercase_def ascii_defs)

lemma token_fixed:
  assumes "list_all token_char s" and "s \<noteq> []" and "length s \<le> 16" and "f s = s"
  shows "token s f = Ok s"
proof -
  have "str_trim s = s"
    using assms(1) token_char_visible by (intro str_trim_visible) (auto simp: list_all_iff)
  moreover have "map to_ascii_lowercase s = s"
    using assms(1) token_char_lower by (intro map_idI) (auto simp: list_all_iff)
  ultimately show ?thesis using assms by (simp add: token_def Let_def)
qed

lemma canonical_idem:
  assumes "\<forall>(a, b) \<in> set aliases. \<forall>(a', b') \<in> set aliases. \<not> eq_ignore_ascii_case a' b"
  shows "canonical (canonical s aliases) aliases = canonical s aliases"
proof (cases "find (\<lambda>e. eq_ignore_ascii_case (fst e) s) aliases")
  case None
  then show ?thesis by (simp add: canonical_def)
next
  case (Some e)
  then have "e \<in> set aliases" by (auto simp: find_Some_iff)
  then have "find (\<lambda>e'. eq_ignore_ascii_case (fst e') (snd e)) aliases = None"
    using assms by (fastforce simp: find_None_iff)
  with Some show ?thesis by (simp add: canonical_def)
qed

lemma canonical_os_idem: "canonical_os (canonical_os s) = canonical_os s"
  unfolding canonical_os_def by (rule canonical_idem) code_simp

lemma canonical_arch_idem: "canonical_arch (canonical_arch s) = canonical_arch s"
  unfolding canonical_arch_def by (rule canonical_idem) code_simp

lemma token_Ok:
  "token raw f = Ok t \<Longrightarrow> \<exists>s. t = f s \<and> t \<noteq> [] \<and> length t \<le> 16 \<and> list_all token_char t"
  by (auto simp: token_def Let_def split: if_splits)

lemma platform_tokens:
  assumes "platform_new o' a' = Ok p"
  shows "token (os p) canonical_os = Ok (os p)" and "token (arch p) canonical_arch = Ok (arch p)" and "CHR ''-'' \<notin> set (os p)"
proof -
  have tok: "token o' canonical_os = Ok (os p)" "token a' canonical_arch = Ok (arch p)"
    using assms by (auto simp: platform_new_def split: sum.splits)
  obtain s t where s: "os p = canonical_os s" "os p \<noteq> []" "length (os p) \<le> 16" "list_all token_char (os p)"
    and t: "arch p = canonical_arch t" "arch p \<noteq> []" "length (arch p) \<le> 16" "list_all token_char (arch p)"
    using tok [THEN token_Ok] by blast
  have "canonical_os (os p) = os p" "canonical_arch (arch p) = arch p"
    using s(1) t(1) canonical_os_idem canonical_arch_idem by simp_all
  then show "token (os p) canonical_os = Ok (os p)" "token (arch p) canonical_arch = Ok (arch p)"
    using s t by (simp_all add: token_fixed)
  show "CHR ''-'' \<notin> set (os p)" using s(4) by (auto simp: list_all_iff token_char_def ascii_defs)
qed

lemma platform_new_again: "platform_new o' a' = Ok p \<Longrightarrow> platform_new (os p) (arch p) = Ok p"
  using platform_tokens [of o' a' p] by (auto simp: platform_new_def intro: platform.equality)

section \<open>Properties\<close>

text \<open>
  C30: A Package identity and its text \<open>type@version\<close> determine each other: what is written parses back to the
  identity it was written for, and what parses is written back as it was; so a directory name or a stored
  assignment names one Package.
\<close>

theorem package_id_roundtrip:
  "package_parse raw = Ok i \<longleftrightarrow> package_ok i \<and> raw = package_display i"
  using package_parse_display package_display_parse by blast

text \<open>
  C31: A platform is canonical: making a platform of its own two tokens gives it again, so what an Agent reports and
  what an artifact is stored under meet, and two platforms have the same tag only when they are the same.
\<close>

theorem platform_canonical:
  assumes "platform_new o1 a1 = Ok p" and "platform_new o2 a2 = Ok q"
  shows "platform_new (os p) (arch p) = Ok p \<and> (platform_tag p = platform_tag q \<longleftrightarrow> p = q)"
proof -
  have "platform_tag p = platform_tag q \<longleftrightarrow> os p = os q \<and> arch p = arch q"
    using platform_tokens(3) [OF assms(1)] platform_tokens(3) [OF assms(2)]
      first_split_inject [of "CHR ''-''" "os p" "os q" "arch p" "arch q"]
    by (simp add: platform_tag_def)
  then show ?thesis using platform_new_again [OF assms(1)] by (auto intro: platform.equality)
qed

theorem platform_canonical_witness:
  "platform_new ''macOS'' ''x86_64'' = Ok \<lparr>os = ''darwin'', arch = ''amd64''\<rparr>
   \<and> platform_new ''darwin'' ''amd64'' = Ok \<lparr>os = ''darwin'', arch = ''amd64''\<rparr>"
proof -
  have mac: "platform_new ''macOS'' ''x86_64'' = Ok \<lparr>os = ''darwin'', arch = ''amd64''\<rparr>" by code_simp
  then show ?thesis using platform_canonical [OF mac mac] by simp
qed

end
