(* ===== verification/Deployments.thy ===== *)
theory Deployments
  imports Identity
begin

text \<open>
  Deployments (\<open>fleet-server/src/deployments.rs\<close>): Selectors, the one Deployment an Agent belongs to, changes to
  a Deployment's members, and the store over its persistence port; and the filesystem adapter of that port
  (\<open>fleet-server/src/fs/deployments.rs\<close>). The port is a record of functions over the adapter's state, and its
  contract the locale \<open>deployment_port\<close>. A file's JSON is the value \<open>serde\<close> reads from it; a file that
  cannot be read or parsed is \<open>None\<close>.
\<close>

section \<open>Selectors\<close>

definition matches :: "(string, string) btree \<Rightarrow> agent_description option \<Rightarrow> bool" where
  "matches selector description \<longleftrightarrow>
     (if selector = [] then True
      else case description of
        None \<Rightarrow> False
      | Some d \<Rightarrow> list_all (\<lambda>e. described d (fst e) = Some (snd e)) selector)"

record deployment =
  dep_name :: string
  selector :: "(string, string) btree"
  packages :: "(string, package_id) btree"
  configurations :: "string bset"

definition package_for :: "deployment \<Rightarrow> string \<Rightarrow> package_id option" where
  "package_for d ty = map_of (packages d) ty"

definition holds_nothing :: "deployment \<Rightarrow> bool" where
  "holds_nothing d \<longleftrightarrow> packages d = [] \<and> configurations d = []"

datatype selector_refusal = SelectorEmpty | SelectorBlank string string

fun blank_pair :: "(string \<times> string) list \<Rightarrow> (string \<times> string) option" where
  "blank_pair [] = None"
| "blank_pair ((key, value) # ps) =
     (if str_trim key = [] \<or> str_trim value = [] then Some (key, value) else blank_pair ps)"

definition check_selector :: "(string, string) btree \<Rightarrow> selector_refusal + unit" where
  "check_selector sel =
     (if sel = [] then Err SelectorEmpty
      else case blank_pair sel of Some (k, v) \<Rightarrow> Err (SelectorBlank k v) | None \<Rightarrow> Ok ())"

text \<open>\<open>deployment_for\<close>: the error names every Deployment that claims the Agent.\<close>

definition deployment_for ::
  "(string, deployment) btree \<Rightarrow> agent_description option \<Rightarrow> string list + deployment option" where
  "deployment_for deployments description =
     (let claiming = filter (\<lambda>d. matches (selector d) description) (map snd deployments) in
      case claiming of
        [] \<Rightarrow> Ok None
      | [only] \<Rightarrow> Ok (Some only)
      | all \<Rightarrow> Err (map dep_name all))"

section \<open>Changes\<close>

datatype deployment_error =
    InvalidName name_refusal
  | InvalidSelector selector_refusal
  | NotFound
  | MissingMember string string
  | TypeTaken string package_id
  | Conflict string
  | Storage

datatype change =
    PutPackage package_id bool
  | RemovePackage package_id
  | PutConfiguration string
  | RemoveConfiguration string

fun apply_change :: "change \<Rightarrow> deployment \<Rightarrow> deployment_error + deployment" where
  "apply_change (PutPackage i replace) d =
     (case (if replace then None else map_of (packages d) (agent_type i)) of
        Some held \<Rightarrow>
          if held \<noteq> i then Err (TypeTaken (agent_type i) held)
          else Ok (d\<lparr>packages := bt_insert (agent_type i) i (packages d)\<rparr>)
      | None \<Rightarrow> Ok (d\<lparr>packages := bt_insert (agent_type i) i (packages d)\<rparr>))"
| "apply_change (RemovePackage i) d =
     (if map_of (packages d) (agent_type i) \<noteq> Some i then Err NotFound
      else Ok (d\<lparr>packages := bt_remove (agent_type i) (packages d)\<rparr>))"
| "apply_change (PutConfiguration c) d = Ok (d\<lparr>configurations := bs_insert c (configurations d)\<rparr>)"
| "apply_change (RemoveConfiguration c) d =
     (if c \<notin> set (configurations d) then Err (MissingMember (dep_name d) c)
      else Ok (d\<lparr>configurations := bs_remove c (configurations d)\<rparr>))"

datatype member = MemberConfiguration string | MemberPackage package_id

fun drop_from :: "member \<Rightarrow> deployment \<Rightarrow> bool \<times> deployment" where
  "drop_from (MemberConfiguration c) d =
     (c \<in> set (configurations d), d\<lparr>configurations := bs_remove c (configurations d)\<rparr>)"
| "drop_from (MemberPackage i) d =
     (if map_of (packages d) (agent_type i) = Some i
      then (True, d\<lparr>packages := bt_remove (agent_type i) (packages d)\<rparr>)
      else (False, d))"

section \<open>The port and the store\<close>

record 's deployment_backend =
  db_load :: "'s \<Rightarrow> unit + deployment list"
  db_save :: "string \<Rightarrow> (string, string) btree \<Rightarrow> 's \<Rightarrow> (unit + deployment) \<times> 's"
  db_amend :: "string \<Rightarrow> change \<Rightarrow> 's \<Rightarrow> (deployment_error + deployment) \<times> 's"
  db_drop_member :: "member \<Rightarrow> 's \<Rightarrow> (unit + deployment list) \<times> 's"
  db_remove :: "string \<Rightarrow> 's \<Rightarrow> (deployment_error + unit) \<times> 's"

record 's deployment_store =
  persisted :: 's
  held :: "(string, deployment) btree"

definition by_name :: "deployment list \<Rightarrow> (string, deployment) btree" where
  "by_name ds = bt_collect (map (\<lambda>d. (dep_name d, d)) ds)"

definition store_open :: "'s deployment_backend \<Rightarrow> 's \<Rightarrow> unit + 's deployment_store" where
  "store_open be s =
     (case db_load be s of Inl e \<Rightarrow> Err e | Inr ds \<Rightarrow> Ok \<lparr>persisted = s, held = by_name ds\<rparr>)"

definition store_list :: "'s deployment_store \<Rightarrow> deployment list" where
  "store_list st = map snd (held st)"

definition store_get :: "'s deployment_store \<Rightarrow> string \<Rightarrow> deployment option" where
  "store_get st name = map_of (held st) name"

definition store_reload :: "'s deployment_backend \<Rightarrow> 's deployment_store \<Rightarrow> (unit + unit) \<times> 's deployment_store" where
  "store_reload be st =
     (case db_load be (persisted st) of
        Inl e \<Rightarrow> (Err e, st)
      | Inr ds \<Rightarrow> (Ok (), st\<lparr>held := by_name ds\<rparr>))"

definition store_put ::
  "'s deployment_backend \<Rightarrow> string \<Rightarrow> (string, string) btree \<Rightarrow> 's deployment_store
   \<Rightarrow> (deployment_error + deployment) \<times> 's deployment_store" where
  "store_put be name sel st =
     (case validate_name name of
        Inl e \<Rightarrow> (Err (InvalidName e), st)
      | Inr _ \<Rightarrow>
        (case check_selector sel of
           Inl e \<Rightarrow> (Err (InvalidSelector e), st)
         | Inr _ \<Rightarrow>
           (case db_save be name sel (persisted st) of
              (Inl e, s) \<Rightarrow> (Err Storage, st\<lparr>persisted := s\<rparr>)
            | (Inr d, s) \<Rightarrow> (Ok d, st\<lparr>persisted := s, held := bt_insert name d (held st)\<rparr>))))"

definition store_amend ::
  "'s deployment_backend \<Rightarrow> string \<Rightarrow> change \<Rightarrow> 's deployment_store
   \<Rightarrow> (deployment_error + deployment) \<times> 's deployment_store" where
  "store_amend be name c st =
     (case db_amend be name c (persisted st) of
        (Inl e, s) \<Rightarrow> (Err e, st\<lparr>persisted := s\<rparr>)
      | (Inr d, s) \<Rightarrow> (Ok d, st\<lparr>persisted := s, held := bt_insert name d (held st)\<rparr>))"

definition store_put_package where
  "store_put_package be name i replace st = store_amend be name (PutPackage i replace) st"

definition store_remove_package where
  "store_remove_package be name i st = store_amend be name (RemovePackage i) st"

definition store_put_configuration where
  "store_put_configuration be name c st = store_amend be name (PutConfiguration c) st"

definition store_remove_configuration where
  "store_remove_configuration be name c st = store_amend be name (RemoveConfiguration c) st"

definition store_drop_everywhere ::
  "'s deployment_backend \<Rightarrow> member \<Rightarrow> 's deployment_store
   \<Rightarrow> (deployment_error + string list) \<times> 's deployment_store" where
  "store_drop_everywhere be m st =
     (case db_drop_member be m (persisted st) of
        (Inl e, s) \<Rightarrow> (Err Storage, st\<lparr>persisted := s\<rparr>)
      | (Inr changed, s) \<Rightarrow>
          (Ok (map dep_name changed),
           st\<lparr>persisted := s, held := fold (\<lambda>d. bt_insert (dep_name d) d) changed (held st)\<rparr>))"

definition store_delete ::
  "'s deployment_backend \<Rightarrow> string \<Rightarrow> 's deployment_store \<Rightarrow> (deployment_error + bool) \<times> 's deployment_store" where
  "store_delete be name st =
     (if \<not> bt_contains (held st) name then (Ok False, st)
      else (case db_remove be name (persisted st) of
        (Inl e, s) \<Rightarrow> (Err e, st\<lparr>persisted := s\<rparr>)
      | (Inr _, s) \<Rightarrow> (Ok True, st\<lparr>persisted := s, held := bt_remove name (held st)\<rparr>)))"

section \<open>The filesystem adapter\<close>

record deployment_meta =
  meta_name :: string
  meta_selector :: "(string, string) btree"
  meta_packages :: "(string \<times> string) list"
  meta_configurations :: "string list"

definition meta_of :: "deployment \<Rightarrow> deployment_meta" where
  "meta_of d =
     \<lparr>meta_name = dep_name d, meta_selector = selector d,
      meta_packages = map (\<lambda>i. (agent_type i, pkg_version i)) (map snd (packages d)),
      meta_configurations = configurations d\<rparr>"

fun load_packages :: "(string \<times> string) list \<Rightarrow> (string, package_id) btree \<Rightarrow> unit + (string, package_id) btree" where
  "load_packages [] m = Ok m"
| "load_packages ((ty, ver) # refs) m =
     (case package_load ty ver of
        Inl _ \<Rightarrow> Err ()
      | Inr i \<Rightarrow> load_packages refs (bt_insert (agent_type i) i m))"

fun load_configurations :: "string list \<Rightarrow> string bset \<Rightarrow> unit + string bset" where
  "load_configurations [] m = Ok m"
| "load_configurations (c # cs) m =
     (case validate_name c of Inl _ \<Rightarrow> Err () | Inr _ \<Rightarrow> load_configurations cs (bs_insert c m))"

definition into_deployment :: "deployment_meta \<Rightarrow> unit + deployment" where
  "into_deployment m =
     (case validate_name (meta_name m) of
        Inl _ \<Rightarrow> Err ()
      | Inr _ \<Rightarrow>
        (case check_selector (meta_selector m) of
           Inl _ \<Rightarrow> Err ()
         | Inr _ \<Rightarrow>
           (case load_packages (meta_packages m) [] of
              Inl e \<Rightarrow> Err e
            | Inr ps \<Rightarrow>
              (case load_configurations (meta_configurations m) [] of
                 Inl e \<Rightarrow> Err e
               | Inr cs \<Rightarrow>
                 Ok \<lparr>dep_name = meta_name m, selector = meta_selector m, packages = ps, configurations = cs\<rparr>))))"

type_synonym deployment_files = "(string, deployment_meta option) btree"

definition fs_parse :: "string \<Rightarrow> deployment_meta option \<Rightarrow> unit + deployment" where
  "fs_parse stem file =
     (case file of
        None \<Rightarrow> Err ()
      | Some m \<Rightarrow>
        (case into_deployment m of
           Inl e \<Rightarrow> Err e
         | Inr d \<Rightarrow> if stem \<noteq> dep_name d then Err () else Ok d))"

definition fs_read :: "string \<Rightarrow> deployment_files disk \<Rightarrow> unit + deployment option" where
  "fs_read name s =
     (case map_of (disk_content s) name of
        None \<Rightarrow> Ok None
      | Some file \<Rightarrow> (case fs_parse name file of Inl e \<Rightarrow> Err e | Inr d \<Rightarrow> Ok (Some d)))"

definition fs_put :: "deployment \<Rightarrow> deployment_files disk \<Rightarrow> bool \<times> deployment_files disk" where
  "fs_put d s = replace_doc (bt_insert (dep_name d) (Some (meta_of d))) s"

fun parse_all :: "(string \<times> deployment_meta option) list \<Rightarrow> unit + deployment list" where
  "parse_all [] = Ok []"
| "parse_all ((stem, file) # fs) =
     (case fs_parse stem file of
        Inl e \<Rightarrow> Err e
      | Inr d \<Rightarrow> (case parse_all fs of Inl e \<Rightarrow> Err e | Inr ds \<Rightarrow> Ok (d # ds)))"

definition fs_load :: "deployment_files disk \<Rightarrow> unit + deployment list" where
  "fs_load s = parse_all (disk_content s)"

definition fs_save :: "string \<Rightarrow> (string, string) btree \<Rightarrow> deployment_files disk \<Rightarrow> (unit + deployment) \<times> deployment_files disk" where
  "fs_save name sel s =
     (case fs_read name s of
        Inl e \<Rightarrow> (Err e, s)
      | Inr found \<Rightarrow>
        (let d = (case found of
                    Some existing \<Rightarrow> existing\<lparr>selector := sel\<rparr>
                  | None \<Rightarrow> \<lparr>dep_name = name, selector = sel, packages = [], configurations = []\<rparr>) in
         case fs_put d s of (ok, s') \<Rightarrow> (if ok then Ok d else Err (), s')))"

definition fs_amend :: "string \<Rightarrow> change \<Rightarrow> deployment_files disk \<Rightarrow> (deployment_error + deployment) \<times> deployment_files disk" where
  "fs_amend name c s =
     (case fs_read name s of
        Inl _ \<Rightarrow> (Err Storage, s)
      | Inr None \<Rightarrow> (Err NotFound, s)
      | Inr (Some d) \<Rightarrow>
        (case apply_change c d of
           Inl e \<Rightarrow> (Err e, s)
         | Inr d' \<Rightarrow> (case fs_put d' s of (ok, s') \<Rightarrow> (if ok then Ok d' else Err Storage, s'))))"

fun drop_each :: "member \<Rightarrow> deployment list \<Rightarrow> deployment_files disk \<Rightarrow> (unit + deployment list) \<times> deployment_files disk" where
  "drop_each m [] s = (Ok [], s)"
| "drop_each m (d # ds) s =
     (if fst (drop_from m d)
      then (case fs_put (snd (drop_from m d)) s of
              (False, s') \<Rightarrow> (Err (), s')
            | (True, s') \<Rightarrow>
              (case drop_each m ds s' of
                 (Inl e, s'') \<Rightarrow> (Err e, s'')
               | (Inr changed, s'') \<Rightarrow> (Ok (snd (drop_from m d) # changed), s'')))
      else drop_each m ds s)"

definition fs_drop_member :: "member \<Rightarrow> deployment_files disk \<Rightarrow> (unit + deployment list) \<times> deployment_files disk" where
  "fs_drop_member m s = (case fs_load s of Inl e \<Rightarrow> (Err e, s) | Inr ds \<Rightarrow> drop_each m ds s)"

definition fs_remove :: "string \<Rightarrow> deployment_files disk \<Rightarrow> (deployment_error + unit) \<times> deployment_files disk" where
  "fs_remove name s = (case step_doc (bt_remove name) s of (ok, s') \<Rightarrow> (if ok then Ok () else Err Storage, s'))"

definition fs_deployment_backend :: "deployment_files disk deployment_backend" where
  "fs_deployment_backend =
     \<lparr>db_load = fs_load, db_save = fs_save, db_amend = fs_amend, db_drop_member = fs_drop_member, db_remove = fs_remove\<rparr>"

section \<open>Valid Deployments\<close>

definition dep_valid :: "deployment \<Rightarrow> bool" where
  "dep_valid d \<longleftrightarrow>
     validate_name (dep_name d) = Ok ()
     \<and> check_selector (selector d) = Ok ()
     \<and> bt_wf (packages d) \<and> (\<forall>(ty, i) \<in> set (packages d). ty = agent_type i \<and> package_ok i)
     \<and> bs_wf (configurations d) \<and> (\<forall>c \<in> set (configurations d). validate_name c = Ok ())"

fun change_ok :: "change \<Rightarrow> bool" where
  "change_ok (PutPackage i _) = package_ok i"
| "change_ok (RemovePackage i) = True"
| "change_ok (PutConfiguration c) = (validate_name c = Ok ())"
| "change_ok (RemoveConfiguration c) = True"

lemma dep_valid_put_package:
  "dep_valid d \<Longrightarrow> package_ok i \<Longrightarrow> dep_valid (d\<lparr>packages := bt_insert (agent_type i) i (packages d)\<rparr>)"
  using set_bt_insert_subset [of "agent_type i" i "packages d"] by (auto simp: dep_valid_def)

lemma dep_valid_remove_package:
  "dep_valid d \<Longrightarrow> dep_valid (d\<lparr>packages := bt_remove k (packages d)\<rparr>)"
  using set_bt_remove_subset [of k "packages d"] by (auto simp: dep_valid_def)

lemma dep_valid_configurations:
  "dep_valid d \<Longrightarrow> validate_name c = Ok () \<Longrightarrow> dep_valid (d\<lparr>configurations := bs_insert c (configurations d)\<rparr>)"
  "dep_valid d \<Longrightarrow> dep_valid (d\<lparr>configurations := bs_remove c (configurations d)\<rparr>)"
  by (auto simp: dep_valid_def)

lemma apply_change_valid:
  "apply_change c d = Ok d' \<Longrightarrow> dep_valid d \<Longrightarrow> change_ok c \<Longrightarrow> dep_valid d' \<and> dep_name d' = dep_name d"
  by (cases c)
    (auto simp: dep_valid_put_package dep_valid_remove_package dep_valid_configurations split: option.splits if_splits)

lemma drop_from_valid: "dep_valid d \<Longrightarrow> dep_valid (snd (drop_from m d))"
  by (cases m) (auto simp: dep_valid_remove_package dep_valid_configurations)

lemma drop_from_name [simp]: "dep_name (snd (drop_from m d)) = dep_name d"
  by (cases m) auto

lemma drop_from_gone: "\<not> fst (drop_from m (snd (drop_from m d)))"
  by (cases m) auto

lemma drop_from_not_held: "dep_valid d \<Longrightarrow> \<not> fst (drop_from m d) \<Longrightarrow> snd (drop_from m d) = d"
proof (cases m)
  case (MemberConfiguration c)
  assume "\<not> fst (drop_from m d)"
  then have "bs_remove c (configurations d) = configurations d"
    using MemberConfiguration by (auto simp: bs_remove_def filter_id_conv)
  then show ?thesis using MemberConfiguration by simp
qed (auto split: if_splits)

section \<open>Files\<close>

lemma load_packages_ok:
  "\<forall>i \<in> set is. package_ok i \<Longrightarrow>
   load_packages (map (\<lambda>i. (agent_type i, pkg_version i)) is) m = Ok (fold (\<lambda>i. bt_insert (agent_type i) i) is m)"
proof (induction "is" arbitrary: m)
  case (Cons i "is")
  then have "package_load (agent_type i) (pkg_version i) = Ok i" by (simp add: package_load_ok)
  with Cons show ?case by simp
qed simp

lemma load_configurations_ok:
  "\<forall>c \<in> set cs. validate_name c = Ok () \<Longrightarrow> load_configurations cs m = Ok (fold bs_insert cs m)"
  by (induction cs arbitrary: m) auto

lemma fold_keyed:
  "\<forall>(ty, i) \<in> set ps. ty = agent_type i \<Longrightarrow>
   fold (\<lambda>i. bt_insert (agent_type i) i) (map snd ps) m = fold (\<lambda>e. bt_insert (fst e) (snd e)) ps m"
  by (induction ps arbitrary: m) auto

lemma meta_roundtrip:
  assumes "dep_valid d"
  shows "into_deployment (meta_of d) = Ok d"
proof -
  have "\<forall>i \<in> set (map snd (packages d)). package_ok i" and "\<forall>(ty, i) \<in> set (packages d). ty = agent_type i"
    using assms by (auto simp: dep_valid_def)
  then have "load_packages (map (\<lambda>i. (agent_type i, pkg_version i)) (map snd (packages d))) [] = Ok (packages d)"
    using assms bt_collect_id [of "packages d"]
    by (simp only: load_packages_ok fold_keyed) (simp add: bt_collect_def dep_valid_def)
  moreover have "load_configurations (configurations d) [] = Ok (configurations d)"
    using assms bs_collect_id [of "configurations d"]
    by (simp add: dep_valid_def load_configurations_ok bs_collect_def)
  ultimately show ?thesis using assms by (simp add: into_deployment_def meta_of_def dep_valid_def)
qed

definition fs_stored :: "deployment_files disk \<Rightarrow> string \<rightharpoonup> deployment" where
  "fs_stored s n =
     (case map_of (disk_content s) n of
        None \<Rightarrow> None
      | Some fl \<Rightarrow> (case fs_parse n fl of Inl _ \<Rightarrow> None | Inr d \<Rightarrow> Some d))"

definition fs_ok :: "deployment_files disk \<Rightarrow> bool" where
  "fs_ok s \<longleftrightarrow> bt_wf (disk_content s)
     \<and> (\<forall>n fl. map_of (disk_content s) n = Some fl \<longrightarrow> (\<exists>d. fs_parse n fl = Ok d \<and> dep_valid d))"

lemma fs_parse_name: "fs_parse n fl = Ok d \<Longrightarrow> dep_name d = n"
  by (auto simp: fs_parse_def split: option.splits sum.splits if_splits)

lemma fs_parse_meta: "dep_valid d \<Longrightarrow> fs_parse (dep_name d) (Some (meta_of d)) = Ok d"
  by (simp add: fs_parse_def meta_roundtrip)

lemma fs_stored_valid: "fs_ok s \<Longrightarrow> fs_stored s n = Some d \<Longrightarrow> dep_valid d \<and> dep_name d = n"
proof -
  assume ok: "fs_ok s" and st: "fs_stored s n = Some d"
  then obtain fl where fl: "map_of (disk_content s) n = Some fl" "fs_parse n fl = Ok d"
    by (auto simp: fs_stored_def split: option.splits sum.splits)
  moreover obtain d' where "fs_parse n fl = Ok d'" "dep_valid d'"
    using ok fl(1) unfolding fs_ok_def by blast
  ultimately show ?thesis by (simp add: fs_parse_name)
qed

lemma fs_put_stored:
  assumes ok: "fs_ok s" and valid: "dep_valid d" and put: "fs_put d s = (fin, s')"
  shows "fs_ok s'" and "fin \<Longrightarrow> fs_stored s' = (fs_stored s)(dep_name d \<mapsto> d)"
    and "fs_stored s' \<in> {fs_stored s, (fs_stored s)(dep_name d \<mapsto> d)}"
proof -
  have cases: "(disk_content s' = bt_insert (dep_name d) (Some (meta_of d)) (disk_content s))
      \<or> (\<not> fin \<and> disk_content s' = disk_content s)"
    using replace_doc_cases put unfolding fs_put_def by blast
  have new: "disk_content s' = bt_insert (dep_name d) (Some (meta_of d)) (disk_content s) \<Longrightarrow>
      fs_ok s' \<and> fs_stored s' = (fs_stored s)(dep_name d \<mapsto> d)"
    using ok valid fs_parse_meta [OF valid] by (auto simp: fs_ok_def fs_stored_def fun_eq_iff)
  have old: "disk_content s' = disk_content s \<Longrightarrow> fs_ok s' \<and> fs_stored s' = fs_stored s"
    using ok by (auto simp: fs_ok_def fs_stored_def fun_eq_iff)
  show "fs_ok s'" using cases new old by blast
  show "fin \<Longrightarrow> fs_stored s' = (fs_stored s)(dep_name d \<mapsto> d)" using cases new by blast
  show "fs_stored s' \<in> {fs_stored s, (fs_stored s)(dep_name d \<mapsto> d)}" using cases new old by blast
qed

lemma fs_read_stored: "fs_ok s \<Longrightarrow> fs_read n s = Ok (fs_stored s n)"
  unfolding fs_ok_def fs_read_def fs_stored_def by (cases "map_of (disk_content s) n") (fastforce split: sum.splits)+

lemma parse_all_ok:
  assumes "\<forall>(n, fl) \<in> set fs. \<exists>d. fs_parse n fl = Ok d" and "distinct (map fst fs)"
  shows "\<exists>ds. parse_all fs = Ok ds \<and> map dep_name ds = map fst fs
    \<and> (\<forall>n. map_of (map (\<lambda>d. (dep_name d, d)) ds) n =
        (case map_of fs n of None \<Rightarrow> None | Some fl \<Rightarrow> (case fs_parse n fl of Inl _ \<Rightarrow> None | Inr d \<Rightarrow> Some d)))"
  using assms
proof (induction fs)
  case (Cons x fs)
  obtain n fl where x: "x = (n, fl)" by (cases x)
  obtain d where d: "fs_parse n fl = Ok d" using Cons.prems x by auto
  then have "dep_name d = n" by (rule fs_parse_name)
  with Cons x d show ?case by auto
qed simp

lemma fs_load_ok: "fs_ok s \<Longrightarrow> \<exists>ds. fs_load s = Ok ds \<and> distinct (map dep_name ds) \<and> map_of (map (\<lambda>d. (dep_name d, d)) ds) = fs_stored s"
proof -
  assume ok: "fs_ok s"
  then have wf: "bt_wf (disk_content s)" by (simp add: fs_ok_def)
  have "\<exists>d. fs_parse n fl = Ok d" if "(n, fl) \<in> set (disk_content s)" for n fl
    using ok bt_wf_map_of_iff [OF wf, of n fl] that unfolding fs_ok_def by blast
  then obtain ds where ds: "parse_all (disk_content s) = Ok ds" "map dep_name ds = map fst (disk_content s)"
    "\<And>n. map_of (map (\<lambda>d. (dep_name d, d)) ds) n = fs_stored s n"
    using parse_all_ok [of "disk_content s"] bt_wf_distinct [OF wf] unfolding fs_stored_def by fast
  then show ?thesis using bt_wf_distinct [OF wf] by (auto simp: fs_load_def)
qed

lemma map_of_by_name: "distinct (map dep_name ds) \<Longrightarrow> map_of (by_name ds) = map_of (map (\<lambda>d. (dep_name d, d)) ds)"
  unfolding by_name_def map_of_bt_collect
  by (subst map_of_inject_set) (simp_all add: rev_map [symmetric] comp_def del: rev_map)

section \<open>The contract of the port\<close>

text \<open>The store holds in memory what the adapter persists.\<close>

definition coherent :: "('s \<Rightarrow> string \<rightharpoonup> deployment) \<Rightarrow> ('s \<Rightarrow> bool) \<Rightarrow> 's deployment_store \<Rightarrow> bool" where
  "coherent stored port_ok st \<longleftrightarrow>
     port_ok (persisted st) \<and> bt_wf (held st) \<and> map_of (held st) = stored (persisted st)"

text \<open>
  What the store relies on. \<open>stored\<close> is what the adapter persists. An operation that answers has done exactly
  what it says; a refusal changes nothing; a storage error of a write may have come before or after it took effect.
\<close>

locale deployment_port =
  fixes be :: "'s deployment_backend"
    and stored :: "'s \<Rightarrow> string \<rightharpoonup> deployment"
    and port_ok :: "'s \<Rightarrow> bool"
  assumes load_ok: "port_ok s \<Longrightarrow> \<exists>ds. db_load be s = Ok ds \<and> map_of (by_name ds) = stored s"
    and valid: "port_ok s \<Longrightarrow> stored s n = Some d \<Longrightarrow> dep_valid d \<and> dep_name d = n"
    and save_port: "port_ok s \<Longrightarrow> validate_name n = Ok () \<Longrightarrow> check_selector sel = Ok () \<Longrightarrow> port_ok (snd (db_save be n sel s))"
    and save_ok: "port_ok s \<Longrightarrow> validate_name n = Ok () \<Longrightarrow> check_selector sel = Ok () \<Longrightarrow>
      db_save be n sel s = (Ok d, s') \<Longrightarrow>
      stored s' = (stored s)(n \<mapsto> d) \<and> d = (case stored s n of Some d0 \<Rightarrow> d0\<lparr>selector := sel\<rparr>
        | None \<Rightarrow> \<lparr>dep_name = n, selector = sel, packages = [], configurations = []\<rparr>)"
    and amend_port: "port_ok s \<Longrightarrow> change_ok c \<Longrightarrow> port_ok (snd (db_amend be n c s))"
    and amend_ok: "port_ok s \<Longrightarrow> change_ok c \<Longrightarrow> db_amend be n c s = (Ok d, s') \<Longrightarrow>
      stored s' = (stored s)(n \<mapsto> d) \<and> (\<exists>d0. stored s n = Some d0 \<and> apply_change c d0 = Ok d)"
    and amend_refused: "port_ok s \<Longrightarrow> change_ok c \<Longrightarrow> db_amend be n c s = (Err e, s') \<Longrightarrow> e \<noteq> Storage \<Longrightarrow>
      stored s' = stored s \<and> (case stored s n of None \<Rightarrow> e = NotFound | Some d0 \<Rightarrow> apply_change c d0 = Err e)"
    and drop_port: "port_ok s \<Longrightarrow> port_ok (snd (db_drop_member be m s))"
    and drop_ok: "port_ok s \<Longrightarrow> db_drop_member be m s = (Ok ds, s') \<Longrightarrow>
      stored s' = (\<lambda>n. map_option (\<lambda>d. snd (drop_from m d)) (stored s n))
      \<and> (\<forall>n. map_of (map (\<lambda>d. (dep_name d, d)) (rev ds)) n =
           (case stored s n of Some d \<Rightarrow> if fst (drop_from m d) then Some (snd (drop_from m d)) else None | None \<Rightarrow> None))"
    and remove_port: "port_ok s \<Longrightarrow> port_ok (snd (db_remove be n s))"
    and remove_ok: "port_ok s \<Longrightarrow> db_remove be n s = (Ok u, s') \<Longrightarrow> stored s' = (stored s)(n := None)"
begin

lemma open_coherent: "port_ok s \<Longrightarrow> \<exists>st. store_open be s = Ok st \<and> coherent stored port_ok st \<and> persisted st = s"
  using load_ok [of s] by (auto simp: store_open_def coherent_def by_name_def)

lemma held_valid: "coherent stored port_ok st \<Longrightarrow> map_of (held st) n = Some d \<Longrightarrow> dep_valid d \<and> dep_name d = n"
  using valid [of "persisted st" n d] by (simp add: coherent_def)

lemma reload_coherent:
  "port_ok (persisted st) \<Longrightarrow> fst (store_reload be st) = Ok () \<and> coherent stored port_ok (snd (store_reload be st))"
  using load_ok [of "persisted st"] by (auto simp: store_reload_def coherent_def by_name_def)

lemma put_coherent: "coherent stored port_ok st \<Longrightarrow> store_put be n sel st = (Ok d, st') \<Longrightarrow> coherent stored port_ok st'"
  using save_port [of "persisted st" n sel] save_ok [of "persisted st" n sel d]
  by (auto simp: store_put_def coherent_def split: sum.splits prod.splits)

lemma put_refused: "store_put be n sel st = (Err e, st') \<Longrightarrow> e \<noteq> Storage \<Longrightarrow> st' = st"
  by (auto simp: store_put_def split: sum.splits prod.splits)

lemma amend_coherent: "coherent stored port_ok st \<Longrightarrow> change_ok c \<Longrightarrow> store_amend be n c st = (Ok d, st') \<Longrightarrow> coherent stored port_ok st'"
  using amend_port [of "persisted st" c n] amend_ok [of "persisted st" c n d]
  by (auto simp: store_amend_def coherent_def split: sum.splits prod.splits)

lemma amend_refused_coherent:
  "coherent stored port_ok st \<Longrightarrow> change_ok c \<Longrightarrow> store_amend be n c st = (Err e, st') \<Longrightarrow> e \<noteq> Storage \<Longrightarrow>
   coherent stored port_ok st' \<and> held st' = held st"
  using amend_port [of "persisted st" c n] amend_refused [of "persisted st" c n e]
  by (auto simp: store_amend_def coherent_def split: sum.splits prod.splits)

lemma map_of_fold_held:
  "map_of (fold (\<lambda>d. bt_insert (dep_name d) d) ds m) = map_of m ++ map_of (map (\<lambda>d. (dep_name d, d)) (rev ds))"
  by (induction ds arbitrary: m) (auto simp: map_add_def fun_eq_iff split: option.splits)

lemma bt_wf_fold_held: "bt_wf m \<Longrightarrow> bt_wf (fold (\<lambda>d. bt_insert (dep_name d) d) ds m)"
  by (induction ds arbitrary: m) auto

lemma drop_coherent:
  assumes coh: "coherent stored port_ok st" and drop: "store_drop_everywhere be m st = (Ok ns, st')"
  shows "coherent stored port_ok st'" and "map_of (held st') n = Some d \<Longrightarrow> \<not> fst (drop_from m d)"
proof -
  obtain ds s' where ds: "db_drop_member be m (persisted st) = (Ok ds, s')"
    and st': "st' = st\<lparr>persisted := s', held := fold (\<lambda>d. bt_insert (dep_name d) d) ds (held st)\<rparr>"
    using drop by (auto simp: store_drop_everywhere_def split: sum.splits prod.splits)
  have port: "port_ok (persisted st)" and held: "map_of (held st) = stored (persisted st)" "bt_wf (held st)"
    using coh by (simp_all add: coherent_def)
  note ok = drop_ok [OF port ds]
  have *: "map_of (held st') = stored s'"
  proof
    fix n
    show "map_of (held st') n = stored s' n"
      using ok valid [OF port, of n] drop_from_not_held [of _ m]
      by (auto simp: st' map_of_fold_held map_add_def held(1) split: option.splits if_splits)
  qed
  then show "coherent stored port_ok st'"
    using drop_port [OF port, of m] ds held(2) by (simp add: coherent_def st' bt_wf_fold_held)
  show "map_of (held st') n = Some d \<Longrightarrow> \<not> fst (drop_from m d)"
    using * ok drop_from_gone by auto
qed

lemma delete_coherent:
  "coherent stored port_ok st \<Longrightarrow> store_delete be n st = (Ok b, st') \<Longrightarrow> coherent stored port_ok st' \<and> map_of (held st') n = None"
  using remove_port [of "persisted st" n] remove_ok [of "persisted st" n]
  by (auto simp: store_delete_def coherent_def split: sum.splits prod.splits if_splits)

end

section \<open>The filesystem adapter keeps the contract\<close>

lemma fs_save_spec:
  assumes ok: "fs_ok s" and name: "validate_name n = Ok ()" and sel: "check_selector sel = Ok ()"
  shows "fs_ok (snd (fs_save n sel s))"
    and "fs_save n sel s = (Ok d, s') \<Longrightarrow>
      fs_stored s' = (fs_stored s)(n \<mapsto> d) \<and> d = (case fs_stored s n of Some d0 \<Rightarrow> d0\<lparr>selector := sel\<rparr>
        | None \<Rightarrow> \<lparr>dep_name = n, selector = sel, packages = [], configurations = []\<rparr>)"
proof -
  define d1 where "d1 = (case fs_stored s n of Some d0 \<Rightarrow> d0\<lparr>selector := sel\<rparr>
        | None \<Rightarrow> \<lparr>dep_name = n, selector = sel, packages = [], configurations = []\<rparr>)"
  have v: "dep_valid d1 \<and> dep_name d1 = n"
    using name sel fs_stored_valid [OF ok, of n] by (auto simp: d1_def dep_valid_def split: option.splits)
  obtain fin s1 where put: "fs_put d1 s = (fin, s1)" by (cases "fs_put d1 s")
  have save: "fs_save n sel s = (if fin then Ok d1 else Err (), s1)"
    using put by (simp add: fs_save_def fs_read_stored [OF ok] d1_def)
  note spec = fs_put_stored [OF ok conjunct1 [OF v] put]
  show "fs_ok (snd (fs_save n sel s))" using spec(1) save by simp
  show "fs_save n sel s = (Ok d, s') \<Longrightarrow>
      fs_stored s' = (fs_stored s)(n \<mapsto> d) \<and> d = (case fs_stored s n of Some d0 \<Rightarrow> d0\<lparr>selector := sel\<rparr>
        | None \<Rightarrow> \<lparr>dep_name = n, selector = sel, packages = [], configurations = []\<rparr>)"
    unfolding d1_def [symmetric] using spec(2) save v by (auto split: if_splits)
qed

lemma fs_amend_spec:
  assumes ok: "fs_ok s" and c: "change_ok c"
  shows "fs_ok (snd (fs_amend n c s))"
    and "fs_amend n c s = (Ok d, s') \<Longrightarrow>
      fs_stored s' = (fs_stored s)(n \<mapsto> d) \<and> (\<exists>d0. fs_stored s n = Some d0 \<and> apply_change c d0 = Ok d)"
    and "fs_amend n c s = (Err e, s') \<Longrightarrow> e \<noteq> Storage \<Longrightarrow>
      fs_stored s' = fs_stored s \<and> (case fs_stored s n of None \<Rightarrow> e = NotFound | Some d0 \<Rightarrow> apply_change c d0 = Err e)"
proof -
  have valid: "apply_change c d0 = Ok d1 \<Longrightarrow> dep_valid d1 \<and> dep_name d1 = n"
    if "fs_stored s n = Some d0" for d0 d1
    using fs_stored_valid [OF ok that] apply_change_valid [of c d0 d1] c by auto
  have put: "fs_put d1 s = (fin, s1) \<Longrightarrow> fs_ok s1 \<and> (fin \<longrightarrow> fs_stored s1 = (fs_stored s)(n \<mapsto> d1))"
    if "fs_stored s n = Some d0" "apply_change c d0 = Ok d1" for d0 d1 fin s1
    using fs_put_stored(1,2) [OF ok, of d1 fin s1] valid [OF that] by auto
  show "fs_ok (snd (fs_amend n c s))"
    using put ok by (auto simp: fs_amend_def fs_read_stored [OF ok] split: option.splits sum.splits prod.splits)
  show "fs_amend n c s = (Ok d, s') \<Longrightarrow>
      fs_stored s' = (fs_stored s)(n \<mapsto> d) \<and> (\<exists>d0. fs_stored s n = Some d0 \<and> apply_change c d0 = Ok d)"
    using put by (auto simp: fs_amend_def fs_read_stored [OF ok] split: option.splits sum.splits prod.splits if_splits)
  show "fs_amend n c s = (Err e, s') \<Longrightarrow> e \<noteq> Storage \<Longrightarrow>
      fs_stored s' = fs_stored s \<and> (case fs_stored s n of None \<Rightarrow> e = NotFound | Some d0 \<Rightarrow> apply_change c d0 = Err e)"
    by (auto simp: fs_amend_def fs_read_stored [OF ok] split: option.splits sum.splits prod.splits if_splits)
qed

lemma drop_each_spec:
  assumes "fs_ok s" and "\<forall>d \<in> set ds. fs_stored s (dep_name d) = Some d" and "distinct (map dep_name ds)"
    and "drop_each m ds s = (res, s')"
  shows "fs_ok s' \<and> (\<forall>ch. res = Ok ch \<longrightarrow>
      (\<forall>x \<in> set ch. dep_name x \<in> dep_name ` set ds) \<and> distinct (map dep_name ch)
      \<and> (\<forall>n. fs_stored s' n = (if n \<in> set (map dep_name ds) then map_option (\<lambda>d. snd (drop_from m d)) (fs_stored s n) else fs_stored s n))
      \<and> (\<forall>n. map_of (map (\<lambda>d. (dep_name d, d)) ch) n =
           (if n \<in> set (map dep_name ds)
            then (case fs_stored s n of Some d \<Rightarrow> if fst (drop_from m d) then Some (snd (drop_from m d)) else None | None \<Rightarrow> None)
            else None)))"
  using assms
proof (induction ds arbitrary: s res s')
  case Nil
  then show ?case by auto
next
  case (Cons d ds)
  have d: "fs_stored s (dep_name d) = Some d" and valid: "dep_valid d"
    using Cons.prems fs_stored_valid [OF Cons.prems(1), of "dep_name d" d] by auto
  have fresh: "dep_name d \<notin> dep_name ` set ds" using Cons.prems by simp
  show ?case
  proof (cases "fst (drop_from m d)")
    case False
    then have "drop_each m ds s = (res, s')" using Cons.prems by simp
    note IH = Cons.IH [OF Cons.prems(1) _ _ this]
    show ?thesis
      using IH Cons.prems d False drop_from_not_held [OF valid False] fresh by auto
  next
    case True
    obtain fin s1 where put: "fs_put (snd (drop_from m d)) s = (fin, s1)" by (cases "fs_put (snd (drop_from m d)) s")
    note spec = fs_put_stored [OF Cons.prems(1) drop_from_valid [OF valid] put]
    show ?thesis
    proof (cases fin)
      case False
      then show ?thesis using Cons.prems True put spec(1) by auto
    next
      case fin: True
      have s1: "fs_stored s1 = (fs_stored s)(dep_name d \<mapsto> snd (drop_from m d))" using spec(2) fin by simp
      obtain res1 s2 where each: "drop_each m ds s1 = (res1, s2)" by (cases "drop_each m ds s1")
      have mem: "\<forall>x \<in> set ds. fs_stored s1 (dep_name x) = Some x"
      proof
        fix x assume x: "x \<in> set ds"
        have "dep_name x \<noteq> dep_name d" using fresh imageI [OF x, of dep_name] by metis
        moreover have "fs_stored s (dep_name x) = Some x" using Cons.prems(2) x by simp
        ultimately show "fs_stored s1 (dep_name x) = Some x" by (simp add: s1)
      qed
      have dist: "distinct (map dep_name ds)" using Cons.prems(3) by simp
      note IH = Cons.IH [OF spec(1) mem dist each]
      show ?thesis
      proof (cases res1)
        case (Inl e)
        then show ?thesis using IH Cons.prems(4) True put fin each by auto
      next
        case (Inr ch1)
        then have eq: "res = Ok (snd (drop_from m d) # ch1)" "s' = s2"
          using Cons.prems(4) True put fin each by auto
        have IH1: "\<forall>x \<in> set ch1. dep_name x \<in> dep_name ` set ds" "distinct (map dep_name ch1)"
          "\<And>n. fs_stored s2 n = (if n \<in> set (map dep_name ds) then map_option (\<lambda>d. snd (drop_from m d)) (fs_stored s1 n) else fs_stored s1 n)"
          "\<And>n. map_of (map (\<lambda>d. (dep_name d, d)) ch1) n =
             (if n \<in> set (map dep_name ds)
              then (case fs_stored s1 n of Some d \<Rightarrow> if fst (drop_from m d) then Some (snd (drop_from m d)) else None | None \<Rightarrow> None)
              else None)"
          using IH Inr by blast+
        have "dep_name d \<notin> dep_name ` set ch1" using IH1(1) fresh by auto
        moreover have "fs_stored s2 n = (if n \<in> set (map dep_name (d # ds)) then map_option (\<lambda>d. snd (drop_from m d)) (fs_stored s n) else fs_stored s n)" for n
          using IH1(3) [of n] d fresh by (cases "n = dep_name d") (auto simp: s1)
        moreover have "map_of (map (\<lambda>d. (dep_name d, d)) (snd (drop_from m d) # ch1)) n =
            (if n \<in> set (map dep_name (d # ds))
             then (case fs_stored s n of Some d \<Rightarrow> if fst (drop_from m d) then Some (snd (drop_from m d)) else None | None \<Rightarrow> None)
             else None)" for n
          using IH1(4) [of n] d True by (cases "n = dep_name d") (auto simp: s1)
        ultimately show ?thesis using IH IH1(1,2) eq by simp
      qed
    qed
  qed
qed

lemma fs_drop_spec:
  assumes ok: "fs_ok s" and drop: "fs_drop_member m s = (res, s')"
  shows "fs_ok s'"
    and "res = Ok ch \<Longrightarrow> fs_stored s' = (\<lambda>n. map_option (\<lambda>d. snd (drop_from m d)) (fs_stored s n))
      \<and> (\<forall>n. map_of (map (\<lambda>d. (dep_name d, d)) (rev ch)) n =
           (case fs_stored s n of Some d \<Rightarrow> if fst (drop_from m d) then Some (snd (drop_from m d)) else None | None \<Rightarrow> None))"
proof -
  obtain ds where ds: "fs_load s = Ok ds" "distinct (map dep_name ds)" "map_of (map (\<lambda>d. (dep_name d, d)) ds) = fs_stored s"
    using fs_load_ok [OF ok] by blast
  have each: "drop_each m ds s = (res, s')" using drop ds(1) by (simp add: fs_drop_member_def)
  have mem: "\<forall>d \<in> set ds. fs_stored s (dep_name d) = Some d"
    using ds(2) by (auto simp: ds(3) [symmetric] comp_def)
  have names: "n \<notin> set (map dep_name ds) \<Longrightarrow> fs_stored s n = None" for n
    by (auto simp: ds(3) [symmetric] map_of_eq_None_iff)
  note spec = drop_each_spec [OF ok mem ds(2) each]
  show "fs_ok s'" using spec by blast
  assume res: "res = Ok ch"
  have "map_of (map (\<lambda>d. (dep_name d, d)) (rev ch)) = map_of (map (\<lambda>d. (dep_name d, d)) ch)"
    using spec res by (subst map_of_inject_set) (auto simp: comp_def rev_map [symmetric] simp del: rev_map)
  moreover have "fs_stored s' n = map_option (\<lambda>d. snd (drop_from m d)) (fs_stored s n)" for n
    using spec res names [of n] by auto
  moreover have "map_of (map (\<lambda>d. (dep_name d, d)) ch) n =
      (case fs_stored s n of Some d \<Rightarrow> if fst (drop_from m d) then Some (snd (drop_from m d)) else None | None \<Rightarrow> None)" for n
    using spec res names [of n] by auto
  ultimately show "fs_stored s' = (\<lambda>n. map_option (\<lambda>d. snd (drop_from m d)) (fs_stored s n))
      \<and> (\<forall>n. map_of (map (\<lambda>d. (dep_name d, d)) (rev ch)) n =
           (case fs_stored s n of Some d \<Rightarrow> if fst (drop_from m d) then Some (snd (drop_from m d)) else None | None \<Rightarrow> None))"
    by auto
qed

lemma fs_remove_spec:
  assumes ok: "fs_ok s" and remove: "fs_remove n s = (res, s')"
  shows "fs_ok s'" and "res = Ok u \<Longrightarrow> fs_stored s' = (fs_stored s)(n := None)"
proof -
  have "(disk_content s' = bt_remove n (disk_content s)) \<or> (res = Err Storage \<and> disk_content s' = disk_content s)"
  proof -
    obtain fin s1 where doc: "step_doc (bt_remove n) s = (fin, s1)" by (cases "step_doc (bt_remove n) s")
    then have res: "res = (if fin then Ok () else Err Storage)" and s': "s' = s1"
      using remove by (simp_all add: fs_remove_def)
    show ?thesis
    proof (cases fin)
      case True
      then show ?thesis using step_doc_ok [of "bt_remove n" s s1] doc s' by simp
    next
      case False
      then show ?thesis using step_doc_err [of "bt_remove n" s s1] doc s' res by simp
    qed
  qed
  moreover have "disk_content s' = bt_remove n (disk_content s) \<Longrightarrow> fs_ok s' \<and> fs_stored s' = (fs_stored s)(n := None)"
    using ok unfolding fs_ok_def fs_stored_def by (simp add: fun_eq_iff)
  moreover have "disk_content s' = disk_content s \<Longrightarrow> fs_ok s'"
    using ok by (simp add: fs_ok_def)
  ultimately show "fs_ok s'" "res = Ok u \<Longrightarrow> fs_stored s' = (fs_stored s)(n := None)" by auto
qed

interpretation fs_port: deployment_port fs_deployment_backend fs_stored fs_ok
proof
  fix s s' :: "deployment_files disk" and n :: string and d and sel c e m ds u
  show "fs_ok s \<Longrightarrow> \<exists>ds. db_load fs_deployment_backend s = Ok ds \<and> map_of (by_name ds) = fs_stored s"
    using fs_load_ok [of s] by (auto simp: fs_deployment_backend_def map_of_by_name)
  show "fs_ok s \<Longrightarrow> fs_stored s n = Some d \<Longrightarrow> dep_valid d \<and> dep_name d = n" by (rule fs_stored_valid)
  show "fs_ok s \<Longrightarrow> db_drop_member fs_deployment_backend m s = (Ok ds, s') \<Longrightarrow>
      fs_stored s' = (\<lambda>n. map_option (\<lambda>d. snd (drop_from m d)) (fs_stored s n))
      \<and> (\<forall>n. map_of (map (\<lambda>d. (dep_name d, d)) (rev ds)) n =
           (case fs_stored s n of Some d \<Rightarrow> if fst (drop_from m d) then Some (snd (drop_from m d)) else None | None \<Rightarrow> None))"
    using fs_drop_spec(2) [of s m "Ok ds" s' ds] by (simp add: fs_deployment_backend_def)
  show "fs_ok s \<Longrightarrow> fs_ok (snd (db_drop_member fs_deployment_backend m s))"
    using fs_drop_spec(1) [of s m "fst (fs_drop_member m s)" "snd (fs_drop_member m s)"]
    by (simp add: fs_deployment_backend_def)
  show "fs_ok s \<Longrightarrow> fs_ok (snd (db_remove fs_deployment_backend n s))"
    using fs_remove_spec(1) [of s n "fst (fs_remove n s)" "snd (fs_remove n s)"] by (simp add: fs_deployment_backend_def)
  show "fs_ok s \<Longrightarrow> db_remove fs_deployment_backend n s = (Ok u, s') \<Longrightarrow> fs_stored s' = (fs_stored s)(n := None)"
    using fs_remove_spec(2) [of s n "Ok u" s' u] by (simp add: fs_deployment_backend_def)
qed (simp_all add: fs_deployment_backend_def fs_save_spec fs_amend_spec)

section \<open>Properties\<close>

text \<open>
  C32: An Agent belongs to at most one Deployment: the one answered is the only one whose Selector matches it, none is
  answered only when none matches, and otherwise the refusal names every one that matches, at least two. An Agent
  that has not described itself belongs to none, as no Selector is empty.
\<close>

theorem at_most_one_deployment:
  assumes "\<forall>d \<in> snd ` set ds. dep_valid d"
  shows "(case deployment_for ds description of
      Inr (Some d) \<Rightarrow> d \<in> snd ` set ds \<and> matches (selector d) description
        \<and> (\<forall>d' \<in> snd ` set ds. matches (selector d') description \<longrightarrow> d' = d)
    | Inr None \<Rightarrow> (\<forall>d \<in> snd ` set ds. \<not> matches (selector d) description)
    | Inl names \<Rightarrow> length names \<ge> 2
        \<and> set names = {dep_name d | d. d \<in> snd ` set ds \<and> matches (selector d) description})
    \<and> deployment_for ds None = Ok None"
proof -
  let ?claiming = "\<lambda>x. filter (\<lambda>d. matches (selector d) x) (map snd ds)"
  have set: "set (?claiming description) = {d \<in> snd ` set ds. matches (selector d) description}" by auto
  have "selector d \<noteq> []" if "d \<in> snd ` set ds" for d
    using assms that by (auto simp: dep_valid_def check_selector_def)
  then have "?claiming None = []" by (auto simp: filter_empty_conv matches_def)
  then have undescribed: "deployment_for ds None = Ok None" by (simp add: deployment_for_def Let_def)
  show ?thesis
  proof (cases "?claiming description")
    case Nil
    then have "\<forall>d \<in> snd ` set ds. \<not> matches (selector d) description" using set by auto
    with Nil undescribed show ?thesis by (simp add: deployment_for_def Let_def)
  next
    case (Cons d rest)
    note c = this
    show ?thesis
    proof (cases rest)
      case Nil
      then have "{d \<in> snd ` set ds. matches (selector d) description} = {d}" using set c by simp
      then show ?thesis using Nil c undescribed by (auto simp: deployment_for_def Let_def)
    next
      case (Cons d2 rest2)
      have "dep_name ` {d \<in> snd ` set ds. matches (selector d) description} = set (map dep_name (d # d2 # rest2))"
        using set c Cons by (metis set_map)
      then have "set (map dep_name (d # d2 # rest2)) = {dep_name d | d. d \<in> snd ` set ds \<and> matches (selector d) description}"
        by blast
      then show ?thesis using Cons c undescribed by (simp add: deployment_for_def Let_def)
    qed
  qed
qed

theorem at_most_one_deployment_witness:
  "let d = \<lparr>dep_name = ''a'', selector = [(''channel'', ''stable'')], packages = [], configurations = []\<rparr> in
   deployment_for [(''a'', d)] None = Ok None"
proof -
  have "\<forall>d \<in> snd ` set [(''a'', \<lparr>dep_name = ''a'', selector = [(''channel'', ''stable'')], packages = [], configurations = []\<rparr>)]. dep_valid d"
    by code_simp
  from at_most_one_deployment [OF this] show ?thesis by (simp add: Let_def)
qed

text \<open>
  C11: The Deployment store is coherent with the files: an operation that answers leaves in memory exactly what the files
  hold, and a refusal (a bad name or Selector, an unknown Deployment, a taken type, a member not held) changes
  neither.
\<close>

theorem deployment_store_coherent:
  assumes "coherent fs_stored fs_ok st" and "change_ok c"
  shows "(store_put fs_deployment_backend n sel st = (Ok d, st1) \<longrightarrow> coherent fs_stored fs_ok st1)
    \<and> (store_amend fs_deployment_backend n c st = (Ok d, st2) \<longrightarrow> coherent fs_stored fs_ok st2)
    \<and> (store_drop_everywhere fs_deployment_backend m st = (Ok ns, st3) \<longrightarrow> coherent fs_stored fs_ok st3)
    \<and> (store_delete fs_deployment_backend n st = (Ok b, st4) \<longrightarrow> coherent fs_stored fs_ok st4)
    \<and> (store_put fs_deployment_backend n sel st = (Err e, st5) \<and> e \<noteq> Storage \<longrightarrow> st5 = st)
    \<and> (store_amend fs_deployment_backend n c st = (Err e, st6) \<and> e \<noteq> Storage \<longrightarrow>
        coherent fs_stored fs_ok st6 \<and> held st6 = held st)"
  by (intro conjI impI)
    (use assms fs_port.put_coherent fs_port.amend_coherent fs_port.drop_coherent(1) fs_port.delete_coherent
      fs_port.put_refused fs_port.amend_refused_coherent in metis)+

theorem deployment_store_coherent_witness:
  "let st = \<lparr>persisted = \<lparr>disk_content = [], disk_outcomes = []\<rparr>, held = []\<rparr> in
   coherent fs_stored fs_ok (snd (store_put fs_deployment_backend ''a'' [(''channel'', ''stable'')] st))"
proof -
  let ?st = "\<lparr>persisted = \<lparr>disk_content = [], disk_outcomes = []\<rparr>, held = []\<rparr> :: deployment_files disk deployment_store"
  have coh: "coherent fs_stored fs_ok ?st" by (simp add: coherent_def fs_ok_def fs_stored_def fun_eq_iff)
  have "\<exists>d. fst (store_put fs_deployment_backend ''a'' [(''channel'', ''stable'')] ?st) = Ok d"
  proof -
    have "isl (fst (store_put fs_deployment_backend ''a'' [(''channel'', ''stable'')] ?st)) = False" by code_simp
    then show ?thesis by (cases "fst (store_put fs_deployment_backend ''a'' [(''channel'', ''stable'')] ?st)") auto
  qed
  then obtain d where "store_put fs_deployment_backend ''a'' [(''channel'', ''stable'')] ?st =
      (Ok d, snd (store_put fs_deployment_backend ''a'' [(''channel'', ''stable'')] ?st))"
    by (metis prod.collapse)
  moreover have "change_ok (RemoveConfiguration ''x'')" by simp
  ultimately show ?thesis using deployment_store_coherent [OF coh] unfolding Let_def by blast
qed





text \<open>
  A storage error halfway through a drop leaves the files already rewritten without the member while the Deployments in
  memory still hold it.
\<close>

lemma drop_halfway_incoherent:
  "let d = (\<lambda>n. \<lparr>dep_name = n, selector = [(''channel'', n)], packages = [], configurations = [''c'']\<rparr>);
       st = \<lparr>persisted = \<lparr>disk_content = [(''a'', Some (meta_of (d ''a''))), (''b'', Some (meta_of (d ''b'')))],
                          disk_outcomes = [IoOk, IoFail]\<rparr>,
             held = [(''a'', d ''a''), (''b'', d ''b'')]\<rparr>;
       r = store_drop_everywhere fs_deployment_backend (MemberConfiguration ''c'') st in
   fst r = Err Storage \<and> map_of (held (snd r)) ''a'' = Some (d ''a'')
   \<and> fs_stored (persisted (snd r)) ''a'' = Some ((d ''a'')\<lparr>configurations := []\<rparr>)"
  by code_simp

end
