(* ===== verification/Configs.thy ===== *)
theory Configs
  imports Identity
begin

text \<open>
  Configurations (\<open>fleet-server/src/configs.rs\<close>): revisions and their hash, the composition of an Agent's Remote
  configuration, and the store over its persistence port; and the filesystem adapter of that port
  (\<open>fleet-server/src/fs/configs.rs\<close>). SHA-256 is the parameter \<open>sha256\<close>; the bytes it is given are definitions of
  their own. A file's JSON is the value \<open>serde\<close> reads from it, and \<open>None\<close> one that it refuses.
\<close>

section \<open>Revisions and what is hashed\<close>

record revision =
  body :: string
  role :: string
  service_name :: string

text \<open>\<open>(len as u64).to_le_bytes()\<close> and the bytes themselves.\<close>

fun le_bytes :: "nat \<Rightarrow> nat \<Rightarrow> string" where
  "le_bytes 0 n = []"
| "le_bytes (Suc k) n = char_of (n mod 256) # le_bytes k (n div 256)"

definition field :: "string \<Rightarrow> string" where
  "field s = le_bytes 8 (length s) @ s"

definition revision_bytes :: "revision \<Rightarrow> string" where
  "revision_bytes r = field (body r) @ field (role r)"

definition revision_hash :: "(string \<Rightarrow> string) \<Rightarrow> revision \<Rightarrow> string" where
  "revision_hash sha256 r = hex_encode (sha256 (revision_bytes r))"

record configuration =
  cfg_name :: string
  saved :: revision
  retained :: "(string, revision) btree"

definition ROLE_SUPPLEMENTARY :: string where "ROLE_SUPPLEMENTARY = ''supplementary''"

record config_entry =
  entry_name :: string
  entry_body :: string
  entry_role :: string

record desired_config =
  desired_entries :: "config_entry list"
  desired_hash :: string

definition entry_bytes :: "config_entry \<Rightarrow> string" where
  "entry_bytes e =
     field (entry_name e) @ field (entry_body e) @ (if entry_role e \<noteq> [] then field (entry_role e) else [])"

definition desired_bytes :: "config_entry list \<Rightarrow> string" where
  "desired_bytes es = concat (map entry_bytes es)"

definition desired_config_new :: "(string \<Rightarrow> string) \<Rightarrow> config_entry list \<Rightarrow> desired_config" where
  "desired_config_new sha256 es =
     (let sorted_es = sort_key entry_name es in
      \<lparr>desired_entries = sorted_es, desired_hash = sha256 (desired_bytes sorted_es)\<rparr>)"

definition check_type :: "revision \<Rightarrow> unit + unit" where
  "check_type r = (if str_trim (service_name r) = [] then Err () else Ok ())"

definition fits :: "revision \<Rightarrow> agent_description option \<Rightarrow> bool" where
  "fits r description \<longleftrightarrow>
     (if service_name r = [] then False
      else case description of
        None \<Rightarrow> False
      | Some d \<Rightarrow> described d ''service.name'' = Some (service_name r))"

record pinned =
  pin_configuration :: string
  pin_hash :: string
  pin_revision :: revision

section \<open>The port and the store\<close>

datatype removal = Removed | Absent | PinnedBy nat

record 's config_backend =
  cb_load :: "'s \<Rightarrow> unit + configuration list"
  cb_save :: "string \<Rightarrow> revision \<Rightarrow> 's \<Rightarrow> (unit + unit) \<times> 's"
  cb_collect :: "string \<Rightarrow> string bset \<Rightarrow> 's \<Rightarrow> (unit + (string, revision) btree) \<times> 's"
  cb_remove :: "string \<Rightarrow> 's \<Rightarrow> (unit + removal) \<times> 's"

record 's config_store =
  cfg_persisted :: 's
  configs :: "(string, configuration) btree"

datatype config_error = CfgName name_refusal | CfgEmptyBody | CfgNoType | CfgUnknown string | CfgStorage

fun open_configs :: "configuration list \<Rightarrow> (string, configuration) btree \<Rightarrow> config_error + (string, configuration) btree" where
  "open_configs [] m = Ok m"
| "open_configs (c # cs) m =
     (case validate_name (cfg_name c) of
        Inl e \<Rightarrow> Err (CfgName e)
      | Inr _ \<Rightarrow> open_configs cs (bt_insert (cfg_name c) c m))"

definition config_open :: "'s config_backend \<Rightarrow> 's \<Rightarrow> config_error + 's config_store" where
  "config_open be s =
     (case cb_load be s of
        Inl _ \<Rightarrow> Err CfgStorage
      | Inr cs \<Rightarrow> (case open_configs cs [] of Inl e \<Rightarrow> Err e | Inr m \<Rightarrow> Ok \<lparr>cfg_persisted = s, configs = m\<rparr>))"

definition config_reload :: "'s config_backend \<Rightarrow> 's config_store \<Rightarrow> (unit + unit) \<times> 's config_store" where
  "config_reload be st =
     (case cb_load be (cfg_persisted st) of
        Inl e \<Rightarrow> (Err e, st)
      | Inr cs \<Rightarrow> (Ok (), st\<lparr>configs := bt_collect (map (\<lambda>c. (cfg_name c, c)) cs)\<rparr>))"

definition config_list :: "'s config_store \<Rightarrow> configuration list" where
  "config_list st = map snd (configs st)"

definition config_get :: "'s config_store \<Rightarrow> string \<Rightarrow> configuration option" where
  "config_get st name = map_of (configs st) name"

definition with_saved :: "string \<Rightarrow> revision \<Rightarrow> configuration option \<Rightarrow> configuration" where
  "with_saved name r found =
     (case found of
        Some existing \<Rightarrow> existing\<lparr>saved := r\<rparr>
      | None \<Rightarrow> \<lparr>cfg_name = name, saved = r, retained = []\<rparr>)"

definition put_saved ::
  "'s config_backend \<Rightarrow> string \<Rightarrow> revision \<Rightarrow> 's config_store \<Rightarrow> (config_error + configuration) \<times> 's config_store" where
  "put_saved be name r st =
     (case validate_name name of
        Inl e \<Rightarrow> (Err (CfgName e), st)
      | Inr _ \<Rightarrow>
        if str_trim (body r) = [] then (Err CfgEmptyBody, st)
        else (case check_type r of
          Inl _ \<Rightarrow> (Err CfgNoType, st)
        | Inr _ \<Rightarrow>
          (case cb_save be name r (cfg_persisted st) of
             (Inl _, s) \<Rightarrow> (Err CfgStorage, st\<lparr>cfg_persisted := s\<rparr>)
           | (Inr _, s) \<Rightarrow>
             (let c = with_saved name r (map_of (configs st) name) in
              (Ok c, st\<lparr>cfg_persisted := s, configs := bt_insert (cfg_name c) c (configs st)\<rparr>)))))"

fun pin_names ::
  "(string \<Rightarrow> string) \<Rightarrow> (string, configuration) btree \<Rightarrow> string list \<Rightarrow> config_error + pinned list" where
  "pin_names sha256 m [] = Ok []"
| "pin_names sha256 m (n # ns) =
     (case map_of m n of
        None \<Rightarrow> Err (CfgUnknown n)
      | Some c \<Rightarrow>
        (case pin_names sha256 m ns of
           Inl e \<Rightarrow> Err e
         | Inr ps \<Rightarrow>
           Ok (\<lparr>pin_configuration = n, pin_hash = revision_hash sha256 (saved c), pin_revision = saved c\<rparr> # ps)))"

definition retain_pinned :: "pinned \<Rightarrow> (string, configuration) btree \<Rightarrow> (string, configuration) btree" where
  "retain_pinned p m =
     bt_adjust (pin_configuration p) (\<lambda>c. c\<lparr>retained := bt_insert (pin_hash p) (pin_revision p) (retained c)\<rparr>) m"

text \<open>\<open>pin\<close>: \<open>write\<close> is the caller's closure, which persists the revisions with the assignments that pin them.\<close>

definition pin ::
  "(string \<Rightarrow> string) \<Rightarrow> string bset
   \<Rightarrow> ((string, string) btree \<Rightarrow> pinned list \<Rightarrow> 's \<Rightarrow> (unit + 't) \<times> 's)
   \<Rightarrow> 's config_store \<Rightarrow> (config_error + 't) \<times> 's config_store" where
  "pin sha256 names write st =
     (case pin_names sha256 (configs st) names of
        Inl e \<Rightarrow> (Err e, st)
      | Inr ps \<Rightarrow>
        (case write (bt_collect (map (\<lambda>p. (pin_configuration p, pin_hash p)) ps)) ps (cfg_persisted st) of
           (written, s) \<Rightarrow>
             (case written of Inl _ \<Rightarrow> Err CfgStorage | Inr t \<Rightarrow> Ok t,
              st\<lparr>cfg_persisted := s, configs := fold retain_pinned ps (configs st)\<rparr>)))"

definition retain_only :: "'s config_backend \<Rightarrow> string \<Rightarrow> string bset \<Rightarrow> 's config_store \<Rightarrow> (unit + unit) \<times> 's config_store" where
  "retain_only be name referenced st =
     (if \<not> bt_contains (configs st) name then (Ok (), st)
      else (case cb_collect be name referenced (cfg_persisted st) of
        (Inl e, s) \<Rightarrow> (Err e, st\<lparr>cfg_persisted := s\<rparr>)
      | (Inr kept, s) \<Rightarrow>
          (Ok (), st\<lparr>cfg_persisted := s, configs := bt_adjust name (\<lambda>c. c\<lparr>retained := kept\<rparr>) (configs st)\<rparr>)))"

definition config_delete :: "'s config_backend \<Rightarrow> string \<Rightarrow> 's config_store \<Rightarrow> (unit + removal) \<times> 's config_store" where
  "config_delete be name st =
     (if \<not> bt_contains (configs st) name then (Ok Absent, st)
      else (case cb_remove be name (cfg_persisted st) of
        (Inl e, s) \<Rightarrow> (Err e, st\<lparr>cfg_persisted := s\<rparr>)
      | (Inr r, s) \<Rightarrow>
          (Ok r, st\<lparr>cfg_persisted := s,
                    configs := (case r of PinnedBy _ \<Rightarrow> configs st | _ \<Rightarrow> bt_remove name (configs st))\<rparr>)))"

definition candidates_in ::
  "(string \<Rightarrow> string) \<Rightarrow> string bset \<Rightarrow> agent_description option \<Rightarrow> 's config_store \<Rightarrow> (string, string) btree" where
  "candidates_in sha256 names description st =
     bt_collect (map (\<lambda>c. (cfg_name c, revision_hash sha256 (saved c)))
       (filter (\<lambda>c. fits (saved c) description) (List.map_filter (\<lambda>n. map_of (configs st) n) names)))"

definition assigned_entry :: "(string, configuration) btree \<Rightarrow> string \<times> string \<Rightarrow> config_entry option" where
  "assigned_entry m a =
     (case map_of m (fst a) of
        None \<Rightarrow> None
      | Some c \<Rightarrow>
        (case map_of (retained c) (snd a) of
           None \<Rightarrow> None
         | Some r \<Rightarrow> Some \<lparr>entry_name = fst a, entry_body = body r, entry_role = role r\<rparr>))"

definition compose :: "(string \<Rightarrow> string) \<Rightarrow> (string, string) btree \<Rightarrow> 's config_store \<Rightarrow> desired_config option" where
  "compose sha256 assignments st =
     (let es = List.map_filter (assigned_entry (configs st)) assignments in
      if es = [] then None else Some (desired_config_new sha256 es))"

section \<open>The filesystem adapter\<close>

type_synonym config_files = "(string, configuration option) btree"

definition cfs_parse :: "string \<Rightarrow> configuration option \<Rightarrow> unit + configuration" where
  "cfs_parse stem fl =
     (case fl of
        None \<Rightarrow> Err ()
      | Some c \<Rightarrow> if cfg_name c \<noteq> stem then Err () else (case check_type (saved c) of Inl e \<Rightarrow> Err e | Inr _ \<Rightarrow> Ok c))"

definition cfs_read :: "string \<Rightarrow> config_files disk \<Rightarrow> unit + configuration option" where
  "cfs_read name s =
     (case map_of (disk_content s) name of
        None \<Rightarrow> Ok None
      | Some fl \<Rightarrow> (case cfs_parse name fl of Inl e \<Rightarrow> Err e | Inr c \<Rightarrow> Ok (Some c)))"

definition cfs_write :: "configuration \<Rightarrow> config_files disk \<Rightarrow> bool \<times> config_files disk" where
  "cfs_write c s = step_doc (bt_insert (cfg_name c) (Some c)) s"

definition cfs_retain :: "pinned \<Rightarrow> config_files disk \<Rightarrow> (unit + unit) \<times> config_files disk" where
  "cfs_retain p s =
     (case cfs_read (pin_configuration p) s of
        Inl e \<Rightarrow> (Err e, s)
      | Inr None \<Rightarrow> (Err (), s)
      | Inr (Some c) \<Rightarrow>
        if map_of (retained c) (pin_hash p) = Some (pin_revision p) then (Ok (), s)
        else (case cfs_write (c\<lparr>retained := bt_insert (pin_hash p) (pin_revision p) (retained c)\<rparr>) s of
                (ok, s') \<Rightarrow> (if ok then Ok () else Err (), s')))"

text \<open>The first half of a rollout's write (\<open>release\<close>): each pinned revision goes into its Configuration's file.\<close>

fun release_revisions :: "pinned list \<Rightarrow> config_files disk \<Rightarrow> (unit + unit) \<times> config_files disk" where
  "release_revisions [] s = (Ok (), s)"
| "release_revisions (p # ps) s =
     (case cfs_retain p s of (Inl e, s') \<Rightarrow> (Err e, s') | (Inr _, s') \<Rightarrow> release_revisions ps s')"

fun cfs_parse_all :: "(string \<times> configuration option) list \<Rightarrow> unit + configuration list" where
  "cfs_parse_all [] = Ok []"
| "cfs_parse_all ((stem, fl) # fs) =
     (case cfs_parse stem fl of
        Inl e \<Rightarrow> Err e
      | Inr c \<Rightarrow> (case cfs_parse_all fs of Inl e \<Rightarrow> Err e | Inr cs \<Rightarrow> Ok (c # cs)))"

definition cfs_load :: "config_files disk \<Rightarrow> unit + configuration list" where
  "cfs_load s = cfs_parse_all (disk_content s)"

definition cfs_save :: "string \<Rightarrow> revision \<Rightarrow> config_files disk \<Rightarrow> (unit + unit) \<times> config_files disk" where
  "cfs_save name r s =
     (case cfs_read name s of
        Inl e \<Rightarrow> (Err e, s)
      | Inr found \<Rightarrow> (case cfs_write (with_saved name r found) s of (ok, s') \<Rightarrow> (if ok then Ok () else Err (), s')))"

definition cfs_collect ::
  "string \<Rightarrow> string bset \<Rightarrow> config_files disk \<Rightarrow> (unit + (string, revision) btree) \<times> config_files disk" where
  "cfs_collect name referenced s =
     (case cfs_read name s of
        Inl e \<Rightarrow> (Err e, s)
      | Inr None \<Rightarrow> (Ok [], s)
      | Inr (Some c) \<Rightarrow>
        if list_all (\<lambda>h. h \<in> set referenced) (map fst (retained c)) then (Ok (retained c), s)
        else (let c' = c\<lparr>retained := bt_retain (\<lambda>h _. h \<in> set referenced) (retained c)\<rparr> in
              case cfs_write c' s of (ok, s') \<Rightarrow> (if ok then Ok (retained c') else Err (), s')))"

definition cfs_remove :: "string \<Rightarrow> config_files disk \<Rightarrow> (unit + removal) \<times> config_files disk" where
  "cfs_remove name s = (case step_doc (bt_remove name) s of (ok, s') \<Rightarrow> (if ok then Ok Removed else Err (), s'))"

definition fs_config_backend :: "config_files disk config_backend" where
  "fs_config_backend = \<lparr>cb_load = cfs_load, cb_save = cfs_save, cb_collect = cfs_collect, cb_remove = cfs_remove\<rparr>"

section \<open>What a hash identifies\<close>

text \<open>A length is a \<open>usize\<close>, which eight bytes hold.\<close>

abbreviation u64_len :: "string \<Rightarrow> bool" where
  "u64_len s \<equiv> length s < 256 ^ 8"

lemma length_le_bytes [simp]: "length (le_bytes k n) = k"
  by (induction k arbitrary: n) auto

lemma le_bytes_inject: "n < 256 ^ k \<Longrightarrow> m < 256 ^ k \<Longrightarrow> le_bytes k n = le_bytes k m \<longleftrightarrow> n = m"
proof (induction k arbitrary: n m)
  case (Suc k)
  have div: "n div 256 < 256 ^ k" "m div 256 < 256 ^ k"
    using Suc.prems by (simp_all add: less_mult_imp_div_less mult.commute)
  have "le_bytes (Suc k) n = le_bytes (Suc k) m \<longleftrightarrow> n mod 256 = m mod 256 \<and> n div 256 = m div 256"
    using Suc.IH [OF div] by (auto dest: arg_cong [where f = "of_char :: char \<Rightarrow> nat"])
  also have "\<dots> \<longleftrightarrow> n = m"
    by (metis div_mult_mod_eq)
  finally show ?case .
qed simp

lemma field_inject: "u64_len s \<Longrightarrow> u64_len t \<Longrightarrow> field s @ x = field t @ y \<longleftrightarrow> s = t \<and> x = y"
  using le_bytes_inject [of "length s" 8 "length t"] by (auto simp: field_def)

lemmas field_inject1 = field_inject [where x = "[]" and y = "[]", simplified]

lemma field_not_Nil [simp]: "field s \<noteq> []"
  by (auto simp: field_def dest: arg_cong [where f = length])

definition revision_fits_usize :: "revision \<Rightarrow> bool" where
  "revision_fits_usize r \<longleftrightarrow> u64_len (body r) \<and> u64_len (role r)"

lemma revision_bytes_inject:
  "revision_fits_usize r \<Longrightarrow> revision_fits_usize r' \<Longrightarrow>
   revision_bytes r = revision_bytes r' \<longleftrightarrow> body r = body r' \<and> role r = role r'"
  by (auto simp: revision_bytes_def revision_fits_usize_def field_inject field_inject1)

definition entry_fits_usize :: "config_entry \<Rightarrow> bool" where
  "entry_fits_usize e \<longleftrightarrow> u64_len (entry_name e) \<and> u64_len (entry_body e) \<and> u64_len (entry_role e)"

definition has_role :: "config_entry \<Rightarrow> bool" where
  "has_role e \<longleftrightarrow> entry_role e \<noteq> []"

lemma entry_bytes_inject:
  assumes "entry_fits_usize e" and "entry_fits_usize e'" and "has_role e = has_role e'"
  shows "entry_bytes e @ x = entry_bytes e' @ y \<longleftrightarrow> e = e' \<and> x = y"
  using assms by (cases e; cases e') (auto simp: entry_bytes_def entry_fits_usize_def has_role_def field_inject)

lemma desired_bytes_inject:
  "list_all entry_fits_usize es \<Longrightarrow> list_all entry_fits_usize es' \<Longrightarrow> map has_role es = map has_role es' \<Longrightarrow>
   desired_bytes es = desired_bytes es' \<longleftrightarrow> es = es'"
proof (induction es arbitrary: es')
  case Nil
  then show ?case by (simp add: desired_bytes_def)
next
  case (Cons e es)
  obtain e' es1 where es': "es' = e' # es1" using Cons.prems by (cases es') auto
  have "desired_bytes (e # es) = desired_bytes es' \<longleftrightarrow> e = e' \<and> desired_bytes es = desired_bytes es1"
    using entry_bytes_inject [of e e' "desired_bytes es" "desired_bytes es1"] Cons.prems es'
    by (simp add: desired_bytes_def)
  then show ?case using Cons es' by simp
qed

text \<open>
  The role is hashed only when there is one, so the bytes do not say which of an entry's fields is its role: two
  compositions that an Agent would apply differently are hashed from the same bytes.
\<close>

lemma desired_bytes_ambiguous:
  defines "es \<equiv> [\<lparr>entry_name = ''a'', entry_body = ''x'', entry_role = ROLE_SUPPLEMENTARY\<rparr>,
                 \<lparr>entry_name = ''b'', entry_body = ''supplementary'', entry_role = []\<rparr>]"
    and "es' \<equiv> [\<lparr>entry_name = ''a'', entry_body = ''x'', entry_role = []\<rparr>,
                  \<lparr>entry_name = ''supplementary'', entry_body = ''b'', entry_role = ROLE_SUPPLEMENTARY\<rparr>]"
  shows "es \<noteq> es' \<and> desired_hash (desired_config_new sha256 es) = desired_hash (desired_config_new sha256 es')"
proof -
  have "sort_key entry_name es = es" "sort_key entry_name es' = es'"
    unfolding es_def es'_def by code_simp+
  moreover have "desired_bytes es = desired_bytes es'"
    by (simp add: es_def es'_def desired_bytes_def entry_bytes_def ROLE_SUPPLEMENTARY_def)
  ultimately show ?thesis by (simp add: desired_config_new_def es_def es'_def Let_def)
qed

section \<open>The contract of the port\<close>

definition cfg_valid :: "configuration \<Rightarrow> bool" where
  "cfg_valid c \<longleftrightarrow> check_type (saved c) = Ok () \<and> bt_wf (retained c)"

definition by_cfg_name :: "configuration list \<Rightarrow> (string, configuration) btree" where
  "by_cfg_name cs = bt_collect (map (\<lambda>c. (cfg_name c, c)) cs)"

text \<open>The store holds in memory what the adapter persists.\<close>

definition cfg_coherent :: "('s \<Rightarrow> string \<rightharpoonup> configuration) \<Rightarrow> ('s \<Rightarrow> bool) \<Rightarrow> 's config_store \<Rightarrow> bool" where
  "cfg_coherent stored port_ok st \<longleftrightarrow>
     port_ok (cfg_persisted st) \<and> bt_wf (configs st) \<and> map_of (configs st) = stored (cfg_persisted st)"

text \<open>
  What a collection keeps: nothing that was not there, and every revision that is referenced. An adapter may keep more
  (a database keeps what another instance pinned).
\<close>

definition keeps_referenced :: "string bset \<Rightarrow> (string, revision) btree \<Rightarrow> (string, revision) btree \<Rightarrow> bool" where
  "keeps_referenced referenced before kept \<longleftrightarrow>
     bt_wf kept \<and> map_of kept \<subseteq>\<^sub>m map_of before \<and> (\<forall>h \<in> set referenced. map_of kept h = map_of before h)"

locale config_port =
  fixes be :: "'s config_backend"
    and stored :: "'s \<Rightarrow> string \<rightharpoonup> configuration"
    and port_ok :: "'s \<Rightarrow> bool"
  assumes load_ok: "port_ok s \<Longrightarrow> \<exists>cs. cb_load be s = Ok cs \<and> map_of (by_cfg_name cs) = stored s"
    and valid: "port_ok s \<Longrightarrow> stored s n = Some c \<Longrightarrow> cfg_valid c \<and> cfg_name c = n"
    and save_spec: "port_ok s \<Longrightarrow> check_type r = Ok () \<Longrightarrow> cb_save be n r s = (res, s') \<Longrightarrow> port_ok s' \<and>
      stored s' = (case res of Inl _ \<Rightarrow> stored s | Inr _ \<Rightarrow> (stored s)(n \<mapsto> with_saved n r (stored s n)))"
    and collect_err: "port_ok s \<Longrightarrow> cb_collect be n refs s = (Inl e, s') \<Longrightarrow> port_ok s' \<and> stored s' = stored s"
    and collect_ok: "port_ok s \<Longrightarrow> cb_collect be n refs s = (Inr kept, s') \<Longrightarrow> port_ok s' \<and>
      stored s' = (stored s)(n := map_option (\<lambda>c. c\<lparr>retained := kept\<rparr>) (stored s n)) \<and>
      (\<forall>c. stored s n = Some c \<longrightarrow> keeps_referenced refs (retained c) kept)"
    and remove_spec: "port_ok s \<Longrightarrow> cb_remove be n s = (removal, s') \<Longrightarrow> port_ok s' \<and>
      stored s' = (case removal of Inr Removed \<Rightarrow> (stored s)(n := None) | Inr Absent \<Rightarrow> (stored s)(n := None) | _ \<Rightarrow> stored s)"
begin

lemma reload_coherent:
  "port_ok (cfg_persisted st) \<Longrightarrow>
   fst (config_reload be st) = Ok () \<and> cfg_coherent stored port_ok (snd (config_reload be st))"
  using load_ok [of "cfg_persisted st"] by (auto simp: config_reload_def cfg_coherent_def by_cfg_name_def)

lemma put_saved_coherent:
  "cfg_coherent stored port_ok st \<Longrightarrow> put_saved be n r st = (res, st') \<Longrightarrow> cfg_coherent stored port_ok st'"
proof (cases "cb_save be n r (cfg_persisted st)")
  case (Pair saved_res s')
  assume coh: "cfg_coherent stored port_ok st" and put: "put_saved be n r st = (res, st')"
  have name: "cfg_name (with_saved n r (stored (cfg_persisted st) n)) = n"
    using coh valid [of "cfg_persisted st" n] by (auto simp: cfg_coherent_def with_saved_def split: option.splits)
  then show ?thesis
    using coh put Pair save_spec [of "cfg_persisted st" r n saved_res s']
    by (auto simp: put_saved_def cfg_coherent_def Let_def split: sum.splits if_splits)
qed

lemma retain_only_coherent:
  assumes coh: "cfg_coherent stored port_ok st" and ret: "retain_only be n refs st = (res, st')"
  shows "cfg_coherent stored port_ok st'"
    and "map_of (configs st) n = Some c \<Longrightarrow>
      \<exists>kept. map_of (configs st') = (map_of (configs st))(n \<mapsto> c\<lparr>retained := kept\<rparr>) \<and> keeps_referenced refs (retained c) kept"
proof -
  have port: "port_ok (cfg_persisted st)" and eq: "map_of (configs st) = stored (cfg_persisted st)"
    using coh by (auto simp: cfg_coherent_def)
  obtain r s' where col: "cb_collect be n refs (cfg_persisted st) = (r, s')"
    by (cases "cb_collect be n refs (cfg_persisted st)")
  note err = collect_err [OF port, of n refs _ s'] and ok = collect_ok [OF port, of n refs _ s']
  show "cfg_coherent stored port_ok st'"
    using coh ret col err ok by (auto simp: retain_only_def cfg_coherent_def split: sum.splits if_splits)
  assume c: "map_of (configs st) n = Some c"
  then have st: "stored (cfg_persisted st) n = Some c" using eq by simp
  have "keeps_referenced refs (retained c) (retained c)"
    using valid [OF port st] by (simp add: keeps_referenced_def cfg_valid_def)
  then have same: "\<exists>kept. map_of (configs st) = (map_of (configs st))(n \<mapsto> c\<lparr>retained := kept\<rparr>)
      \<and> keeps_referenced refs (retained c) kept"
    using c by (intro exI [of _ "retained c"]) auto
  show "\<exists>kept. map_of (configs st') = (map_of (configs st))(n \<mapsto> c\<lparr>retained := kept\<rparr>) \<and> keeps_referenced refs (retained c) kept"
  proof (cases r)
    case (Inl e)
    then have "configs st' = configs st" using ret c col by (auto simp: retain_only_def domI split: if_splits)
    then show ?thesis using same by simp
  next
    case (Inr kept)
    then have "map_of (configs st') = (map_of (configs st))(n \<mapsto> c\<lparr>retained := kept\<rparr>)"
      using ret c col by (auto simp: retain_only_def domI split: if_splits)
    moreover have "keeps_referenced refs (retained c) kept" using ok [of kept] col Inr st by auto
    ultimately show ?thesis by blast
  qed
qed

lemma delete_coherent:
  assumes "cfg_coherent stored port_ok st" and "config_delete be n st = (res, st')"
  shows "cfg_coherent stored port_ok st'"
proof (cases "cb_remove be n (cfg_persisted st)")
  case (Pair r s')
  then show ?thesis
    using assms remove_spec [of "cfg_persisted st" n r s']
    by (auto simp: config_delete_def cfg_coherent_def split: sum.splits removal.splits if_splits)
qed

end

section \<open>The filesystem adapter keeps the contract\<close>

definition cfs_stored :: "config_files disk \<Rightarrow> string \<rightharpoonup> configuration" where
  "cfs_stored s n = (case map_of (disk_content s) n of None \<Rightarrow> None | Some fl \<Rightarrow> fl)"

definition cfs_ok :: "config_files disk \<Rightarrow> bool" where
  "cfs_ok s \<longleftrightarrow> bt_wf (disk_content s)
     \<and> (\<forall>n fl. map_of (disk_content s) n = Some fl \<longrightarrow> (\<exists>c. fl = Some c \<and> cfg_name c = n \<and> cfg_valid c))"

lemma cfs_stored_valid: "cfs_ok s \<Longrightarrow> cfs_stored s n = Some c \<Longrightarrow> cfg_valid c \<and> cfg_name c = n"
  by (auto simp: cfs_ok_def cfs_stored_def split: option.splits)

lemma cfs_parse_ok: "cfg_valid c \<Longrightarrow> cfs_parse (cfg_name c) (Some c) = Ok c"
  by (simp add: cfs_parse_def cfg_valid_def)

lemma cfs_read_stored: "cfs_ok s \<Longrightarrow> cfs_read n s = Ok (cfs_stored s n)"
  unfolding cfs_ok_def cfs_read_def cfs_stored_def
  by (cases "map_of (disk_content s) n") (fastforce simp: cfs_parse_ok)+

lemma cfs_write_spec:
  assumes ok: "cfs_ok s" and c: "cfg_valid c" and w: "cfs_write c s = (fin, s')"
  shows "cfs_ok s'" and "cfs_stored s' = (if fin then (cfs_stored s)(cfg_name c \<mapsto> c) else cfs_stored s)"
proof -
  have content: "disk_content s' = (if fin then bt_insert (cfg_name c) (Some c) (disk_content s) else disk_content s)"
    using w step_doc_ok step_doc_err by (cases fin) (auto simp: cfs_write_def)
  show "cfs_ok s'" using ok c by (auto simp: cfs_ok_def content)
  show "cfs_stored s' = (if fin then (cfs_stored s)(cfg_name c \<mapsto> c) else cfs_stored s)"
    by (auto simp: cfs_stored_def content fun_eq_iff)
qed

lemma cfs_parse_all_ok:
  "\<forall>(n, fl) \<in> set fs. \<exists>c. fl = Some c \<and> cfg_name c = n \<and> cfg_valid c \<Longrightarrow>
   \<exists>cs. cfs_parse_all fs = Ok cs \<and> fs = map (\<lambda>c. (cfg_name c, Some c)) cs"
proof (induction fs)
  case (Cons x fs)
  obtain c where x: "x = (cfg_name c, Some c)" "cfg_valid c" using Cons.prems by (cases x) auto
  obtain cs where cs: "cfs_parse_all fs = Ok cs" "fs = map (\<lambda>c. (cfg_name c, Some c)) cs" using Cons by auto
  then show ?case using x cfs_parse_ok [of c] by (intro exI [of _ "c # cs"]) simp
qed simp

lemma cfs_load_ok: "cfs_ok s \<Longrightarrow> \<exists>cs. cfs_load s = Ok cs \<and> map_of (by_cfg_name cs) = cfs_stored s"
proof -
  assume ok: "cfs_ok s"
  then have wf: "bt_wf (disk_content s)" by (simp add: cfs_ok_def)
  have "\<forall>(n, fl) \<in> set (disk_content s). \<exists>c. fl = Some c \<and> cfg_name c = n \<and> cfg_valid c"
    using ok bt_wf_map_of_iff [OF wf] unfolding cfs_ok_def by blast
  then obtain cs where cs: "cfs_load s = Ok cs" "disk_content s = map (\<lambda>c. (cfg_name c, Some c)) cs"
    using cfs_parse_all_ok [of "disk_content s"] unfolding cfs_load_def by blast
  have "distinct (map cfg_name cs)" using bt_wf_distinct [OF wf] by (simp add: cs(2) comp_def)
  then have "map_of (by_cfg_name cs) = map_of (map (\<lambda>c. (cfg_name c, c)) cs)"
    unfolding by_cfg_name_def map_of_bt_collect
    by (subst map_of_inject_set) (simp_all add: rev_map [symmetric] comp_def del: rev_map)
  moreover have "map_of (map (\<lambda>c. (cfg_name c, c)) cs) n = cfs_stored s n" for n
    unfolding cfs_stored_def cs(2) by (induction cs) auto
  ultimately show ?thesis using cs(1) by auto
qed

lemma cfs_save_spec:
  assumes ok: "cfs_ok s" and r: "check_type r = Ok ()" and save: "cfs_save n r s = (res, s')"
  shows "cfs_ok s' \<and> cfs_stored s' =
    (case res of Inl _ \<Rightarrow> cfs_stored s | Inr _ \<Rightarrow> (cfs_stored s)(n \<mapsto> with_saved n r (cfs_stored s n)))"
proof -
  let ?c = "with_saved n r (cfs_stored s n)"
  have c: "cfg_valid ?c" "cfg_name ?c = n"
    using cfs_stored_valid [OF ok, of n] r by (auto simp: with_saved_def cfg_valid_def split: option.splits)
  obtain fin s1 where w: "cfs_write ?c s = (fin, s1)" by (cases "cfs_write ?c s")
  then have eq: "res = (if fin then Ok () else Err ())" "s' = s1"
    using save by (simp_all add: cfs_save_def cfs_read_stored [OF ok])
  show ?thesis unfolding eq using cfs_write_spec [OF ok c(1) w] c(2) by simp
qed

lemma keeps_referenced_retain:
  "bt_wf m \<Longrightarrow> keeps_referenced refs m (bt_retain (\<lambda>h _. h \<in> set refs) m)"
  by (auto simp: keeps_referenced_def map_of_bt_retain map_le_def split: option.splits if_splits)

lemma cfs_collect_spec:
  assumes ok: "cfs_ok s" and col: "cfs_collect n refs s = (res, s')"
  shows "cfs_ok s' \<and> (case res of Inl _ \<Rightarrow> cfs_stored s' = cfs_stored s
    | Inr kept \<Rightarrow> cfs_stored s' = (cfs_stored s)(n := map_option (\<lambda>c. c\<lparr>retained := kept\<rparr>) (cfs_stored s n))
        \<and> (\<forall>c. cfs_stored s n = Some c \<longrightarrow> keeps_referenced refs (retained c) kept))"
proof (cases "cfs_stored s n")
  case None
  then show ?thesis using ok col by (auto simp: cfs_collect_def cfs_read_stored [OF ok] fun_eq_iff)
next
  case (Some c)
  then have c: "cfg_valid c" "cfg_name c = n" using cfs_stored_valid [OF ok] by auto
  let ?kept = "bt_retain (\<lambda>h _. h \<in> set refs) (retained c)"
  let ?c = "c\<lparr>retained := ?kept\<rparr>"
  show ?thesis
  proof (cases "list_all (\<lambda>h. h \<in> set refs) (map fst (retained c))")
    case True
    then have "res = Ok (retained c)" "s' = s" using col Some by (auto simp: cfs_collect_def cfs_read_stored [OF ok])
    moreover have "keeps_referenced refs (retained c) (retained c)"
      using c(1) by (simp add: keeps_referenced_def cfg_valid_def)
    ultimately show ?thesis using ok Some by (auto simp: fun_eq_iff)
  next
    case False
    obtain fin s1 where w: "cfs_write ?c s = (fin, s1)" by (cases "cfs_write ?c s")
    have v: "cfg_valid ?c" using c(1) by (simp add: cfg_valid_def)
    have kept: "keeps_referenced refs (retained c) ?kept"
      using c(1) by (simp add: keeps_referenced_retain cfg_valid_def)
    have eq: "res = (if fin then Ok ?kept else Err ())" "s' = s1"
      using col Some False w by (auto simp: cfs_collect_def cfs_read_stored [OF ok] Let_def)
    show ?thesis using cfs_write_spec [OF ok v w] c(2) kept Some by (simp add: eq)
  qed
qed

lemma cfs_remove_spec:
  assumes ok: "cfs_ok s" and rem: "cfs_remove n s = (res, s')"
  shows "cfs_ok s' \<and> cfs_stored s' = (case res of Inr Removed \<Rightarrow> (cfs_stored s)(n := None)
     | Inr Absent \<Rightarrow> (cfs_stored s)(n := None) | _ \<Rightarrow> cfs_stored s)"
proof -
  obtain fin s1 where st: "step_doc (bt_remove n) s = (fin, s1)" by (cases "step_doc (bt_remove n) s")
  have content: "disk_content s1 = (if fin then bt_remove n (disk_content s) else disk_content s)"
    using st step_doc_ok step_doc_err by (cases fin) auto
  have "res = (if fin then Ok Removed else Err ())" "s' = s1" using rem st by (auto simp: cfs_remove_def)
  moreover have "cfs_ok s1" using ok by (auto simp: cfs_ok_def content)
  moreover have "cfs_stored s1 = (if fin then (cfs_stored s)(n := None) else cfs_stored s)"
    by (auto simp: cfs_stored_def content fun_eq_iff)
  ultimately show ?thesis by simp
qed

lemmas cfs_backend_simps =
  fs_config_backend_def config_backend.simps

interpretation cfg_port: config_port fs_config_backend cfs_stored cfs_ok
proof (unfold_locales, unfold cfs_backend_simps)
  show "cfs_ok s \<Longrightarrow> cfs_collect n refs s = (Inl e, s') \<Longrightarrow> cfs_ok s' \<and> cfs_stored s' = cfs_stored s" for s n refs e s'
    using cfs_collect_spec [of s n refs "Inl e" s'] by simp
  show "cfs_ok s \<Longrightarrow> cfs_collect n refs s = (Inr kept, s') \<Longrightarrow> cfs_ok s' \<and>
      cfs_stored s' = (cfs_stored s)(n := map_option (\<lambda>c. c\<lparr>retained := kept\<rparr>) (cfs_stored s n)) \<and>
      (\<forall>c. cfs_stored s n = Some c \<longrightarrow> keeps_referenced refs (retained c) kept)" for s n refs kept s'
    using cfs_collect_spec [of s n refs "Inr kept" s'] by simp
qed (fact cfs_load_ok cfs_stored_valid cfs_save_spec cfs_remove_spec)+

lemma cfs_collect_only: "cfs_ok s \<Longrightarrow> cfs_collect n refs s = (Inr kept, s') \<Longrightarrow> fst ` set kept \<subseteq> set refs"
  by (auto simp: cfs_collect_def cfs_read_stored Let_def list_all_iff bt_retain_def
      split: option.splits if_splits prod.splits)

section \<open>What an Agent is offered\<close>

text \<open>A composition reads nothing of the store but the entry of each assignment.\<close>

lemma compose_cong:
  "(\<And>a. a \<in> set as \<Longrightarrow> assigned_entry (configs st) a = assigned_entry (configs st') a) \<Longrightarrow>
   compose sha256 as st = compose sha256 as st'"
proof -
  assume "\<And>a. a \<in> set as \<Longrightarrow> assigned_entry (configs st) a = assigned_entry (configs st') a"
  then have "List.map_filter (assigned_entry (configs st)) as = List.map_filter (assigned_entry (configs st')) as"
    by (auto simp: List.map_filter_def intro!: map_cong filter_cong)
  then show ?thesis by (simp add: compose_def)
qed

lemma compose_single:
  "assigned_entry (configs st) a = Some e \<Longrightarrow> compose sha256 [a] st = Some (desired_config_new sha256 [e])"
  by (simp add: compose_def List.map_filter_simps)

definition held_revisions :: "(string, configuration) btree \<Rightarrow> revision set" where
  "held_revisions m = {r. \<exists>n c. map_of m n = Some c \<and> (r = saved c \<or> (\<exists>h. map_of (retained c) h = Some r))}"

text \<open>Each retained revision stands under its own hash.\<close>

definition keyed :: "(string \<Rightarrow> string) \<Rightarrow> (string, configuration) btree \<Rightarrow> bool" where
  "keyed sha256 m \<longleftrightarrow>
     (\<forall>n c h r. map_of m n = Some c \<longrightarrow> map_of (retained c) h = Some r \<longrightarrow> h = revision_hash sha256 r)"

definition pins_saved :: "(string \<Rightarrow> string) \<Rightarrow> (string, configuration) btree \<Rightarrow> pinned \<Rightarrow> bool" where
  "pins_saved sha256 m p \<longleftrightarrow> (\<exists>c. map_of m (pin_configuration p) = Some c
     \<and> pin_revision p = saved c \<and> pin_hash p = revision_hash sha256 (saved c))"

lemma pin_names_saved: "pin_names sha256 m ns = Ok ps \<Longrightarrow>
   map pin_configuration ps = ns \<and> (\<forall>p \<in> set ps. pins_saved sha256 m p)"
  by (induction ns arbitrary: ps) (auto simp: pins_saved_def split: option.splits sum.splits)

lemma pin_names_Ok_iff: "(\<exists>ps. pin_names sha256 m ns = Ok ps) \<longleftrightarrow> set ns \<subseteq> dom (map_of m)"
  by (induction ns) (auto split: option.splits sum.splits)

lemma retain_pinned_lookup:
  "map_of (retain_pinned p m) n = map_option (\<lambda>c. if n = pin_configuration p
     then c\<lparr>retained := bt_insert (pin_hash p) (pin_revision p) (retained c)\<rparr> else c) (map_of m n)"
  by (cases "map_of m n") (auto simp: retain_pinned_def)

lemma retain_pinned_step:
  assumes p: "pins_saved sha256 m p"
  shows "held_revisions (retain_pinned p m) \<subseteq> held_revisions m"
    and "keyed sha256 m \<Longrightarrow> keyed sha256 (retain_pinned p m)"
    and "pins_saved sha256 m q \<Longrightarrow> pins_saved sha256 (retain_pinned p m) q"
    and "assigned_entry (retain_pinned p m) (pin_configuration p, pin_hash p) =
      Some \<lparr>entry_name = pin_configuration p, entry_body = body (pin_revision p), entry_role = role (pin_revision p)\<rparr>"
proof -
  obtain c where c: "map_of m (pin_configuration p) = Some c" "pin_revision p = saved c"
    "pin_hash p = revision_hash sha256 (saved c)"
    using p by (auto simp: pins_saved_def)
  show "keyed sha256 m \<Longrightarrow> keyed sha256 (retain_pinned p m)"
    using c by (fastforce simp: keyed_def retain_pinned_lookup split: if_splits)
  show "pins_saved sha256 m q \<Longrightarrow> pins_saved sha256 (retain_pinned p m) q"
    by (cases "pin_configuration q = pin_configuration p") (auto simp: pins_saved_def retain_pinned_lookup)
  show "assigned_entry (retain_pinned p m) (pin_configuration p, pin_hash p) =
      Some \<lparr>entry_name = pin_configuration p, entry_body = body (pin_revision p), entry_role = role (pin_revision p)\<rparr>"
    using c(1) by (simp add: assigned_entry_def retain_pinned_lookup)
  show "held_revisions (retain_pinned p m) \<subseteq> held_revisions m"
    using c by (fastforce simp: held_revisions_def retain_pinned_lookup split: if_splits)
qed

lemma retain_pinned_keeps:
  assumes p: "pins_saved sha256 m p" and keyed: "keyed sha256 m"
    and inj: "inj_on sha256 (revision_bytes ` held_revisions m)" and fits: "Ball (held_revisions m) revision_fits_usize"
    and a: "assigned_entry m a = Some e"
  shows "assigned_entry (retain_pinned p m) a = Some e"
proof (cases "a = (pin_configuration p, pin_hash p)")
  case False
  then show ?thesis using a
    by (cases a) (auto simp: assigned_entry_def retain_pinned_lookup split: option.splits)
next
  case True
  obtain c where c: "map_of m (pin_configuration p) = Some c" "pin_revision p = saved c"
    "pin_hash p = revision_hash sha256 (saved c)"
    using p by (auto simp: pins_saved_def)
  obtain r where r: "map_of (retained c) (pin_hash p) = Some r"
    and e: "e = \<lparr>entry_name = pin_configuration p, entry_body = body r, entry_role = role r\<rparr>"
    using a c True by (auto simp: assigned_entry_def split: option.splits)
  have "revision_hash sha256 r = revision_hash sha256 (saved c)"
    using keyed c r unfolding keyed_def by metis
  moreover have held: "r \<in> held_revisions m" "saved c \<in> held_revisions m"
    using c(1) r by (auto simp: held_revisions_def)
  ultimately have "revision_bytes r = revision_bytes (saved c)"
    using inj by (auto simp: revision_hash_def hex_encode_inject dest: inj_onD)
  then have "body r = body (saved c) \<and> role r = role (saved c)"
    using revision_bytes_inject [of r "saved c"] fits held by blast
  then show ?thesis using retain_pinned_step(4) [OF p] True e c(2) by simp
qed

lemma fold_retain_pinned:
  assumes "\<forall>p \<in> set ps. pins_saved sha256 m p" and "keyed sha256 m"
    and "inj_on sha256 (revision_bytes ` held_revisions m)" and "Ball (held_revisions m) revision_fits_usize"
  shows "keyed sha256 (fold retain_pinned ps m)
    \<and> (\<forall>a e. assigned_entry m a = Some e \<longrightarrow> assigned_entry (fold retain_pinned ps m) a = Some e)
    \<and> (\<forall>p \<in> set ps. assigned_entry (fold retain_pinned ps m) (pin_configuration p, pin_hash p) =
         Some \<lparr>entry_name = pin_configuration p, entry_body = body (pin_revision p), entry_role = role (pin_revision p)\<rparr>)"
  using assms
proof (induction ps arbitrary: m)
  case (Cons p ps)
  then have p: "pins_saved sha256 m p" by simp
  note step = retain_pinned_step [OF p]
  have inj: "inj_on sha256 (revision_bytes ` held_revisions (retain_pinned p m))"
    using Cons.prems(3) step(1) by (meson image_mono inj_on_subset)
  have "\<forall>q \<in> set ps. pins_saved sha256 (retain_pinned p m) q" using Cons.prems(1) step(3) by simp
  moreover have "Ball (held_revisions (retain_pinned p m)) revision_fits_usize" using Cons.prems(4) step(1) by blast
  ultimately have IH: "keyed sha256 (fold retain_pinned ps (retain_pinned p m))"
    "\<And>a e. assigned_entry (retain_pinned p m) a = Some e \<Longrightarrow> assigned_entry (fold retain_pinned ps (retain_pinned p m)) a = Some e"
    "\<forall>q \<in> set ps. assigned_entry (fold retain_pinned ps (retain_pinned p m)) (pin_configuration q, pin_hash q) =
         Some \<lparr>entry_name = pin_configuration q, entry_body = body (pin_revision q), entry_role = role (pin_revision q)\<rparr>"
    using Cons.IH [OF _ step(2) [OF Cons.prems(2)] inj] by blast+
  show ?case
    using IH(1,3) IH(2) [OF step(4)] IH(2) [OF retain_pinned_keeps [OF p Cons.prems(2-4)]] by simp
qed simp

text \<open>A store with one Configuration, for the examples below.\<close>

definition sample_revision :: revision where
  "sample_revision = \<lparr>body = ''new'', role = [], service_name = ''s''\<rparr>"

definition sample_configuration :: configuration where
  "sample_configuration = \<lparr>cfg_name = ''a'', saved = \<lparr>body = ''old'', role = [], service_name = ''s''\<rparr>, retained = []\<rparr>"

definition sample_store :: "io list \<Rightarrow> config_files disk config_store" where
  "sample_store outcomes =
     \<lparr>cfg_persisted = \<lparr>disk_content = [(''a'', Some sample_configuration)], disk_outcomes = outcomes\<rparr>,
      configs = [(''a'', sample_configuration)]\<rparr>"

lemma sample_coherent: "cfg_coherent cfs_stored cfs_ok (sample_store outcomes)"
proof -
  have "cfg_valid sample_configuration \<and> cfg_name sample_configuration = ''a''" by code_simp
  then show ?thesis
    by (auto simp: cfg_coherent_def cfs_stored_def cfs_ok_def sample_store_def bt_wf_def fun_eq_iff)
qed

text \<open>
  C9: Saving reaches nobody. Whatever saving a revision answers, what every Agent is offered stays what it was and
  memory still agrees with the files; when it succeeds the Configuration has the new revision as its saved one and
  exactly the retained revisions it had, and when it fails the store holds what it held.
\<close>

theorem saving_reaches_nobody:
  assumes coh: "cfg_coherent cfs_stored cfs_ok st" and put: "put_saved fs_config_backend n r st = (res, st')"
  shows "cfg_coherent cfs_stored cfs_ok st'
    \<and> (\<forall>assignments. compose sha256 assignments st' = compose sha256 assignments st)
    \<and> (case res of
         Inr c \<Rightarrow> config_get st' n = Some c \<and> saved c = r
           \<and> retained c = (case config_get st n of None \<Rightarrow> [] | Some c0 \<Rightarrow> retained c0)
       | Inl _ \<Rightarrow> configs st' = configs st)"
proof -
  have valid: "map_of (configs st) n = Some c \<Longrightarrow> cfg_name c = n" for c
    using coh cfs_stored_valid by (auto simp: cfg_coherent_def)
  have res: "case res of
         Inr c \<Rightarrow> map_of (configs st') = (map_of (configs st))(n \<mapsto> c) \<and> c = with_saved n r (map_of (configs st) n)
       | Inl _ \<Rightarrow> configs st' = configs st"
    using put valid by (auto simp: put_saved_def Let_def with_saved_def split: sum.splits prod.splits if_splits option.splits)
  have "assigned_entry (configs st') a = assigned_entry (configs st) a" for a
    using res by (auto simp: assigned_entry_def with_saved_def split: sum.splits option.splits)
  then have "compose sha256 as st' = compose sha256 as st" for as by (rule compose_cong)
  moreover have "cfg_coherent cfs_stored cfs_ok st'" by (rule cfg_port.put_saved_coherent [OF coh put])
  ultimately show ?thesis
    using res by (auto simp: config_get_def with_saved_def split: sum.splits option.splits)
qed

lemma saving_reaches_nobody_witness:
  "cfg_coherent cfs_stored cfs_ok (snd (put_saved fs_config_backend ''a'' sample_revision (sample_store [])))
   \<and> compose id [(''a'', ''00'')] (snd (put_saved fs_config_backend ''a'' sample_revision (sample_store [])))
      = compose id [(''a'', ''00'')] (sample_store [])"
  using saving_reaches_nobody [of "sample_store []" "''a''" sample_revision _ _ id,
    OF sample_coherent surjective_pairing] by simp

text \<open>
  C10: Pinning the saved revisions of Configurations the store holds gives each of them to be offered under its hash,
  whether or not the write that goes with it succeeds, changes no entry any Agent is already offered, and keeps every
  retained revision under its own hash. SHA-256 is assumed to tell the revisions the store holds apart.
\<close>

theorem pin_keeps_offers:
  assumes names: "set names \<subseteq> dom (map_of (configs st))" and keyed: "keyed sha256 (configs st)"
    and no_collision: "inj_on sha256 (revision_bytes ` held_revisions (configs st))"
    and fits: "Ball (held_revisions (configs st)) revision_fits_usize"
    and pin: "pin sha256 names write st = (res, st')"
  shows "keyed sha256 (configs st')
    \<and> (\<forall>a e. assigned_entry (configs st) a = Some e \<longrightarrow> assigned_entry (configs st') a = Some e)
    \<and> (\<forall>n \<in> set names. \<forall>c. config_get st n = Some c \<longrightarrow>
         compose sha256 [(n, revision_hash sha256 (saved c))] st' = Some (desired_config_new sha256
           [\<lparr>entry_name = n, entry_body = body (saved c), entry_role = role (saved c)\<rparr>]))"
proof -
  obtain ps where ps: "pin_names sha256 (configs st) names = Ok ps"
    using names pin_names_Ok_iff [of sha256 "configs st" names] by blast
  note pins = pin_names_saved [OF ps]
  have st': "configs st' = fold retain_pinned ps (configs st)"
    using pin ps by (auto simp: pin_def split: prod.splits)
  note fold = fold_retain_pinned [OF conjunct2 [OF pins] keyed no_collision fits]
  have offered: "assigned_entry (configs st') (n, revision_hash sha256 (saved c)) =
      Some \<lparr>entry_name = n, entry_body = body (saved c), entry_role = role (saved c)\<rparr>"
    if n: "n \<in> set names" and c: "config_get st n = Some c" for n c
  proof -
    have "n \<in> pin_configuration ` set ps" using n conjunct1 [OF pins] by (metis set_map)
    then obtain p where p: "p \<in> set ps" "pin_configuration p = n" by blast
    then have "pin_revision p = saved c \<and> pin_hash p = revision_hash sha256 (saved c)"
      using pins c by (auto simp: pins_saved_def config_get_def)
    then show ?thesis using fold p unfolding st' by metis
  qed
  then show ?thesis
    using fold compose_single unfolding st' [symmetric] by blast
qed

lemma pin_keeps_offers_witness:
  "compose id [(''a'', revision_hash id (saved sample_configuration))]
     (snd (pin id [''a''] (\<lambda>_. release_revisions) (sample_store [])))
   = Some (desired_config_new id [\<lparr>entry_name = ''a'', entry_body = ''old'', entry_role = []\<rparr>])"
proof -
  have held: "held_revisions (configs (sample_store [])) = {saved sample_configuration}"
    by (auto simp: held_revisions_def sample_store_def sample_configuration_def split: if_splits)
  have "keyed id (configs (sample_store []))"
    by (auto simp: keyed_def sample_store_def sample_configuration_def split: if_splits)
  moreover have "Ball (held_revisions (configs (sample_store []))) revision_fits_usize"
    by (simp add: held revision_fits_usize_def sample_configuration_def)
  moreover have "config_get (sample_store []) ''a'' = Some sample_configuration"
    by (simp add: config_get_def sample_store_def)
  moreover have dom_sample: "''a'' \<in> dom (map_of (configs (sample_store [])))"
    by (simp add: sample_store_def)
  moreover have body_sample: "body (saved sample_configuration) = ''old''" "role (saved sample_configuration) = []"
    by (simp_all add: sample_configuration_def)
  ultimately show ?thesis
    using pin_keeps_offers [of "[''a'']" "sample_store []" id "\<lambda>_. release_revisions", OF _ _ _ _ surjective_pairing]
      body_sample by (simp add: held dom_sample)
qed

text \<open>
  C35: Collecting the revisions of one Configuration changes nothing any Agent is offered, as long as the collection is
  told every revision of it that is assigned; it leaves the saved revisions as they were and memory agreeing with the files
  even when it fails, and when it succeeds no revision remains that was not named.
\<close>

theorem collection_keeps_offers:
  assumes coh: "cfg_coherent cfs_stored cfs_ok st" and ret: "retain_only fs_config_backend n refs st = (res, st')"
    and refs: "\<forall>a \<in> set assignments. fst a = n \<longrightarrow> snd a \<in> set refs"
  shows "cfg_coherent cfs_stored cfs_ok st'
    \<and> compose sha256 assignments st' = compose sha256 assignments st
    \<and> (\<forall>k. map_option saved (config_get st' k) = map_option saved (config_get st k))
    \<and> (res = Ok () \<longrightarrow> (\<forall>c. config_get st' n = Some c \<longrightarrow> fst ` set (retained c) \<subseteq> set refs))"
proof (cases "map_of (configs st) n")
  case None
  then have "st' = st" using ret by (simp add: retain_only_def domIff)
  then show ?thesis using coh None by (simp add: config_get_def)
next
  case (Some c)
  obtain kept where kept: "map_of (configs st') = (map_of (configs st))(n \<mapsto> c\<lparr>retained := kept\<rparr>)"
    "keeps_referenced refs (retained c) kept"
    using cfg_port.retain_only_coherent(2) [OF coh ret Some] by blast
  have "assigned_entry (configs st') a = assigned_entry (configs st) a" if "a \<in> set assignments" for a
    using refs that kept Some by (auto simp: assigned_entry_def keeps_referenced_def)
  then have "compose sha256 assignments st' = compose sha256 assignments st" by (rule compose_cong)
  moreover have "fst ` set kept \<subseteq> set refs" if ok: "res = Ok ()"
  proof -
    obtain kept' s' where col: "cfs_collect n refs (cfg_persisted st) = (Inr kept', s')"
      and "configs st' = bt_adjust n (\<lambda>c. c\<lparr>retained := kept'\<rparr>) (configs st)"
      using ret ok Some by (auto simp: retain_only_def fs_config_backend_def domI split: sum.splits prod.splits if_splits)
    then have "Some (c\<lparr>retained := kept'\<rparr>) = map_of (configs st') n" using Some by simp
    then have "kept' = kept" unfolding kept(1) by (auto dest: arg_cong [where f = retained])
    then show ?thesis using cfs_collect_only [OF _ col] coh by (simp add: cfg_coherent_def)
  qed
  moreover have "cfg_coherent cfs_stored cfs_ok st'" by (rule cfg_port.retain_only_coherent(1) [OF coh ret])
  ultimately show ?thesis using kept(1) Some by (auto simp: config_get_def)
qed

lemma collection_keeps_offers_witness:
  "cfg_coherent cfs_stored cfs_ok (snd (retain_only fs_config_backend ''a'' [''00''] (sample_store [IoFail])))
   \<and> compose id [(''a'', ''00'')] (snd (retain_only fs_config_backend ''a'' [''00''] (sample_store [IoFail])))
      = compose id [(''a'', ''00'')] (sample_store [IoFail])"
  using collection_keeps_offers [of "sample_store [IoFail]" "''a''" "[''00'']" _ _ "[(''a'', ''00'')]" id,
    OF sample_coherent surjective_pairing]
  by simp

text \<open>
  C36: Among compositions whose entries have a role in the same places, the hash an Agent acknowledges is equal exactly
  when the entries are, whatever order they were given in. SHA-256 is assumed to tell the two apart.
\<close>

theorem desired_hash_identifies:
  assumes "list_all entry_fits_usize es" and "list_all entry_fits_usize es'"
    and "map has_role (sort_key entry_name es) = map has_role (sort_key entry_name es')"
    and "inj_on sha256 {desired_bytes (sort_key entry_name es), desired_bytes (sort_key entry_name es')}"
  shows "desired_hash (desired_config_new sha256 es) = desired_hash (desired_config_new sha256 es')
    \<longleftrightarrow> desired_entries (desired_config_new sha256 es) = desired_entries (desired_config_new sha256 es')"
proof -
  have "list_all entry_fits_usize (sort_key entry_name es)" "list_all entry_fits_usize (sort_key entry_name es')"
    using assms(1,2) by (simp_all add: list_all_iff)
  then show ?thesis
    using desired_bytes_inject [of "sort_key entry_name es" "sort_key entry_name es'"] assms(3,4)
    by (auto simp: desired_config_new_def Let_def dest: inj_onD)
qed

lemma desired_hash_identifies_witness:
  "desired_hash (desired_config_new id [\<lparr>entry_name = ''a'', entry_body = ''x'', entry_role = []\<rparr>])
   \<noteq> desired_hash (desired_config_new id [\<lparr>entry_name = ''a'', entry_body = ''y'', entry_role = []\<rparr>])"
  using desired_hash_identifies [of "[\<lparr>entry_name = ''a'', entry_body = ''x'', entry_role = []\<rparr>]"
      "[\<lparr>entry_name = ''a'', entry_body = ''y'', entry_role = []\<rparr>]" id]
  by (simp add: entry_fits_usize_def has_role_def desired_config_new_def Let_def)

end
