(* ===== verification/Floors.thy ===== *)
theory Floors
  imports Fleet_Version Core_Rules Identity
begin

text \<open>
  Package floors: the versions below which no Client takes a package of an Agent type. The Server's floors with their
  persistence port (\<open>fleet-server/src/floors.rs\<close>) and its filesystem adapter (\<open>fleet-server/src/fs/floors.rs\<close>), and the
  floors a Client keeps (\<open>fleet-agent/src/floors.rs\<close>). Ed25519 is a parameter: a key is the predicate that says whether it
  verifies a signature over a statement. Both files are documents as \<open>serde\<close> reads them, and fetching one is a step whose
  outcome is given.
\<close>

section \<open>The Server's floors\<close>

record floor =
  floor_version :: string
  floor_signature :: string

datatype put_answer = Stored | Lower floor

definition below :: "string \<Rightarrow> string \<Rightarrow> bool" where
  "below version stored \<longleftrightarrow> precedence version stored = Some Less"

definition put_into :: "(string, floor) btree \<Rightarrow> string \<Rightarrow> floor \<Rightarrow> put_answer \<times> (string, floor) btree" where
  "put_into floors ty fl =
     (case map_of floors ty of
        Some stored \<Rightarrow>
          if below (floor_version fl) (floor_version stored) then (Lower stored, floors)
          else (Stored, bt_insert ty fl floors)
      | None \<Rightarrow> (Stored, bt_insert ty fl floors))"

record 's floor_store =
  flo_load :: "'s \<Rightarrow> unit + (string, floor) btree"
  flo_put :: "string \<Rightarrow> floor \<Rightarrow> 's \<Rightarrow> (unit + put_answer) \<times> 's"
  flo_remove :: "string \<Rightarrow> 's \<Rightarrow> (unit + bool) \<times> 's"

datatype floor_error = FloorInvalid | FloorLower string | FloorStorage

record 's package_floors =
  flo_persisted :: 's
  floors :: "(string, floor) btree"
  verifier :: "(string \<Rightarrow> string \<Rightarrow> bool) option"

definition floors_open :: "'s floor_store \<Rightarrow> 's \<Rightarrow> unit + 's package_floors" where
  "floors_open be s =
     (case flo_load be s of
        Inl e \<Rightarrow> Err e
      | Inr m \<Rightarrow>
        if list_all (\<lambda>(ty, fl). case package_new ty (floor_version fl) of Inl _ \<Rightarrow> False | Inr _ \<Rightarrow> True) m
        then Ok \<lparr>flo_persisted = s, floors = m, verifier = None\<rparr>
        else Err ())"

definition with_verifier :: "(string \<Rightarrow> string \<Rightarrow> bool) option \<Rightarrow> 's package_floors \<Rightarrow> 's package_floors" where
  "with_verifier v st = st\<lparr>verifier := v\<rparr>"

definition floor_state :: "'s package_floors \<Rightarrow> string \<Rightarrow> floor \<Rightarrow> signature_state_t" where
  "floor_state st ty fl =
     (case verifier st of
        None \<Rightarrow> Unchecked
      | Some verifies \<Rightarrow>
        if verifies (floor_statement ty (floor_version fl)) (floor_signature fl) then Valid else Invalid)"

definition floors_list :: "'s package_floors \<Rightarrow> (string \<times> floor \<times> signature_state_t) list" where
  "floors_list st = map (\<lambda>(ty, fl). (ty, fl, floor_state st ty fl)) (floors st)"

definition floors_reload :: "'s floor_store \<Rightarrow> 's package_floors \<Rightarrow> (unit + unit) \<times> 's package_floors" where
  "floors_reload be st =
     (case flo_load be (flo_persisted st) of Inl e \<Rightarrow> (Err e, st) | Inr m \<Rightarrow> (Ok (), st\<lparr>floors := m\<rparr>))"

definition floors_put ::
  "'s floor_store \<Rightarrow> string \<Rightarrow> string \<Rightarrow> string \<Rightarrow> 's package_floors
   \<Rightarrow> (floor_error + signature_state_t) \<times> 's package_floors" where
  "floors_put be ty ver signature st =
     (case package_new ty ver of
        Inl _ \<Rightarrow> (Err FloorInvalid, st)
      | Inr _ \<Rightarrow>
        if length signature \<noteq> ED25519_SIGNATURE_LEN then (Err FloorInvalid, st)
        else
          (let fl = \<lparr>floor_version = ver, floor_signature = signature\<rparr> in
           case flo_put be ty fl (flo_persisted st) of
             (Inl _, s) \<Rightarrow> (Err FloorStorage, st\<lparr>flo_persisted := s\<rparr>)
           | (Inr Stored, s) \<Rightarrow>
               (Ok (floor_state st ty fl), st\<lparr>flo_persisted := s, floors := bt_insert ty fl (floors st)\<rparr>)
           | (Inr (Lower stored), s) \<Rightarrow>
               (Err (FloorLower (floor_version stored)),
                st\<lparr>flo_persisted := s, floors := bt_insert ty stored (floors st)\<rparr>)))"

definition floors_remove :: "'s floor_store \<Rightarrow> string \<Rightarrow> 's package_floors \<Rightarrow> (unit + bool) \<times> 's package_floors" where
  "floors_remove be ty st =
     (case flo_remove be ty (flo_persisted st) of
        (Inl e, s) \<Rightarrow> (Err e, st\<lparr>flo_persisted := s\<rparr>)
      | (Inr removed, s) \<Rightarrow> (Ok removed, st\<lparr>flo_persisted := s, floors := bt_remove ty (floors st)\<rparr>))"

section \<open>The filesystem adapter\<close>

record floor_meta =
  meta_version :: string
  meta_signature :: string

datatype 'd document = NoFile | Unreadable | Document 'd

type_synonym floor_doc = "(string, floor_meta) btree document"

definition floor_meta_of :: "floor \<Rightarrow> floor_meta" where
  "floor_meta_of fl = \<lparr>meta_version = floor_version fl, meta_signature = hex_encode (floor_signature fl)\<rparr>"

definition ffs_write :: "(string, floor) btree \<Rightarrow> floor_doc disk \<Rightarrow> bool \<times> floor_doc disk" where
  "ffs_write m s = replace_doc (\<lambda>_. Document (map (\<lambda>(ty, fl). (ty, floor_meta_of fl)) m)) s"

fun ffs_read_entries :: "(string \<times> floor_meta) list \<Rightarrow> unit + (string \<times> floor) list" where
  "ffs_read_entries [] = Ok []"
| "ffs_read_entries ((ty, meta) # es) =
     (case hex_decode (meta_signature meta) of
        None \<Rightarrow> Err ()
      | Some signature \<Rightarrow>
        (case ffs_read_entries es of
           Inl e \<Rightarrow> Err e
         | Inr fs \<Rightarrow> Ok ((ty, \<lparr>floor_version = meta_version meta, floor_signature = signature\<rparr>) # fs)))"

definition ffs_load :: "floor_doc disk \<Rightarrow> unit + (string, floor) btree" where
  "ffs_load s =
     (case disk_content s of
        NoFile \<Rightarrow> Ok []
      | Unreadable \<Rightarrow> Err ()
      | Document doc \<Rightarrow> (case ffs_read_entries doc of Inl e \<Rightarrow> Err e | Inr es \<Rightarrow> Ok (bt_collect es)))"

definition ffs_put :: "string \<Rightarrow> floor \<Rightarrow> floor_doc disk \<Rightarrow> (unit + put_answer) \<times> floor_doc disk" where
  "ffs_put ty fl s =
     (case ffs_load s of
        Inl e \<Rightarrow> (Err e, s)
      | Inr m \<Rightarrow>
        (case put_into m ty fl of
           (Stored, m') \<Rightarrow> (case ffs_write m' s of (ok, s') \<Rightarrow> (if ok then Ok Stored else Err (), s'))
         | (answer, _) \<Rightarrow> (Ok answer, s)))"

definition ffs_remove :: "string \<Rightarrow> floor_doc disk \<Rightarrow> (unit + bool) \<times> floor_doc disk" where
  "ffs_remove ty s =
     (case ffs_load s of
        Inl e \<Rightarrow> (Err e, s)
      | Inr m \<Rightarrow>
        if map_of m ty = None then (Ok False, s)
        else (case ffs_write (bt_remove ty m) s of (ok, s') \<Rightarrow> (if ok then Ok True else Err (), s')))"

definition fs_floor_store :: "floor_doc disk floor_store" where
  "fs_floor_store = \<lparr>flo_load = ffs_load, flo_put = ffs_put, flo_remove = ffs_remove\<rparr>"

section \<open>The floors a Client keeps\<close>

record client_floor =
  cf_version :: string
  cf_signature :: string

type_synonym client_floors = "(string, client_floor) btree"

definition REFRESH :: nat where "REFRESH = 3600"

definition FRESH :: nat where "FRESH = 60"

definition floor_verifies :: "(string \<Rightarrow> string \<Rightarrow> bool) \<Rightarrow> string \<Rightarrow> client_floor \<Rightarrow> bool" where
  "floor_verifies key ty fl \<longleftrightarrow>
     (case hex_decode (cf_signature fl) of
        None \<Rightarrow> False
      | Some signature \<Rightarrow> is_semver (cf_version fl) \<and> key (floor_statement ty (cf_version fl)) signature)"

record floor_file =
  ff_key :: "(string \<Rightarrow> string \<Rightarrow> bool) option"
  kept :: "unit + client_floors"
  fetched :: "nat option"
  ff_disk :: "client_floors document disk"

definition parse_kept :: "client_floors \<Rightarrow> unit + client_floors" where
  "parse_kept m = (if list_ex (\<lambda>(ty, fl). \<not> is_semver (cf_version fl)) m then Err () else Ok m)"

definition floor_file_open :: "(string \<Rightarrow> string \<Rightarrow> bool) option \<Rightarrow> client_floors document disk \<Rightarrow> floor_file" where
  "floor_file_open key d =
     \<lparr>ff_key = key,
      kept = (case disk_content d of Document m \<Rightarrow> parse_kept m | NoFile \<Rightarrow> Ok [] | Unreadable \<Rightarrow> Err ()),
      fetched = None, ff_disk = d\<rparr>"

definition take_one :: "(string \<Rightarrow> string \<Rightarrow> bool) \<Rightarrow> string \<times> client_floor \<Rightarrow> client_floors \<times> bool \<Rightarrow> client_floors \<times> bool" where
  "take_one key e acc =
     (case (e, acc) of
        ((ty, fl), (m, raised)) \<Rightarrow>
          if \<not> floor_verifies key ty fl then (m, raised)
          else
            (case map_option (\<lambda>held. precedence (cf_version fl) (cf_version held)) (map_of m ty) of
               Some (Some Less) \<Rightarrow> (m, raised)
             | Some (Some Greater) \<Rightarrow> (bt_insert ty fl m, True)
             | None \<Rightarrow> (bt_insert ty fl m, True)
             | Some _ \<Rightarrow> (m, raised)))"

definition floor_file_write :: "client_floors \<Rightarrow> client_floors document disk \<Rightarrow> client_floors document disk" where
  "floor_file_write m d = snd (replace_doc (\<lambda>_. Document m) d)"

definition floor_file_take :: "client_floors \<Rightarrow> floor_file \<Rightarrow> floor_file" where
  "floor_file_take served st =
     (case ff_key st of
        None \<Rightarrow> st
      | Some key \<Rightarrow>
        (case kept st of
           Inl _ \<Rightarrow> st
         | Inr m \<Rightarrow>
           (case fold (take_one key) served (m, False) of
              (m', raised) \<Rightarrow>
                st\<lparr>kept := Ok m', ff_disk := (if raised then floor_file_write m' (ff_disk st) else ff_disk st)\<rparr>)))"

text \<open>\<open>update\<close>: what the fetch and the parse of its body come to is \<open>answer\<close>.\<close>

definition floor_file_update :: "nat \<Rightarrow> unit + client_floors \<Rightarrow> floor_file \<Rightarrow> floor_file" where
  "floor_file_update now answer st =
     (if ff_key st = None then st
      else let st = st\<lparr>fetched := Some now\<rparr> in
           (case answer of Inl _ \<Rightarrow> st | Inr served \<Rightarrow> floor_file_take served st))"

definition update_older_than :: "nat \<Rightarrow> nat \<Rightarrow> unit + client_floors \<Rightarrow> floor_file \<Rightarrow> floor_file" where
  "update_older_than now age answer st =
     (if (case fetched st of None \<Rightarrow> True | Some f \<Rightarrow> age \<le> now - f) then floor_file_update now answer st else st)"

definition floor_of :: "floor_file \<Rightarrow> string \<Rightarrow> unit + string option" where
  "floor_of st ty = (case kept st of Inl e \<Rightarrow> Err e | Inr m \<Rightarrow> Ok (map_option cf_version (map_of m ty)))"

section \<open>The order of floors\<close>

lemma semver_parses: "is_semver v \<Longrightarrow> \<exists>p. parse v = Some p"
  by (auto simp: is_semver_def split: option.splits)

lemma not_below_refl: "is_semver v \<Longrightarrow> \<not> below v v"
  using semver_parses [of v] versions.refl parse_wf(1) by (auto simp: below_def precedence_def)

lemma not_below_trans:
  assumes "is_semver a" "is_semver b" "is_semver c" and "\<not> below b a" and "\<not> below c b"
  shows "\<not> below c a"
proof
  assume ca: "below c a"
  obtain pa pb pc where p: "parse a = Some pa" "parse b = Some pb" "parse c = Some pc"
    using assms semver_parses by metis
  then have wf: "version_wf pa" "version_wf pb" "version_wf pc" using parse_wf(1) by blast+
  have "compare pb pa \<noteq> Less" "compare pc pa = Less" "compare pc pb \<noteq> Less"
    using assms(4,5) ca p by (simp_all add: below_def precedence_def)
  moreover have "compare pa pb \<noteq> Greater"
    using versions.sym [OF wf(1,2)] \<open>compare pb pa \<noteq> Less\<close> by (cases "compare pa pb") (auto simp: reverse_ord_def)
  ultimately show False using versions.less_trans [OF wf(3,1,2)] by simp
qed

text \<open>What may follow what is held of a type: no floor may follow none, and then none below the one held.\<close>

fun floor_le :: "string option \<Rightarrow> string option \<Rightarrow> bool" where
  "floor_le None _ \<longleftrightarrow> True"
| "floor_le (Some v) None \<longleftrightarrow> False"
| "floor_le (Some v) (Some w) \<longleftrightarrow> \<not> below w v"

definition semver_opt :: "string option \<Rightarrow> bool" where
  "semver_opt v \<longleftrightarrow> (case v of None \<Rightarrow> True | Some x \<Rightarrow> is_semver x)"

lemma floor_le_refl: "semver_opt v \<Longrightarrow> floor_le v v"
  by (cases v) (auto simp: semver_opt_def not_below_refl)

lemma floor_le_trans:
  "semver_opt a \<Longrightarrow> semver_opt b \<Longrightarrow> semver_opt c \<Longrightarrow> floor_le a b \<Longrightarrow> floor_le b c \<Longrightarrow> floor_le a c"
  by (cases a; cases b; cases c) (auto simp: semver_opt_def intro: not_below_trans [THEN notE])

section \<open>The contract of the port\<close>

definition served_version :: "'s package_floors \<Rightarrow> string \<Rightarrow> string option" where
  "served_version st t = map_option floor_version (map_of (floors st) t)"

definition stored_version :: "('s \<Rightarrow> string \<rightharpoonup> floor) \<Rightarrow> 's package_floors \<Rightarrow> string \<Rightarrow> string option" where
  "stored_version stored st t = map_option floor_version (stored (flo_persisted st) t)"

text \<open>What is served of a type is never above what is stored of it: the store may be ahead, after another instance
  raised a floor or a write failed late.\<close>

definition behind :: "('s \<Rightarrow> string \<rightharpoonup> floor) \<Rightarrow> ('s \<Rightarrow> bool) \<Rightarrow> string \<Rightarrow> 's package_floors \<Rightarrow> bool" where
  "behind stored port_ok t st \<longleftrightarrow> port_ok (flo_persisted st) \<and> semver_opt (served_version st t)
     \<and> floor_le (served_version st t) (stored_version stored st t)"

definition floor_rises ::
  "('s \<Rightarrow> string \<rightharpoonup> floor) \<Rightarrow> ('s \<Rightarrow> bool) \<Rightarrow> string \<Rightarrow> 's package_floors \<Rightarrow> 's package_floors \<Rightarrow> bool" where
  "floor_rises stored port_ok t st st' \<longleftrightarrow> behind stored port_ok t st'
     \<and> floor_le (served_version st t) (served_version st' t)
     \<and> floor_le (stored_version stored st t) (stored_version stored st' t)"

text \<open>
  \<open>stored\<close> is what the adapter persists. A write is decided by what it holds, not by the caller: it takes effect only when
  the floor is not below the one stored, whatever it answers, and a refusal names the floor that stands.
\<close>

locale floor_port =
  fixes be :: "'s floor_store"
    and stored :: "'s \<Rightarrow> string \<rightharpoonup> floor"
    and port_ok :: "'s \<Rightarrow> bool"
  assumes load_ok: "port_ok s \<Longrightarrow> \<exists>m. flo_load be s = Ok m \<and> map_of m = stored s"
    and semver: "port_ok s \<Longrightarrow> stored s t = Some fl \<Longrightarrow> is_semver (floor_version fl)"
    and put_port: "port_ok s \<Longrightarrow> is_semver (floor_version fl) \<Longrightarrow> port_ok (snd (flo_put be t fl s))"
    and put_stored: "port_ok s \<Longrightarrow> is_semver (floor_version fl) \<Longrightarrow> flo_put be t fl s = (res, s') \<Longrightarrow>
      stored s' = stored s
      \<or> (stored s' = (stored s)(t \<mapsto> fl) \<and> floor_le (map_option floor_version (stored s t)) (Some (floor_version fl)))"
    and put_ok: "port_ok s \<Longrightarrow> is_semver (floor_version fl) \<Longrightarrow> flo_put be t fl s = (Ok Stored, s') \<Longrightarrow>
      stored s' = (stored s)(t \<mapsto> fl) \<and> floor_le (map_option floor_version (stored s t)) (Some (floor_version fl))"
    and put_lower: "port_ok s \<Longrightarrow> is_semver (floor_version fl) \<Longrightarrow> flo_put be t fl s = (Ok (Lower g), s') \<Longrightarrow>
      stored s' = stored s \<and> stored s t = Some g \<and> below (floor_version fl) (floor_version g)"
    and remove_port: "port_ok s \<Longrightarrow> port_ok (snd (flo_remove be t s))"
    and remove_other: "port_ok s \<Longrightarrow> flo_remove be t s = (removed, s') \<Longrightarrow> t' \<noteq> t \<Longrightarrow> stored s' t' = stored s t'"
    and remove_ok: "port_ok s \<Longrightarrow> flo_remove be t s = (Ok b, s') \<Longrightarrow> stored s' t = None \<and> (b \<longleftrightarrow> stored s t \<noteq> None)"
begin

lemma stored_semver: "port_ok (flo_persisted st) \<Longrightarrow> semver_opt (stored_version stored st t)"
  using semver [of "flo_persisted st" t]
  by (auto simp: semver_opt_def stored_version_def split: option.splits)

lemma floor_rises_refl: "behind stored port_ok t st \<Longrightarrow> floor_rises stored port_ok t st st"
  using stored_semver [of st t] by (simp add: floor_rises_def behind_def floor_le_refl)

lemma floor_rises_trans:
  "behind stored port_ok t st \<Longrightarrow> floor_rises stored port_ok t st st' \<Longrightarrow> floor_rises stored port_ok t st' st'' \<Longrightarrow>
   floor_rises stored port_ok t st st''"
  using stored_semver floor_le_trans unfolding floor_rises_def behind_def by blast

lemma put_rises:
  assumes st: "behind stored port_ok t st" and put: "floors_put be t' ver signature st = (res, st')"
  shows "floor_rises stored port_ok t st st'"
proof (cases "st' = st")
  case True
  then show ?thesis using floor_rises_refl [OF st] by simp
next
  case False
  let ?fl = "\<lparr>floor_version = ver, floor_signature = signature\<rparr>"
  have port: "port_ok (flo_persisted st)" and served: "semver_opt (served_version st t)"
    and le: "floor_le (served_version st t) (stored_version stored st t)" using st by (simp_all add: behind_def)
  have ver: "is_semver (floor_version ?fl)"
    using put False by (auto simp: floors_put_def package_new_def package_is_semver_def package_load_ok
        split: sum.splits if_splits)
  obtain r s' where r: "flo_put be t' ?fl (flo_persisted st) = (r, s')" by (cases "flo_put be t' ?fl (flo_persisted st)")
  note law = put_stored [OF port ver r] and port' = put_port [OF port ver, of t', unfolded r snd_conv]
  have st': "flo_persisted st' = s'" and m: "floors st' = (case r of Inl _ \<Rightarrow> floors st
      | Inr Stored \<Rightarrow> bt_insert t' ?fl (floors st) | Inr (Lower g) \<Rightarrow> bt_insert t' g (floors st))"
    using put False r by (auto simp: floors_put_def Let_def split: sum.splits if_splits put_answer.splits)
  have rises: "floor_le (stored_version stored st t) (stored_version stored st' t)"
    using law stored_semver [OF port, of t]
    by (cases "t = t'") (auto simp: stored_version_def st' intro: floor_le_refl)
  have new: "served_version st' t = served_version st t \<or> served_version st' t = stored_version stored st' t"
    using put_ok [OF port ver, of t' s'] put_lower [OF port ver, of t' _ s'] r
    by (auto simp: served_version_def stored_version_def m st' split: sum.splits put_answer.splits)
  have sem': "semver_opt (stored_version stored st' t)" using stored_semver [of st' t] port' st' by simp
  have served_stored: "floor_le (served_version st t) (stored_version stored st' t)"
    using floor_le_trans [OF served stored_semver [OF port] sem' le rises] .
  show ?thesis
    using new rises served_stored served sem' port' st' floor_le_refl [OF served] floor_le_refl [OF sem']
    unfolding floor_rises_def behind_def by auto
qed

lemma reload_rises:
  assumes st: "behind stored port_ok t st"
  shows "floor_rises stored port_ok t st (snd (floors_reload be st))"
proof -
  have port: "port_ok (flo_persisted st)" using st by (simp add: behind_def)
  then obtain m where "flo_load be (flo_persisted st) = Ok m" "map_of m = stored (flo_persisted st)"
    using load_ok by blast
  then have "flo_persisted (snd (floors_reload be st)) = flo_persisted st"
    "served_version (snd (floors_reload be st)) t = stored_version stored st t"
    by (simp_all add: floors_reload_def served_version_def stored_version_def)
  then show ?thesis
    using st stored_semver [OF port, of t] floor_le_refl
    by (simp add: floor_rises_def behind_def stored_version_def)
qed

lemma remove_rises:
  assumes st: "behind stored port_ok t st" and other: "t' \<noteq> t"
  shows "floor_rises stored port_ok t st (snd (floors_remove be t' st))"
proof -
  have port: "port_ok (flo_persisted st)" using st by (simp add: behind_def)
  obtain r s' where r: "flo_remove be t' (flo_persisted st) = (r, s')" by (cases "flo_remove be t' (flo_persisted st)")
  have "port_ok s'" using remove_port [OF port, of t'] r by simp
  moreover have "stored s' t = stored (flo_persisted st) t" using remove_other [OF port r] other by simp
  moreover have "flo_persisted (snd (floors_remove be t' st)) = s'"
    "map_of (floors (snd (floors_remove be t' st))) t = map_of (floors st) t"
    using r other by (auto simp: floors_remove_def split: sum.splits)
  ultimately show ?thesis
    using floor_rises_refl [OF st] by (simp add: floor_rises_def behind_def served_version_def stored_version_def)
qed

end

section \<open>The filesystem adapter keeps the contract\<close>

definition ffs_stored :: "floor_doc disk \<Rightarrow> string \<rightharpoonup> floor" where
  "ffs_stored s = (case ffs_load s of Inl _ \<Rightarrow> Map.empty | Inr m \<Rightarrow> map_of m)"

definition floors_wf :: "(string, floor) btree \<Rightarrow> bool" where
  "floors_wf m \<longleftrightarrow> bt_wf m \<and> list_all (\<lambda>(t, fl). is_semver (floor_version fl)) m"

definition ffs_ok :: "floor_doc disk \<Rightarrow> bool" where
  "ffs_ok s \<longleftrightarrow> (case ffs_load s of Inl _ \<Rightarrow> False | Inr m \<Rightarrow> floors_wf m)"

lemma floors_wf_lookup: "floors_wf m \<longleftrightarrow> bt_wf m \<and> (\<forall>t fl. map_of m t = Some fl \<longrightarrow> is_semver (floor_version fl))"
  by (auto simp: floors_wf_def list_all_iff bt_wf_map_of_iff)

lemma read_entries_meta: "ffs_read_entries (map (\<lambda>(ty, fl). (ty, floor_meta_of fl)) es) = Ok es"
  by (induction es) (auto simp: floor_meta_of_def)

lemma ffs_write_load:
  assumes wf: "floors_wf m" and s: "ffs_load s = Ok m0" and w: "ffs_write m s = (ok, s')"
  shows "ffs_load s' = Ok m \<or> (\<not> ok \<and> ffs_load s' = Ok m0)"
proof -
  have "ffs_load s' = Ok m" if "disk_content s' = Document (map (\<lambda>(ty, fl). (ty, floor_meta_of fl)) m)"
    using that wf by (simp add: ffs_load_def read_entries_meta bt_collect_id floors_wf_def)
  moreover have "ffs_load s' = Ok m0" if "disk_content s' = disk_content s"
    using that s by (simp add: ffs_load_def)
  ultimately show ?thesis using replace_doc_cases [OF w [unfolded ffs_write_def]] by blast
qed

lemma ffs_okE: "ffs_ok s \<Longrightarrow> (\<And>m. ffs_load s = Ok m \<Longrightarrow> floors_wf m \<Longrightarrow> ffs_stored s = map_of m \<Longrightarrow> thesis) \<Longrightarrow> thesis"
  by (auto simp: ffs_ok_def ffs_stored_def split: sum.splits)

lemma put_into_cases:
  assumes "floors_wf m" and "is_semver (floor_version fl)"
  shows "(\<exists>g. put_into m t fl = (Lower g, m) \<and> map_of m t = Some g \<and> below (floor_version fl) (floor_version g))
    \<or> (put_into m t fl = (Stored, bt_insert t fl m) \<and> floors_wf (bt_insert t fl m)
       \<and> floor_le (map_option floor_version (map_of m t)) (Some (floor_version fl)))"
  using assms by (auto simp: put_into_def floors_wf_lookup split: option.splits)

lemma ffs_put_spec:
  assumes ok: "ffs_ok s" and fl: "is_semver (floor_version fl)" and put: "ffs_put t fl s = (res, s')"
  shows "ffs_ok s'
    \<and> (case res of
         Inr (Lower g) \<Rightarrow> ffs_stored s' = ffs_stored s \<and> ffs_stored s t = Some g \<and> below (floor_version fl) (floor_version g)
       | _ \<Rightarrow> (ffs_stored s' = ffs_stored s \<and> res \<noteq> Ok Stored)
          \<or> (ffs_stored s' = (ffs_stored s)(t \<mapsto> fl)
             \<and> floor_le (map_option floor_version (ffs_stored s t)) (Some (floor_version fl))))"
proof (rule ffs_okE [OF ok])
  fix m assume m: "ffs_load s = Ok m" "floors_wf m" "ffs_stored s = map_of m"
  let ?m = "bt_insert t fl m"
  show ?thesis
  proof (cases "fst (put_into m t fl)")
    case Stored
    then have st: "put_into m t fl = (Stored, ?m)" "floors_wf ?m"
      "floor_le (map_option floor_version (map_of m t)) (Some (floor_version fl))"
      using put_into_cases [OF m(2) fl, of t] by auto
    obtain fin s1 where w: "ffs_write ?m s = (fin, s1)" by (cases "ffs_write ?m s")
    then have res: "res = (if fin then Ok Stored else Err ())" "s' = s1"
      using put m(1) st(1) by (simp_all add: ffs_put_def)
    from ffs_write_load [OF st(2) m(1) w] show ?thesis
    proof
      assume l: "ffs_load s1 = Ok ?m"
      then have "ffs_ok s1 \<and> ffs_stored s1 = (map_of m)(t \<mapsto> fl)" using st(2) by (simp add: ffs_ok_def ffs_stored_def)
      then show ?thesis using res st(3) m(3) by (cases fin) simp_all
    next
      assume l: "\<not> fin \<and> ffs_load s1 = Ok m"
      then have "ffs_ok s1 \<and> ffs_stored s1 = map_of m" using m(2) by (simp add: ffs_ok_def ffs_stored_def)
      then show ?thesis using res m(3) l by simp
    qed
  next
    case (Lower g)
    then have lo: "put_into m t fl = (Lower g, m)" "map_of m t = Some g" "below (floor_version fl) (floor_version g)"
      using put_into_cases [OF m(2) fl, of t] by auto
    then have "res = Ok (Lower g)" "s' = s" using put m(1) by (simp_all add: ffs_put_def)
    then show ?thesis using ok lo m(3) by simp
  qed
qed

lemma ffs_remove_spec:
  assumes ok: "ffs_ok s" and rem: "ffs_remove t s = (res, s')"
  shows "ffs_ok s' \<and> (ffs_stored s' = ffs_stored s \<or> ffs_stored s' = (ffs_stored s)(t := None))
    \<and> (\<forall>b. res = Ok b \<longrightarrow> ffs_stored s' t = None \<and> (b \<longleftrightarrow> ffs_stored s t \<noteq> None))"
proof (rule ffs_okE [OF ok])
  fix m assume m: "ffs_load s = Ok m" "floors_wf m" "ffs_stored s = map_of m"
  show ?thesis
  proof (cases "map_of m t")
    case None
    then have "res = Ok False" "s' = s" using rem m(1) by (simp_all add: ffs_remove_def)
    then show ?thesis using ok None m(3) by simp
  next
    case (Some g)
    obtain fin s1 where w: "ffs_write (bt_remove t m) s = (fin, s1)" by (cases "ffs_write (bt_remove t m) s")
    then have res: "res = (if fin then Ok True else Err ())" "s' = s1"
      using rem m(1) Some by (simp_all add: ffs_remove_def)
    have wf: "floors_wf (bt_remove t m)" using m(2) by (auto simp: floors_wf_lookup)
    from ffs_write_load [OF wf m(1) w] show ?thesis
    proof
      assume "ffs_load s1 = Ok (bt_remove t m)"
      then have "ffs_ok s1 \<and> ffs_stored s1 = (map_of m)(t := None)" using wf by (simp add: ffs_ok_def ffs_stored_def)
      then show ?thesis using res m(3) Some by (cases fin) simp_all
    next
      assume l: "\<not> fin \<and> ffs_load s1 = Ok m"
      then have "ffs_ok s1 \<and> ffs_stored s1 = map_of m" using m(2) by (simp add: ffs_ok_def ffs_stored_def)
      then show ?thesis using res m(3) l by simp
    qed
  qed
qed

interpretation floor_fs: floor_port fs_floor_store ffs_stored ffs_ok
proof (unfold_locales, unfold fs_floor_store_def floor_store.simps)
  show "ffs_ok s \<Longrightarrow> \<exists>m. ffs_load s = Ok m \<and> map_of m = ffs_stored s" for s
    by (erule ffs_okE) simp
  show "ffs_ok s \<Longrightarrow> ffs_stored s t = Some fl \<Longrightarrow> is_semver (floor_version fl)" for s t fl
    by (erule ffs_okE) (simp add: floors_wf_lookup)
  show "ffs_ok s \<Longrightarrow> is_semver (floor_version fl) \<Longrightarrow> ffs_ok (snd (ffs_put t fl s))" for s fl t
    using ffs_put_spec [of s fl t, OF _ _ surjective_pairing] by simp
  show "ffs_ok s \<Longrightarrow> is_semver (floor_version fl) \<Longrightarrow> ffs_put t fl s = (res, s') \<Longrightarrow>
      ffs_stored s' = ffs_stored s
      \<or> (ffs_stored s' = (ffs_stored s)(t \<mapsto> fl) \<and> floor_le (map_option floor_version (ffs_stored s t)) (Some (floor_version fl)))"
    for s fl t res s'
    using ffs_put_spec [of s fl t res s'] by (auto split: sum.splits put_answer.splits)
  show "ffs_ok s \<Longrightarrow> is_semver (floor_version fl) \<Longrightarrow> ffs_put t fl s = (Ok Stored, s') \<Longrightarrow>
      ffs_stored s' = (ffs_stored s)(t \<mapsto> fl) \<and> floor_le (map_option floor_version (ffs_stored s t)) (Some (floor_version fl))"
    for s fl t s'
    using ffs_put_spec [of s fl t "Ok Stored" s'] by simp
  show "ffs_ok s \<Longrightarrow> is_semver (floor_version fl) \<Longrightarrow> ffs_put t fl s = (Ok (Lower g), s') \<Longrightarrow>
      ffs_stored s' = ffs_stored s \<and> ffs_stored s t = Some g \<and> below (floor_version fl) (floor_version g)" for s fl t g s'
    using ffs_put_spec [of s fl t "Ok (Lower g)" s'] by simp
  show "ffs_ok s \<Longrightarrow> ffs_ok (snd (ffs_remove t s))" for s t
    using ffs_remove_spec [of s t, OF _ surjective_pairing] by simp
  show "ffs_ok s \<Longrightarrow> ffs_remove t s = (res, s') \<Longrightarrow> t' \<noteq> t \<Longrightarrow> ffs_stored s' t' = ffs_stored s t'" for s t res s' t'
    using ffs_remove_spec [of s t res s'] by auto
  show "ffs_ok s \<Longrightarrow> ffs_remove t s = (Ok b, s') \<Longrightarrow> ffs_stored s' t = None \<and> (b \<longleftrightarrow> ffs_stored s t \<noteq> None)" for s t b s'
    using ffs_remove_spec [of s t "Ok b" s'] by simp
qed

text \<open>A write that fails once the new file is in place is answered as an error although the floor is stored.\<close>

lemma failed_put_is_stored:
  defines "fl \<equiv> \<lparr>floor_version = ''1.0.0'', floor_signature = []\<rparr>"
    and "s \<equiv> \<lparr>disk_content = NoFile, disk_outcomes = [IoLate]\<rparr>"
  shows "fst (ffs_put ''a'' fl s) = Err () \<and> ffs_stored (snd (ffs_put ''a'' fl s)) ''a'' = Some fl \<and> ffs_stored s ''a'' = None"
  unfolding fl_def s_def by code_simp

section \<open>Sequences of acts\<close>

datatype floor_cmd = PutFloor string string string | ReloadFloors | RemoveFloor string

fun floor_step :: "floor_cmd \<Rightarrow> floor_doc disk package_floors \<Rightarrow> floor_doc disk package_floors" where
  "floor_step (PutFloor ty ver signature) st = snd (floors_put fs_floor_store ty ver signature st)"
| "floor_step ReloadFloors st = snd (floors_reload fs_floor_store st)"
| "floor_step (RemoveFloor ty) st = snd (floors_remove fs_floor_store ty st)"

lemma floor_step_rises:
  "behind ffs_stored ffs_ok t st \<Longrightarrow> c \<noteq> RemoveFloor t \<Longrightarrow> floor_rises ffs_stored ffs_ok t st (floor_step c st)"
  using floor_fs.put_rises [OF _ surjective_pairing] floor_fs.reload_rises floor_fs.remove_rises
  by (cases c) auto

lemma floor_run_rises:
  "behind ffs_stored ffs_ok t st \<Longrightarrow> RemoveFloor t \<notin> set cmds \<Longrightarrow>
   floor_rises ffs_stored ffs_ok t st (fold floor_step cmds st)"
proof (induction cmds arbitrary: st)
  case Nil
  then show ?case by (simp add: floor_fs.floor_rises_refl)
next
  case (Cons c cmds)
  then have "floor_rises ffs_stored ffs_ok t st (floor_step c st)" using floor_step_rises [of t st c] by auto
  moreover from this have "behind ffs_stored ffs_ok t (floor_step c st)" by (simp add: floor_rises_def)
  ultimately show ?case using Cons floor_fs.floor_rises_trans [of t st] by simp
qed

lemma floors_open_behind:
  assumes "floors_open fs_floor_store s = Ok st"
  shows "behind ffs_stored ffs_ok t st \<and> flo_persisted st = s"
proof -
  obtain m where m: "ffs_load s = Ok m" and st: "st = \<lparr>flo_persisted = s, floors = m, verifier = None\<rparr>"
    and ids: "list_all (\<lambda>(ty, fl). case package_new ty (floor_version fl) of Inl _ \<Rightarrow> False | Inr _ \<Rightarrow> True) m"
    using assms by (auto simp: floors_open_def fs_floor_store_def split: sum.splits if_splits)
  have "bt_wf m" using m by (auto simp: ffs_load_def split: document.splits sum.splits)
  moreover have "list_all (\<lambda>(ty, fl). is_semver (floor_version fl)) m"
    using ids unfolding list_all_iff
    by (fastforce simp: package_new_def package_load_ok package_is_semver_def split: sum.splits if_splits)
  ultimately have "floors_wf m" by (simp add: floors_wf_def)
  moreover from this have "semver_opt (map_option floor_version (map_of m t))"
    by (auto simp: semver_opt_def floors_wf_lookup split: option.splits)
  ultimately show ?thesis
    using m by (simp add: st behind_def served_version_def stored_version_def ffs_ok_def ffs_stored_def floor_le_refl)
qed

text \<open>
  C7: The Server's floor of a type never falls. From a store the Server could open, after any sequence of floors put,
  reloads and removals of other types' floors, and whatever writes failed before or after they took effect, what is served of
  a type and what the file holds of it are each not below what they were, and what is served is not above what is stored.
\<close>

theorem server_floor_never_falls:
  assumes opened: "floors_open fs_floor_store s = Ok st" and kept: "RemoveFloor t \<notin> set cmds"
  shows "floor_le (served_version st t) (served_version (fold floor_step cmds st) t)
    \<and> floor_le (stored_version ffs_stored st t) (stored_version ffs_stored (fold floor_step cmds st) t)
    \<and> floor_le (served_version (fold floor_step cmds st) t) (stored_version ffs_stored (fold floor_step cmds st) t)"
  using floor_run_rises [OF conjunct1 [OF floors_open_behind [OF opened, of t]] kept]
  by (simp add: floor_rises_def behind_def)

definition sample_floors :: "floor_doc disk package_floors" where
  "sample_floors =
     \<lparr>flo_persisted = \<lparr>disk_content = Document [(''a'', \<lparr>meta_version = ''2.0.0'', meta_signature = []\<rparr>)],
        disk_outcomes = [IoLate]\<rparr>,
      floors = [(''a'', \<lparr>floor_version = ''2.0.0'', floor_signature = []\<rparr>)], verifier = None\<rparr>"

lemma server_floor_never_falls_witness:
  "floor_le (Some ''2.0.0'') (served_version (fold floor_step
     [PutFloor ''a'' ''1.0.0'' (replicate 64 CHR ''x''), PutFloor ''a'' ''3.0.0'' (replicate 64 CHR ''x''), ReloadFloors]
     sample_floors) ''a'')"
proof -
  have "ffs_load (flo_persisted sample_floors) = Ok (floors sample_floors)" by code_simp
  moreover have "list_all (\<lambda>(ty, fl). case package_new ty (floor_version fl) of Inl _ \<Rightarrow> False | Inr _ \<Rightarrow> True)
      (floors sample_floors)" by code_simp
  ultimately have "floors_open fs_floor_store (flo_persisted sample_floors) = Ok sample_floors"
    by (simp add: floors_open_def fs_floor_store_def) (simp add: sample_floors_def)
  moreover have "served_version sample_floors ''a'' = Some ''2.0.0''" by code_simp
  ultimately show ?thesis
    using server_floor_never_falls [of "flo_persisted sample_floors" sample_floors "''a''"
      "[PutFloor ''a'' ''1.0.0'' (replicate 64 CHR ''x''), PutFloor ''a'' ''3.0.0'' (replicate 64 CHR ''x''), ReloadFloors]"]
    by (simp del: fold.simps)
qed

section \<open>A Client's floors\<close>

datatype client_cmd = Update nat "unit + client_floors" | UpdateOlder nat nat "unit + client_floors"

fun client_step :: "client_cmd \<Rightarrow> floor_file \<Rightarrow> floor_file" where
  "client_step (Update now answer) st = floor_file_update now answer st"
| "client_step (UpdateOlder now age answer) st = update_older_than now age answer st"

definition version_at :: "client_floors \<Rightarrow> string \<Rightarrow> string option" where
  "version_at m t = map_option cf_version (map_of m t)"

definition client_semver :: "client_floors \<Rightarrow> bool" where
  "client_semver m \<longleftrightarrow> (\<forall>(ty, fl) \<in> set m. is_semver (cf_version fl))"

lemma parse_kept_semver: "client_semver m \<longleftrightarrow> parse_kept m = Ok m"
  by (auto simp: client_semver_def parse_kept_def list_ex_iff)

lemma version_at_semver: "client_semver m \<Longrightarrow> semver_opt (version_at m t)"
  by (auto simp: client_semver_def version_at_def semver_opt_def split: option.splits dest: map_of_SomeD)

text \<open>Where a floor of a type comes from: it was held at the start, or the key verified it.\<close>

definition floor_from :: "(string \<Rightarrow> string \<Rightarrow> bool) \<Rightarrow> client_floors \<Rightarrow> string \<Rightarrow> client_floors \<Rightarrow> bool" where
  "floor_from key m0 t m \<longleftrightarrow>
     map_of m t = map_of m0 t \<or> (\<exists>fl. map_of m t = Some fl \<and> floor_verifies key t fl)"

lemma floor_verifies_semver: "floor_verifies key t fl \<Longrightarrow> is_semver (cf_version fl)"
  by (auto simp: floor_verifies_def split: option.splits)

lemma take_one_rises:
  assumes m: "client_semver m" and one: "take_one key (ty, fl) (m, r) = (m', r')"
  shows "client_semver m' \<and> floor_le (version_at m t) (version_at m' t)
    \<and> (floor_from key m0 t m \<longrightarrow> floor_from key m0 t m') \<and> (r \<longrightarrow> r') \<and> (m' \<noteq> m \<longrightarrow> r')"
proof (cases "m' = m")
  case True
  then show ?thesis
    using m one version_at_semver [OF m, of t]
    by (auto simp: take_one_def floor_le_refl split: if_splits option.splits ordering.splits)
next
  case False
  then have ver: "floor_verifies key ty fl" and m': "m' = bt_insert ty fl m" "r'"
    and above: "\<And>held. map_of m ty = Some held \<Longrightarrow> precedence (cf_version fl) (cf_version held) = Some Greater"
    using one by (auto simp: take_one_def split: if_splits option.splits ordering.splits)
  have "client_semver m'"
    using m floor_verifies_semver [OF ver] set_bt_insert_subset [of ty fl m]
    by (auto simp: client_semver_def m')
  moreover have "floor_le (version_at m t) (version_at m' t)"
  proof (cases "t = ty")
    case True
    then show ?thesis using above by (cases "map_of m ty") (auto simp: version_at_def m' below_def)
  next
    case False
    then show ?thesis using version_at_semver [OF m, of t] floor_le_refl by (simp add: version_at_def m')
  qed
  moreover have "floor_from key m0 t m \<Longrightarrow> floor_from key m0 t m'"
    using ver by (auto simp: floor_from_def m')
  ultimately show ?thesis using m'(2) by blast
qed

lemma take_fold_rises:
  "client_semver m \<Longrightarrow> fold (take_one key) served (m, r) = (m', r') \<Longrightarrow>
   client_semver m' \<and> floor_le (version_at m t) (version_at m' t)
   \<and> (floor_from key m0 t m \<longrightarrow> floor_from key m0 t m') \<and> (r \<longrightarrow> r') \<and> (m' \<noteq> m \<longrightarrow> r')"
proof (induction served arbitrary: m r)
  case Nil
  then show ?case using version_at_semver [of m t] floor_le_refl by simp
next
  case (Cons e served)
  obtain ty fl m1 r1 where e: "e = (ty, fl)" "take_one key (ty, fl) (m, r) = (m1, r1)"
    by (metis surj_pair)
  note one = take_one_rises [OF Cons.prems(1) e(2), of t m0]
  have "fold (take_one key) served (m1, r1) = (m', r')" using Cons.prems(2) e by simp
  note IH = Cons.IH [OF conjunct1 [OF one] this]
  show ?case
    using one IH floor_le_trans [OF version_at_semver version_at_semver version_at_semver, of m m1 m' t t t] Cons.prems(1)
    by blast
qed

definition on_disk :: "client_floors \<Rightarrow> client_floors document \<Rightarrow> bool" where
  "on_disk m c \<longleftrightarrow> (case c of Document m' \<Rightarrow> m' = m | NoFile \<Rightarrow> m = [] | Unreadable \<Rightarrow> False)"

definition client_inv ::
  "(string \<Rightarrow> string \<Rightarrow> bool) option \<Rightarrow> client_floors document disk \<Rightarrow> string \<Rightarrow> floor_file \<Rightarrow> bool" where
  "client_inv key d t st \<longleftrightarrow> ff_key st = key \<and>
     (case kept (floor_file_open key d) of
        Inl _ \<Rightarrow> kept st = Err () \<and> ff_disk st = d
      | Inr m0 \<Rightarrow> \<exists>m. kept st = Ok m \<and> client_semver m \<and> client_semver m0 \<and> floor_le (version_at m0 t) (version_at m t)
          \<and> (map_of m t = map_of m0 t \<or> (\<exists>k. key = Some k \<and> floor_from k m0 t m))
          \<and> (disk_outcomes d = [] \<longrightarrow> disk_outcomes (ff_disk st) = [] \<and> on_disk m (disk_content (ff_disk st))))"

lemma parse_kept_Ok: "parse_kept m = Ok m0 \<longleftrightarrow> m0 = m \<and> client_semver m"
  by (auto simp: client_semver_def parse_kept_def list_ex_iff)

lemma client_inv_init: "client_inv key d t (floor_file_open key d)"
proof (cases "kept (floor_file_open key d)")
  case (Inr m)
  then have "client_semver m \<and> on_disk m (disk_content d)"
    by (auto simp: floor_file_open_def on_disk_def parse_kept_Ok client_semver_def split: document.splits)
  then show ?thesis
    using Inr version_at_semver [of m t] by (simp add: client_inv_def floor_le_refl) (simp add: floor_file_open_def)
qed (simp add: client_inv_def floor_file_open_def)

lemma client_inv_fetched: "client_inv key d t (st\<lparr>fetched := f\<rparr>) = client_inv key d t st"
  by (simp add: client_inv_def split: sum.split)

lemma floor_file_write_fine:
  "disk_outcomes d = [] \<Longrightarrow> disk_outcomes (floor_file_write m d) = [] \<and> disk_content (floor_file_write m d) = Document m"
  by (simp add: floor_file_write_def replace_doc_def next_io_def Let_def)

lemma client_inv_take:
  assumes inv: "client_inv key d t st"
  shows "client_inv key d t (floor_file_take served st)"
proof (cases "\<exists>k m. ff_key st = Some k \<and> kept st = Ok m")
  case False
  then have "floor_file_take served st = st"
    by (auto simp: floor_file_take_def split: option.splits sum.splits)
  then show ?thesis using inv by simp
next
  case True
  then obtain k m where k: "ff_key st = Some k" and m: "kept st = Ok m" by blast
  obtain m0 where m0: "kept (floor_file_open key d) = Ok m0"
    using inv m by (auto simp: client_inv_def split: sum.splits)
  then have inv_m: "key = Some k" "client_semver m" "client_semver m0" "floor_le (version_at m0 t) (version_at m t)"
    "floor_from k m0 t m"
    "disk_outcomes d = [] \<longrightarrow> disk_outcomes (ff_disk st) = [] \<and> on_disk m (disk_content (ff_disk st))"
    using inv m k by (auto simp: client_inv_def floor_from_def)
  obtain m' r where f: "fold (take_one k) served (m, False) = (m', r)" by (cases "fold (take_one k) served (m, False)")
  note rises = take_fold_rises [OF inv_m(2) f, of t m0]
  have st': "floor_file_take served st =
      st\<lparr>kept := Ok m', ff_disk := (if r then floor_file_write m' (ff_disk st) else ff_disk st)\<rparr>"
    using k m f by (simp add: floor_file_take_def)
  have "floor_le (version_at m0 t) (version_at m' t)"
    using floor_le_trans [OF version_at_semver version_at_semver version_at_semver, of m0 m m' t t t] inv_m rises by blast
  moreover have "disk_outcomes d = [] \<longrightarrow> disk_outcomes (ff_disk (floor_file_take served st)) = []
      \<and> on_disk m' (disk_content (ff_disk (floor_file_take served st)))"
    using inv_m(6) rises floor_file_write_fine [of "ff_disk st" m'] by (auto simp: st' on_disk_def)
  ultimately show ?thesis
    using m0 k inv_m rises by (simp add: client_inv_def st')
qed

lemma client_inv_step: "client_inv key d t st \<Longrightarrow> client_inv key d t (client_step c st)"
proof (induction c)
  have update: "client_inv key d t (floor_file_update now answer st)" if "client_inv key d t st" for now answer
    using that client_inv_take by (auto simp: floor_file_update_def Let_def client_inv_fetched split: sum.splits)
  case (Update now answer)
  then show ?case using update by simp
next
  case (UpdateOlder now age answer)
  then show ?case
    using client_inv_take by (auto simp: update_older_than_def floor_file_update_def Let_def client_inv_fetched split: sum.splits)
qed

interpretation client_machine: machine "\<lambda>st. st = floor_file_open key d" client_step "client_inv key d t" for key d t
  by unfold_locales (auto simp: client_inv_init client_inv_step)

lemma client_inv_floors:
  assumes inv: "client_inv key d t st"
  shows "case floor_of (floor_file_open key d) t of
      Inl e \<Rightarrow> floor_of st t = Err e \<and> ff_disk st = d
    | Inr v \<Rightarrow> (\<exists>w. floor_of st t = Ok w \<and> floor_le v w
        \<and> (w = v \<or> (\<exists>k x signature. key = Some k \<and> w = Some x \<and> is_semver x \<and> k (floor_statement t x) signature)))
        \<and> (disk_outcomes d = [] \<longrightarrow> floor_of (floor_file_open key (ff_disk st)) t = floor_of st t)"
proof (cases "kept (floor_file_open key d)")
  case (Inl e)
  then show ?thesis using inv by (simp add: client_inv_def floor_of_def)
next
  case (Inr m0)
  then obtain m where m: "kept st = Ok m" "client_semver m" "floor_le (version_at m0 t) (version_at m t)"
    "map_of m t = map_of m0 t \<or> (\<exists>k. key = Some k \<and> floor_from k m0 t m)"
    "disk_outcomes d = [] \<longrightarrow> on_disk m (disk_content (ff_disk st))"
    using inv by (auto simp: client_inv_def)
  have "version_at m t = version_at m0 t \<or>
      (\<exists>k x signature. key = Some k \<and> version_at m t = Some x \<and> is_semver x \<and> k (floor_statement t x) signature)"
    using m(4) by (auto simp: floor_from_def version_at_def floor_verifies_def split: option.splits)
  moreover have "kept (floor_file_open key (ff_disk st)) = Ok m" if "disk_outcomes d = []"
    using m(2,5) that by (auto simp: floor_file_open_def on_disk_def parse_kept_semver split: document.splits)
  ultimately show ?thesis using Inr m(1,3) by (simp add: floor_of_def version_at_def)
qed

text \<open>
  C8: Nothing a Server sends lowers a Client's floor, and only the operator's key raises it. A Client that starts on a file
  it cannot read refuses every type for as long as it runs and leaves the file alone. Otherwise, after any fetches of any
  floors whatever, the floor of each type is the one it started with or one whose statement the key verifies, is not below the
  one it started with, and, when no write failed, is what the Client reads from the file when it starts again.
\<close>

theorem client_floor_only_rises:
  "case floor_of (floor_file_open key d) t of
     Inl e \<Rightarrow> floor_of (fold client_step cmds (floor_file_open key d)) t = Err e
       \<and> ff_disk (fold client_step cmds (floor_file_open key d)) = d
   | Inr v \<Rightarrow> (\<exists>w. floor_of (fold client_step cmds (floor_file_open key d)) t = Ok w \<and> floor_le v w
       \<and> (w = v \<or> (\<exists>k x signature. key = Some k \<and> w = Some x \<and> is_semver x \<and> k (floor_statement t x) signature)))
       \<and> (disk_outcomes d = [] \<longrightarrow>
            floor_of (floor_file_open key (ff_disk (fold client_step cmds (floor_file_open key d)))) t
            = floor_of (fold client_step cmds (floor_file_open key d)) t)"
  by (rule client_inv_floors) (rule client_machine.reach_inv, rule refl)

text \<open>A Client with a key that verifies nothing but one signature over the floor 2.0.0 of type \<open>a\<close>.\<close>

definition sample_key :: "string \<Rightarrow> string \<Rightarrow> bool" where
  "sample_key statement signature \<longleftrightarrow> statement = floor_statement ''a'' ''2.0.0'' \<and> signature = [CHR 0xAB]"

lemma client_floor_only_rises_witness:
  "floor_of (floor_file_open (Some sample_key) (ff_disk (fold client_step
     [Update 0 (Ok [(''a'', \<lparr>cf_version = ''2.0.0'', cf_signature = ''ab''\<rparr>)]),
      UpdateOlder 60 60 (Ok [(''a'', \<lparr>cf_version = ''1.0.0'', cf_signature = ''ab''\<rparr>)])]
     (floor_file_open (Some sample_key) \<lparr>disk_content = NoFile, disk_outcomes = []\<rparr>)))) ''a'' = Ok (Some ''2.0.0'')"
proof -
  let ?cmds = "[Update 0 (Ok [(''a'', \<lparr>cf_version = ''2.0.0'', cf_signature = ''ab''\<rparr>)]),
      UpdateOlder 60 60 (Ok [(''a'', \<lparr>cf_version = ''1.0.0'', cf_signature = ''ab''\<rparr>)])]"
  let ?d = "\<lparr>disk_content = NoFile, disk_outcomes = []\<rparr> :: client_floors document disk"
  have "floor_of (fold client_step ?cmds (floor_file_open (Some sample_key) ?d)) ''a'' = Ok (Some ''2.0.0'')"
    by code_simp
  moreover have "floor_of (floor_file_open (Some sample_key) ?d) ''a'' = Ok None" by code_simp
  ultimately show ?thesis
    using client_floor_only_rises [where key = "Some sample_key" and d = ?d and t = "''a''" and cmds = ?cmds] by (simp del: fold.simps client_step.simps)
qed

end
