(* ===== verification/Subjects.thy ===== *)
theory Subjects
  imports Core_Rules
begin

text \<open>
  The subject of a certificate: the values a Host carries (\<open>fleet-server/src/revocation.rs\<close>, \<open>SubjectValues\<close>) and the
  attributes a bootstrap certificate is issued with and a host certificate carries over (\<open>fleet-server/src/bootstrap.rs\<close>).
\<close>

section \<open>Values and attributes\<close>

record subject_values =
  sv_country :: string
  sv_state :: string
  sv_locality :: string
  sv_organization :: string
  sv_organizational_unit :: string
  sv_organization_identifier :: string

definition no_values :: subject_values where
  "no_values = \<lparr>sv_country = [], sv_state = [], sv_locality = [], sv_organization = [],
     sv_organizational_unit = [], sv_organization_identifier = []\<rparr>"

definition values_attributes :: "subject_values \<Rightarrow> (string \<times> string) list" where
  "values_attributes v = filter (\<lambda>(_, value). value \<noteq> [])
     [(''fleet.host.country'', sv_country v), (''fleet.host.state'', sv_state v),
      (''fleet.host.locality'', sv_locality v), (''fleet.host.organization'', sv_organization v),
      (''fleet.host.site'', sv_organizational_unit v), (''fleet.host.organization_id'', sv_organization_identifier v)]"

definition values_is_empty :: "subject_values \<Rightarrow> bool" where
  "values_is_empty v \<longleftrightarrow> values_attributes v = []"

datatype attribute =
  Country | State | Locality | Organization | OrganizationalUnit | OrganizationIdentifier | CommonName

definition CARRIED :: "attribute list" where
  "CARRIED = [Country, State, Locality, Organization, OrganizationalUnit, OrganizationIdentifier]"

fun attribute_key :: "attribute \<Rightarrow> string" where
  "attribute_key Country = ''country''"
| "attribute_key State = ''state''"
| "attribute_key Locality = ''locality''"
| "attribute_key Organization = ''organization''"
| "attribute_key OrganizationalUnit = ''organizational_unit''"
| "attribute_key OrganizationIdentifier = ''organization_identifier''"
| "attribute_key CommonName = ''common_name''"

fun oid :: "attribute \<Rightarrow> string" where
  "oid Country = ''2.5.4.6''"
| "oid State = ''2.5.4.8''"
| "oid Locality = ''2.5.4.7''"
| "oid Organization = ''2.5.4.10''"
| "oid OrganizationalUnit = ''2.5.4.11''"
| "oid OrganizationIdentifier = ''2.5.4.97''"
| "oid CommonName = ''2.5.4.3''"

definition printable :: "attribute \<Rightarrow> bool" where
  "printable a \<longleftrightarrow> a = Country"

definition MAX_VALUE_CHARS :: nat where "MAX_VALUE_CHARS = 64"

datatype value_refusal = NotACountry | ValueLength attribute | ValueControl attribute | ValueRequired attribute

definition attribute_check :: "attribute \<Rightarrow> string \<Rightarrow> value_refusal + unit" where
  "attribute_check a v =
     (if a = Country then
        (if length v = 2 \<and> list_all is_ascii_uppercase v then Ok () else Err NotACountry)
      else if chars_count v = 0 \<or> chars_count v > MAX_VALUE_CHARS then Err (ValueLength a)
      else if has_control v then Err (ValueControl a)
      else Ok ())"

fun attribute_of :: "attribute \<Rightarrow> subject_values \<Rightarrow> string" where
  "attribute_of Country v = sv_country v"
| "attribute_of State v = sv_state v"
| "attribute_of Locality v = sv_locality v"
| "attribute_of Organization v = sv_organization v"
| "attribute_of OrganizationalUnit v = sv_organizational_unit v"
| "attribute_of OrganizationIdentifier v = sv_organization_identifier v"
| "attribute_of CommonName v = []"

fun attribute_set :: "attribute \<Rightarrow> subject_values \<Rightarrow> string \<Rightarrow> subject_values" where
  "attribute_set Country v x = v\<lparr>sv_country := x\<rparr>"
| "attribute_set State v x = v\<lparr>sv_state := x\<rparr>"
| "attribute_set Locality v x = v\<lparr>sv_locality := x\<rparr>"
| "attribute_set Organization v x = v\<lparr>sv_organization := x\<rparr>"
| "attribute_set OrganizationalUnit v x = v\<lparr>sv_organizational_unit := x\<rparr>"
| "attribute_set OrganizationIdentifier v x = v\<lparr>sv_organization_identifier := x\<rparr>"
| "attribute_set CommonName v x = v"

definition carried_attributes :: "subject_values \<Rightarrow> string \<Rightarrow> (attribute \<times> string) list" where
  "carried_attributes v common_name =
     map (\<lambda>a. (a, attribute_of a v)) (filter (\<lambda>a. attribute_of a v \<noteq> []) CARRIED) @ [(CommonName, common_name)]"

section \<open>The subject an operator names\<close>

record subject =
  su_country :: "string option"
  su_state :: "string option"
  su_locality :: "string option"
  su_organization :: "string option"
  su_organizational_unit :: "string option"
  su_organization_identifier :: "string option"

fun check_named :: "(attribute \<times> string option) list \<Rightarrow> value_refusal + (attribute \<times> string) list" where
  "check_named [] = Ok []"
| "check_named ((a, None) # xs) = check_named xs"
| "check_named ((a, Some v) # xs) =
     (case attribute_check a v of
        Inl e \<Rightarrow> Err e
      | Inr _ \<Rightarrow> (case check_named xs of Inl e \<Rightarrow> Err e | Inr r \<Rightarrow> Ok ((a, v) # r)))"

definition subject_attributes :: "subject \<Rightarrow> string \<Rightarrow> value_refusal + (attribute \<times> string) list" where
  "subject_attributes su common_name =
     (if su_organization su = None then Err (ValueRequired Organization)
      else if su_organizational_unit su = None then Err (ValueRequired OrganizationalUnit)
      else
        (case check_named
           [(Country, su_country su), (State, su_state su), (Locality, su_locality su),
            (Organization, su_organization su), (OrganizationalUnit, su_organizational_unit su),
            (OrganizationIdentifier, su_organization_identifier su)] of
           Inl e \<Rightarrow> Err e
         | Inr r \<Rightarrow> Ok (r @ [(CommonName, common_name)])))"

section \<open>What a host certificate carries over\<close>

text \<open>Putting the attributes of a certificate back one after the other.\<close>

definition values_from :: "(attribute \<times> string) list \<Rightarrow> subject_values" where
  "values_from xs = fold (\<lambda>(a, x) v. attribute_set a v x) xs no_values"

lemma attribute_of_set: "attribute_of b (attribute_set a v x) = (if a = b \<and> a \<noteq> CommonName then x else attribute_of b v)"
  by (cases a; cases b) simp_all

lemma attribute_of_fold:
  "distinct (map fst xs) \<Longrightarrow> CommonName \<notin> set (map fst xs) \<Longrightarrow>
   attribute_of b (fold (\<lambda>(a, x) v. attribute_set a v x) xs v)
   = (case map_of xs b of None \<Rightarrow> attribute_of b v | Some x \<Rightarrow> x)"
proof (induction xs arbitrary: v)
  case (Cons e xs)
  obtain a x where e: "e = (a, x)" by (cases e)
  have "map_of xs a = None" using Cons.prems e by (simp add: map_of_eq_None_iff)
  then show ?case using Cons e by (auto simp: attribute_of_set split: option.split)
qed simp

lemma values_eqI: "(\<And>a. a \<in> set CARRIED \<Longrightarrow> attribute_of a v = attribute_of a w) \<Longrightarrow> v = w" for v w :: subject_values
proof -
  assume *: "\<And>a. a \<in> set CARRIED \<Longrightarrow> attribute_of a v = attribute_of a w"
  show "v = w"
    using *[of Country] *[of State] *[of Locality] *[of Organization] *[of OrganizationalUnit] *[of OrganizationIdentifier]
    by (cases v; cases w) (simp add: CARRIED_def)
qed

lemma no_values_of [simp]: "attribute_of a no_values = []"
  by (cases a) (simp_all add: no_values_def)

lemma carried_roundtrip: "values_from (carried_attributes v common_name) = v"
proof (rule values_eqI)
  let ?xs = "map (\<lambda>a. (a, attribute_of a v)) (filter (\<lambda>a. attribute_of a v \<noteq> []) CARRIED)"
  fix a assume a: "a \<in> set CARRIED"
  have keys: "map fst ?xs = filter (\<lambda>a. attribute_of a v \<noteq> []) CARRIED" by (simp add: comp_def)
  have "distinct CARRIED" "CommonName \<notin> set CARRIED" by (simp_all add: CARRIED_def)
  then have d: "distinct (map fst ?xs)" "CommonName \<notin> set (map fst ?xs)"
    unfolding keys by (auto intro: distinct_filter)
  have "map_of ?xs a = (if attribute_of a v \<noteq> [] then Some (attribute_of a v) else None)"
  proof (cases "attribute_of a v \<noteq> []")
    case True
    then show ?thesis using a d(1) by (intro map_of_is_SomeI [OF d(1), THEN trans]) auto
  next
    case False
    then have "a \<notin> fst ` set ?xs" by auto
    then show ?thesis using False map_of_eq_None_iff [of ?xs a] by simp
  qed
  moreover have "values_from (carried_attributes v common_name) = fold (\<lambda>(a, x) v. attribute_set a v x) ?xs no_values"
    by (simp add: values_from_def carried_attributes_def)
  ultimately show "attribute_of a (values_from (carried_attributes v common_name)) = attribute_of a v"
    using attribute_of_fold [OF d, of a no_values] by simp
qed

lemma check_named_checked: "check_named xs = Ok r \<Longrightarrow>
   (\<forall>(a, x) \<in> set r. attribute_check a x = Ok () \<and> (a, Some x) \<in> set xs) \<and> (\<forall>a x. (a, Some x) \<in> set xs \<longrightarrow> (a, x) \<in> set r)"
  by (induction xs arbitrary: r rule: check_named.induct) (auto split: sum.splits)

end
