(* ===== verification/Enrolment.thy ===== *)
theory Enrolment
  imports Subjects Rate "HOL-Library.Product_Lexorder"
begin

text \<open>
  Enrolment (\<open>fleet-server/src/enrolment.rs\<close>): the window an operator holds open, the queue of requests that wait in it,
  and their persistence, with the filesystem adapter of the port (\<open>fleet-server/src/fs/enrolment.rs\<close>). What the CA signs and
  the register records is the step \<open>sign\<close> on a state of its own; the clock is read where the code reads it, and each reading
  is an argument. The port's default methods are definitions over an adapter's \<open>load\<close> and \<open>save\<close>.
\<close>

section \<open>Requests\<close>

definition MAX_WINDOW_SECS :: nat where "MAX_WINDOW_SECS = 86400"

definition MAX_PENDING :: nat where "MAX_PENDING = 1024"

definition DEFAULT_MAX_PENDING_PER_BOOTSTRAP :: nat where
  "DEFAULT_MAX_PENDING_PER_BOOTSTRAP = MAX_PENDING div 4"

record enrol_request =
  rq_csr_pem :: string
  rq_subject :: string
  rq_key_fingerprint :: string
  rq_instance_uid :: string

record requester =
  bootstrap_subject :: string
  carried :: "unit + subject_values"
  bootstrap_fingerprint :: string
  bootstrap :: cert_id
  peer :: "ip_addr option"
  via_gateway :: "string option"

record pending =
  pend_id :: string
  arrived_ms :: nat
  key_fingerprint :: string
  pend_requester :: requester

datatype decision_error = DecNotFound | DecRevoked | DecSubject | DecSign | DecStore | DecDeciding

datatype window_error = WindowInvalid | WindowStore

datatype decision = Approved string | Rejected

datatype approval = ApprovedNow decision | ApprovalNotWaiting | ApprovalRevoked | ApprovalRefused decision_error | ApprovalDeciding

datatype decided = Written | NotWaiting | Deciding

datatype submitted = Waiting | IssuedCert string | RejectedRequest | Full | OverShare bool | Closed

record persisted_request =
  pr_id :: string
  pr_arrived_ms :: nat
  pr_key_fingerprint :: string
  pr_requester :: requester
  pr_csr_pem :: string
  pr_instance_uid :: string
  pr_decision :: "decision option"

record persisted_queue =
  pq_until_ms :: "nat option"
  pq_requests :: "persisted_request list"

definition empty_queue :: persisted_queue where
  "empty_queue = \<lparr>pq_until_ms = None, pq_requests = []\<rparr>"

datatype took = TookAdded | TookHeld persisted_request | TookFull | TookOverShare | TookClosed

section \<open>The port\<close>

type_synonym 'x signing = "'x \<Rightarrow> (decision_error + decision) \<times> 'x"

record ('s, 'x) enrolment_store =
  es_load :: "'s \<Rightarrow> unit + persisted_queue option"
  es_save :: "persisted_queue \<Rightarrow> 's \<Rightarrow> (unit + unit) \<times> 's"
  es_take :: "persisted_request \<Rightarrow> nat \<Rightarrow> nat \<Rightarrow> nat \<Rightarrow> 's \<Rightarrow> (unit + took) \<times> 's"
  es_decide :: "string \<Rightarrow> decision \<Rightarrow> 's \<Rightarrow> (unit + decided) \<times> 's"
  es_approve :: "string \<Rightarrow> cert_id \<Rightarrow> 'x signing \<Rightarrow> 'x \<Rightarrow> 's \<Rightarrow> (unit + approval) \<times> 'x \<times> 's"
  es_withdraw_bootstrap :: "string list \<Rightarrow> string \<Rightarrow> 's \<Rightarrow> (unit + nat) \<times> 's"
  es_withdraw :: "string list \<Rightarrow> 's \<Rightarrow> (unit + unit) \<times> 's"
  es_open_window :: "nat \<Rightarrow> 's \<Rightarrow> (unit + unit) \<times> 's"
  es_close_window :: "'s \<Rightarrow> (unit + unit) \<times> 's"
  es_end_window :: "nat \<Rightarrow> 's \<Rightarrow> (unit + bool) \<times> 's"

type_synonym 's loading = "'s \<Rightarrow> unit + persisted_queue option"
type_synonym 's saving = "persisted_queue \<Rightarrow> 's \<Rightarrow> (unit + unit) \<times> 's"

definition or_default :: "persisted_queue option \<Rightarrow> persisted_queue" where
  "or_default q = (case q of None \<Rightarrow> empty_queue | Some p \<Rightarrow> p)"

text \<open>\<open>self.save(..)?\<close>, and then the answer.\<close>

definition save_then :: "'s saving \<Rightarrow> persisted_queue \<Rightarrow> 'a \<Rightarrow> 's \<Rightarrow> (unit + 'a) \<times> 's" where
  "save_then save q a s = (case save q s of (Inl e, s') \<Rightarrow> (Err e, s') | (Inr _, s') \<Rightarrow> (Ok a, s'))"

definition share_of :: "cert_id \<Rightarrow> persisted_request list \<Rightarrow> nat" where
  "share_of b rs = length (filter (\<lambda>r. bootstrap (pr_requester r) = b) rs)"

definition default_take ::
  "'s loading \<Rightarrow> 's saving \<Rightarrow> persisted_request \<Rightarrow> nat \<Rightarrow> nat \<Rightarrow> nat \<Rightarrow> 's \<Rightarrow> (unit + took) \<times> 's" where
  "default_take load save r now limit max_per_bootstrap s =
     (case load s of
        Inl e \<Rightarrow> (Err e, s)
      | Inr loaded \<Rightarrow>
        (let p = or_default loaded in
         if (case pq_until_ms p of None \<Rightarrow> True | Some until \<Rightarrow> until \<le> now) then (Ok TookClosed, s)
         else (case find (\<lambda>q. pr_id q = pr_id r) (pq_requests p) of
           Some held \<Rightarrow> (Ok (TookHeld held), s)
         | None \<Rightarrow>
           if limit \<le> length (pq_requests p) then (Ok TookFull, s)
           else if max_per_bootstrap \<le> share_of (bootstrap (pr_requester r)) (pq_requests p) then (Ok TookOverShare, s)
           else save_then save (p\<lparr>pq_requests := pq_requests p @ [r]\<rparr>) TookAdded s)))"

definition is_waiting :: "string \<Rightarrow> persisted_request \<Rightarrow> bool" where
  "is_waiting i r \<longleftrightarrow> pr_id r = i \<and> pr_decision r = None"

text \<open>Deciding the first request that waits under an id.\<close>

fun decide_first :: "string \<Rightarrow> decision \<Rightarrow> persisted_request list \<Rightarrow> persisted_request list" where
  "decide_first i d [] = []"
| "decide_first i d (r # rs) = (if is_waiting i r then r\<lparr>pr_decision := Some d\<rparr> # rs else r # decide_first i d rs)"

definition default_decide ::
  "'s loading \<Rightarrow> 's saving \<Rightarrow> string \<Rightarrow> decision \<Rightarrow> 's \<Rightarrow> (unit + decided) \<times> 's" where
  "default_decide load save i d s =
     (case load s of
        Inl e \<Rightarrow> (Err e, s)
      | Inr loaded \<Rightarrow>
        (let p = or_default loaded in
         if \<not> list_ex (is_waiting i) (pq_requests p) then (Ok NotWaiting, s)
         else save_then save (p\<lparr>pq_requests := decide_first i d (pq_requests p)\<rparr>) Written s))"

definition default_approve ::
  "'s loading \<Rightarrow> 's saving \<Rightarrow> string \<Rightarrow> cert_id \<Rightarrow> 'x signing \<Rightarrow> 'x \<Rightarrow> 's \<Rightarrow> (unit + approval) \<times> 'x \<times> 's" where
  "default_approve load save i b sign x s =
     (case load s of
        Inl e \<Rightarrow> (Err e, x, s)
      | Inr loaded \<Rightarrow>
        (let p = or_default loaded in
         if \<not> list_ex (is_waiting i) (pq_requests p) then (Ok ApprovalNotWaiting, x, s)
         else (case sign x of
             (Inl e, x') \<Rightarrow> (Ok (ApprovalRefused e), x', s)
           | (Inr d, x') \<Rightarrow>
             (case save_then save (p\<lparr>pq_requests := decide_first i d (pq_requests p)\<rparr>) (ApprovedNow d) s of
                (r, s') \<Rightarrow> (r, x', s')))))"

definition default_withdraw_bootstrap ::
  "'s loading \<Rightarrow> 's saving \<Rightarrow> string list \<Rightarrow> string \<Rightarrow> 's \<Rightarrow> (unit + nat) \<times> 's" where
  "default_withdraw_bootstrap load save issuers serial s =
     (case load s of
        Inl e \<Rightarrow> (Err e, s)
      | Inr None \<Rightarrow> (Ok 0, s)
      | Inr (Some p) \<Rightarrow>
        (let kept = filter (\<lambda>r. pr_decision r \<noteq> None \<or> snd (bootstrap (pr_requester r)) \<noteq> serial
                          \<or> fst (bootstrap (pr_requester r)) \<notin> set issuers) (pq_requests p);
             withdrawn = length (pq_requests p) - length kept in
         if 0 < withdrawn then save_then save (p\<lparr>pq_requests := kept\<rparr>) withdrawn s else (Ok withdrawn, s)))"

definition default_withdraw :: "'s loading \<Rightarrow> 's saving \<Rightarrow> string list \<Rightarrow> 's \<Rightarrow> (unit + unit) \<times> 's" where
  "default_withdraw load save ids s =
     (case load s of
        Inl e \<Rightarrow> (Err e, s)
      | Inr None \<Rightarrow> (Ok (), s)
      | Inr (Some p) \<Rightarrow>
        save (p\<lparr>pq_requests := filter (\<lambda>r. pr_decision r \<noteq> None \<or> pr_id r \<notin> set ids) (pq_requests p)\<rparr>) s)"

definition default_open_window :: "'s loading \<Rightarrow> 's saving \<Rightarrow> nat \<Rightarrow> 's \<Rightarrow> (unit + unit) \<times> 's" where
  "default_open_window load save until s =
     (case load s of
        Inl e \<Rightarrow> (Err e, s)
      | Inr loaded \<Rightarrow> save ((or_default loaded)\<lparr>pq_until_ms := Some until\<rparr>) s)"

definition default_close_window :: "'s saving \<Rightarrow> 's \<Rightarrow> (unit + unit) \<times> 's" where
  "default_close_window save s = save empty_queue s"

definition default_end_window :: "'s loading \<Rightarrow> 's saving \<Rightarrow> nat \<Rightarrow> 's \<Rightarrow> (unit + bool) \<times> 's" where
  "default_end_window load save until s =
     (case load s of
        Inl e \<Rightarrow> (Err e, s)
      | Inr loaded \<Rightarrow>
        if pq_until_ms (or_default loaded) \<noteq> Some until then (Ok False, s) else save_then save empty_queue True s)"

definition default_store :: "'s loading \<Rightarrow> 's saving \<Rightarrow> ('s, 'x) enrolment_store" where
  "default_store load save =
     \<lparr>es_load = load, es_save = save, es_take = default_take load save, es_decide = default_decide load save,
      es_approve = default_approve load save, es_withdraw_bootstrap = default_withdraw_bootstrap load save,
      es_withdraw = default_withdraw load save, es_open_window = default_open_window load save,
      es_close_window = default_close_window save, es_end_window = default_end_window load save\<rparr>"

section \<open>The filesystem adapter\<close>

text \<open>\<open>enrolment.json\<close>: \<open>Some None\<close> is a file that cannot be read or parsed.\<close>

type_synonym enrolment_file = "persisted_queue option option"

definition efs_load :: "enrolment_file disk loading" where
  "efs_load s =
     (case disk_content s of None \<Rightarrow> Ok None | Some None \<Rightarrow> Err () | Some (Some p) \<Rightarrow> Ok (Some p))"

definition efs_save :: "enrolment_file disk saving" where
  "efs_save p s = (case replace_doc (\<lambda>_. Some (Some p)) s of (ok, s') \<Rightarrow> (if ok then Ok () else Err (), s'))"

definition fs_enrolment_store :: "(enrolment_file disk, 'x) enrolment_store" where
  "fs_enrolment_store = default_store efs_load efs_save"

section \<open>The window and its queue in memory\<close>

record queue_entry =
  qe_pending :: pending
  qe_csr_pem :: string
  qe_instance_uid :: string
  qe_decision :: "decision option"

record queue_state =
  window_until_ms :: "nat option"
  queue_entries :: "(string, queue_entry) btree"
  over_share :: "cert_id bset"

definition no_queue :: queue_state where
  "no_queue = \<lparr>window_until_ms = None, queue_entries = [], over_share = []\<rparr>"

definition entry_persisted :: "queue_entry \<Rightarrow> persisted_request" where
  "entry_persisted e =
     \<lparr>pr_id = pend_id (qe_pending e), pr_arrived_ms = arrived_ms (qe_pending e),
      pr_key_fingerprint = key_fingerprint (qe_pending e), pr_requester = pend_requester (qe_pending e),
      pr_csr_pem = qe_csr_pem e, pr_instance_uid = hex_encode (qe_instance_uid e), pr_decision = qe_decision e\<rparr>"

definition entry_restored :: "persisted_request \<Rightarrow> unit + queue_entry" where
  "entry_restored r =
     (case hex_decode (pr_instance_uid r) of
        None \<Rightarrow> Err ()
      | Some uid \<Rightarrow> Ok
          \<lparr>qe_pending = \<lparr>pend_id = pr_id r, arrived_ms = pr_arrived_ms r, key_fingerprint = pr_key_fingerprint r,
             pend_requester = pr_requester r\<rparr>,
           qe_csr_pem = pr_csr_pem r, qe_instance_uid = uid, qe_decision = pr_decision r\<rparr>)"

definition state_took :: "queue_state \<Rightarrow> queue_entry \<Rightarrow> nat \<Rightarrow> nat \<Rightarrow> took" where
  "state_took st e limit max_per_bootstrap =
     (if limit \<le> length (queue_entries st) then TookFull
      else if max_per_bootstrap \<le> length (filter (\<lambda>h. bootstrap (pend_requester (qe_pending h))
                                                     = bootstrap (pend_requester (qe_pending e)))
                                     (map snd (queue_entries st)))
      then TookOverShare else TookAdded)"

fun restore_entries :: "persisted_request list \<Rightarrow> (string, queue_entry) btree \<Rightarrow> unit + (string, queue_entry) btree" where
  "restore_entries [] m = Ok m"
| "restore_entries (r # rs) m =
     (case entry_restored r of
        Inl e \<Rightarrow> Err e
      | Inr e \<Rightarrow> restore_entries rs (bt_insert (pend_id (qe_pending e)) e m))"

definition state_restored :: "persisted_queue \<Rightarrow> unit + queue_state" where
  "state_restored p =
     (case restore_entries (pq_requests p) [] of
        Inl e \<Rightarrow> Err e
      | Inr m \<Rightarrow> Ok \<lparr>window_until_ms = pq_until_ms p, queue_entries = m, over_share = []\<rparr>)"

fun enrol_answer :: "decision option \<Rightarrow> submitted" where
  "enrol_answer None = Waiting"
| "enrol_answer (Some (Approved cert)) = IssuedCert cert"
| "enrol_answer (Some Rejected) = RejectedRequest"

text \<open>
  \<open>changes\<close> counts what the watch channel was told; the audit is \<open>Some\<close> of the windows recorded as run out, each with its
  end and the requests that expired with it, once \<open>set_audit\<close> has set one.
\<close>

record ('s, 'x) enrolment =
  en_state :: queue_state
  max_per_bootstrap :: nat
  en_store :: "('s, 'x) enrolment_store option"
  en_persisted :: 's
  changes :: nat
  en_audit :: "(nat \<times> nat) list option"

definition enrolment_new :: "'s \<Rightarrow> ('s, 'x) enrolment" where
  "enrolment_new s =
     \<lparr>en_state = no_queue, max_per_bootstrap = DEFAULT_MAX_PENDING_PER_BOOTSTRAP, en_store = None, en_persisted = s,
      changes = 0, en_audit = None\<rparr>"

definition load_state :: "('s, 'x) enrolment_store \<Rightarrow> 's \<Rightarrow> unit + queue_state" where
  "load_state store s =
     (case es_load store s of
        Inl e \<Rightarrow> Err e
      | Inr None \<Rightarrow> Ok no_queue
      | Inr (Some p) \<Rightarrow> state_restored p)"

definition open_on :: "('s, 'x) enrolment_store \<Rightarrow> nat \<Rightarrow> 's \<Rightarrow> (unit + ('s, 'x) enrolment) \<times> 's" where
  "open_on store now s =
     (let made = (\<lambda>st s. \<lparr>en_state = st, max_per_bootstrap = DEFAULT_MAX_PENDING_PER_BOOTSTRAP, en_store = Some store,
                         en_persisted = s, changes = 0, en_audit = None\<rparr>) in
      case load_state store s of
        Inl e \<Rightarrow> (Err e, s)
      | Inr st \<Rightarrow>
        (case window_until_ms st of
           Some until \<Rightarrow>
             if until \<le> now
             then (case es_end_window store until s of
                     (Inl e, s') \<Rightarrow> (Err e, s') | (Inr _, s') \<Rightarrow> (Ok (made no_queue s'), s'))
             else (Ok (made st s), s)
         | None \<Rightarrow>
             if queue_entries st \<noteq> []
             then (case es_close_window store s of
                     (Inl e, s') \<Rightarrow> (Err e, s') | (Inr _, s') \<Rightarrow> (Ok (made no_queue s'), s'))
             else (Ok (made st s), s)))"

definition with_max_pending_per_bootstrap :: "nat \<Rightarrow> ('s, 'x) enrolment \<Rightarrow> ('s, 'x) enrolment" where
  "with_max_pending_per_bootstrap m en = en\<lparr>max_per_bootstrap := max 1 (min m MAX_PENDING)\<rparr>"

definition on_store ::
  "(('s, 'x) enrolment_store \<Rightarrow> 's \<Rightarrow> (unit + unit) \<times> 's) \<Rightarrow> ('s, 'x) enrolment \<Rightarrow> (unit + unit) \<times> ('s, 'x) enrolment" where
  "on_store act en =
     (case en_store en of
        None \<Rightarrow> (Ok (), en)
      | Some store \<Rightarrow> (case act store (en_persisted en) of (r, s') \<Rightarrow> (r, en\<lparr>en_persisted := s'\<rparr>)))"

definition set_audit :: "('s, 'x) enrolment \<Rightarrow> ('s, 'x) enrolment" where
  "set_audit en = (if en_audit en = None then en\<lparr>en_audit := Some []\<rparr> else en)"

definition changed :: "('s, 'x) enrolment \<Rightarrow> ('s, 'x) enrolment" where
  "changed en = en\<lparr>changes := Suc (changes en)\<rparr>"

definition open_window :: "nat \<Rightarrow> nat \<Rightarrow> ('s, 'x) enrolment \<Rightarrow> (window_error + nat) \<times> ('s, 'x) enrolment" where
  "open_window now secs en =
     (if \<not> (1 \<le> secs \<and> secs \<le> MAX_WINDOW_SECS) then (Err WindowInvalid, en)
      else
        (let until = now + secs * 1000 in
         case on_store (\<lambda>store. es_open_window store until) en of
           (Inl _, en') \<Rightarrow> (Err WindowStore, en')
         | (Inr _, en') \<Rightarrow> (Ok until, changed (en'\<lparr>en_state := (en_state en')\<lparr>window_until_ms := Some until\<rparr>\<rparr>))))"

definition close_window :: "('s, 'x) enrolment \<Rightarrow> (unit + unit) \<times> ('s, 'x) enrolment" where
  "close_window en =
     (case on_store es_close_window (en\<lparr>en_state := no_queue\<rparr>) of (saved, en') \<Rightarrow> (saved, changed en'))"

definition expire :: "nat \<Rightarrow> ('s, 'x) enrolment \<Rightarrow> nat option \<times> ('s, 'x) enrolment" where
  "expire now en =
     (case window_until_ms (en_state en) of
        None \<Rightarrow> (None, en)
      | Some until \<Rightarrow>
        if now < until then (Some until, en)
        else
          (let expired = length (filter (\<lambda>e. qe_decision e = None) (map snd (queue_entries (en_state en))));
               en1 = en\<lparr>en_state := no_queue\<rparr>;
               (ended, en2) = (case en_store en1 of
                   None \<Rightarrow> (True, en1)
                 | Some store \<Rightarrow>
                   (case es_end_window store until (en_persisted en1) of
                      (Inl _, s') \<Rightarrow> (True, en1\<lparr>en_persisted := s'\<rparr>)
                    | (Inr b, s') \<Rightarrow> (b, en1\<lparr>en_persisted := s'\<rparr>)));
               en3 = (if ended then en2\<lparr>en_audit := map_option (\<lambda>l. l @ [(until, expired)]) (en_audit en2)\<rparr> else en2) in
           (None, changed en3)))"

definition window :: "nat \<Rightarrow> ('s, 'x) enrolment \<Rightarrow> nat option \<times> ('s, 'x) enrolment" where
  "window now en = expire now en"

definition is_open :: "nat \<Rightarrow> ('s, 'x) enrolment \<Rightarrow> bool \<times> ('s, 'x) enrolment" where
  "is_open now en = (case window now en of (w, en') \<Rightarrow> (w \<noteq> None, en'))"

definition put_entry :: "string \<Rightarrow> queue_entry \<Rightarrow> ('s, 'x) enrolment \<Rightarrow> ('s, 'x) enrolment" where
  "put_entry i e en = en\<lparr>en_state := (en_state en)\<lparr>queue_entries := bt_insert i e (queue_entries (en_state en))\<rparr>\<rparr>"

definition drop_entries :: "string list \<Rightarrow> ('s, 'x) enrolment \<Rightarrow> ('s, 'x) enrolment" where
  "drop_entries ids en = en\<lparr>en_state := (en_state en)\<lparr>queue_entries := fold bt_remove ids (queue_entries (en_state en))\<rparr>\<rparr>"

definition decide_entry :: "string \<Rightarrow> decision \<Rightarrow> ('s, 'x) enrolment \<Rightarrow> ('s, 'x) enrolment" where
  "decide_entry i d en =
     en\<lparr>en_state := (en_state en)\<lparr>queue_entries :=
        bt_adjust i (\<lambda>e. e\<lparr>qe_decision := Some d\<rparr>) (queue_entries (en_state en))\<rparr>\<rparr>"

text \<open>\<open>submit\<close> reads the clock for the window, for the arrival and for the store.\<close>

definition request_entry :: "nat \<Rightarrow> enrol_request \<Rightarrow> requester \<Rightarrow> queue_entry" where
  "request_entry arrived rq who =
     \<lparr>qe_pending = \<lparr>pend_id = rq_key_fingerprint rq, arrived_ms = arrived, key_fingerprint = rq_key_fingerprint rq,
        pend_requester = who\<rparr>,
      qe_csr_pem = rq_csr_pem rq, qe_instance_uid = rq_instance_uid rq, qe_decision = None\<rparr>"

definition submit ::
  "nat \<Rightarrow> nat \<Rightarrow> nat \<Rightarrow> enrol_request \<Rightarrow> requester \<Rightarrow> ('s, 'x) enrolment \<Rightarrow> submitted \<times> ('s, 'x) enrolment" where
  "submit now arrived taken rq who en0 =
     (case expire now en0 of
        (None, en) \<Rightarrow> (Closed, en)
      | (Some _, en) \<Rightarrow>
        (case map_of (queue_entries (en_state en)) (rq_key_fingerprint rq) of
           Some e \<Rightarrow> (enrol_answer (qe_decision e), en)
         | None \<Rightarrow>
           (let i = rq_key_fingerprint rq;
                e = request_entry arrived rq who;
                (took, en1) = (case en_store en of
                    None \<Rightarrow> (Ok (state_took (en_state en) e MAX_PENDING (max_per_bootstrap en)), en)
                  | Some store \<Rightarrow>
                    (case es_take store (entry_persisted e) taken MAX_PENDING (max_per_bootstrap en) (en_persisted en) of
                       (r, s') \<Rightarrow> (r, en\<lparr>en_persisted := s'\<rparr>))) in
            case took of
              Inl _ \<Rightarrow> (Full, en1)
            | Inr TookAdded \<Rightarrow> (Waiting, changed (put_entry i e en1))
            | Inr (TookHeld held) \<Rightarrow>
                (case entry_restored held of
                   Inr h \<Rightarrow> (enrol_answer (qe_decision h), put_entry i h en1)
                 | Inl _ \<Rightarrow> (Full, en1))
            | Inr TookFull \<Rightarrow> (Full, en1)
            | Inr TookOverShare \<Rightarrow>
                (OverShare (bootstrap who \<notin> set (over_share (en_state en1))),
                 en1\<lparr>en_state := (en_state en1)\<lparr>over_share := bs_insert (bootstrap who) (over_share (en_state en1))\<rparr>\<rparr>)
            | Inr TookClosed \<Rightarrow> (Closed, en1))))"

definition pending_requests :: "nat \<Rightarrow> ('s, 'x) enrolment \<Rightarrow> pending list \<times> ('s, 'x) enrolment" where
  "pending_requests now en0 =
     (case expire now en0 of
        (_, en) \<Rightarrow>
          (sort_key arrived_ms (map qe_pending (filter (\<lambda>e. qe_decision e = None) (map snd (queue_entries (en_state en))))), en))"

definition withdrawn :: "string \<Rightarrow> ('s, 'x) enrolment \<Rightarrow> ('s, 'x) enrolment" where
  "withdrawn i en = changed (snd (on_store (\<lambda>store. es_withdraw store [i]) (drop_entries [i] en)))"

text \<open>
  What an approval signs: \<open>sign\<close> is the CA's answer to the request, the host and the carried values, and \<open>record\<close> what keeps
  it, with the \<open>instance_uid\<close> and the bootstrap certificate.
\<close>

definition signing ::
  "(string \<Rightarrow> subject_values \<Rightarrow> unit + string) \<Rightarrow> (string \<Rightarrow> string \<Rightarrow> cert_id \<Rightarrow> 'x \<Rightarrow> (decision_error + unit) \<times> 'x)
   \<Rightarrow> queue_entry \<Rightarrow> subject_values \<Rightarrow> 'x signing" where
  "signing sign rec_cert e values x =
     (case sign (qe_csr_pem e) values of
        Inl _ \<Rightarrow> (Err DecSign, x)
      | Inr pem \<Rightarrow>
        (case rec_cert pem (qe_instance_uid e) (bootstrap (pend_requester (qe_pending e))) x of
           (Inl err, x') \<Rightarrow> (Err err, x')
         | (Inr _, x') \<Rightarrow> (Ok (Approved pem), x')))"

definition approve ::
  "nat \<Rightarrow> string \<Rightarrow> (string \<Rightarrow> subject_values \<Rightarrow> unit + string)
   \<Rightarrow> (string \<Rightarrow> string \<Rightarrow> cert_id \<Rightarrow> 'x \<Rightarrow> (decision_error + unit) \<times> 'x) \<Rightarrow> (cert_id \<Rightarrow> bool)
   \<Rightarrow> 'x \<Rightarrow> ('s, 'x) enrolment \<Rightarrow> (decision_error + unit) \<times> 'x \<times> ('s, 'x) enrolment" where
  "approve now i sign rec_cert revoked x en0 =
     (let en = snd (expire now en0) in
      case map_of (queue_entries (en_state en)) i of
        None \<Rightarrow> (Err DecNotFound, x, en)
      | Some e \<Rightarrow>
        if qe_decision e \<noteq> None then (Err DecNotFound, x, en)
        else if revoked (bootstrap (pend_requester (qe_pending e))) then (Err DecRevoked, x, withdrawn i en)
        else (case carried (pend_requester (qe_pending e)) of
            Inl _ \<Rightarrow> (Err DecSubject, x, en)
          | Inr values \<Rightarrow>
            (let (approval, x', en1) = (case en_store en of
                 Some store \<Rightarrow>
                   (case es_approve store i (bootstrap (pend_requester (qe_pending e))) (signing sign rec_cert e values) x
                           (en_persisted en) of
                      (r, x', s') \<Rightarrow> (r, x', en\<lparr>en_persisted := s'\<rparr>))
               | None \<Rightarrow>
                   (case signing sign rec_cert e values x of
                      (Inr d, x') \<Rightarrow> (Ok (ApprovedNow d), x', en)
                    | (Inl err, x') \<Rightarrow> (Ok (ApprovalRefused err), x', en))) in
             case approval of
               Inl _ \<Rightarrow> (Err DecStore, x', en1)
             | Inr (ApprovedNow d) \<Rightarrow> (Ok (), x', changed (decide_entry i d en1))
             | Inr ApprovalNotWaiting \<Rightarrow> (Err DecNotFound, x', drop_entries [i] en1)
             | Inr ApprovalRevoked \<Rightarrow> (Err DecRevoked, x', withdrawn i en1)
             | Inr (ApprovalRefused err) \<Rightarrow>
                 if err = DecRevoked then (Err DecRevoked, x', withdrawn i en1) else (Err err, x', en1)
             | Inr ApprovalDeciding \<Rightarrow> (Err DecDeciding, x', en1))))"

definition decided_entry :: "string \<Rightarrow> decision \<Rightarrow> ('s, 'x) enrolment \<Rightarrow> (decision_error + unit) \<times> ('s, 'x) enrolment" where
  "decided_entry i d en =
     (let (decided, en1) = (case en_store en of
          None \<Rightarrow> (Ok Written, en)
        | Some store \<Rightarrow> (case es_decide store i d (en_persisted en) of (r, s') \<Rightarrow> (r, en\<lparr>en_persisted := s'\<rparr>))) in
      case decided of
        Inl _ \<Rightarrow> (Err DecStore, en1)
      | Inr NotWaiting \<Rightarrow> (Err DecNotFound, drop_entries [i] en1)
      | Inr Deciding \<Rightarrow> (Err DecDeciding, en1)
      | Inr Written \<Rightarrow> (Ok (), decide_entry i d en1))"

definition reject :: "nat \<Rightarrow> string \<Rightarrow> ('s, 'x) enrolment \<Rightarrow> (decision_error + unit) \<times> ('s, 'x) enrolment" where
  "reject now i en0 =
     (let en = snd (expire now en0) in
      case map_of (queue_entries (en_state en)) i of
        None \<Rightarrow> (Err DecNotFound, en)
      | Some e \<Rightarrow>
        if qe_decision e \<noteq> None then (Err DecNotFound, en)
        else (case decided_entry i Rejected en of
                (Inl err, en') \<Rightarrow> (Err err, en') | (Inr _, en') \<Rightarrow> (Ok (), changed en')))"

definition waiting_ids :: "(cert_id \<Rightarrow> bool) \<Rightarrow> ('s, 'x) enrolment \<Rightarrow> string list" where
  "waiting_ids P en =
     map (\<lambda>e. pend_id (qe_pending e))
       (filter (\<lambda>e. qe_decision e = None \<and> P (bootstrap (pend_requester (qe_pending e))))
          (map snd (queue_entries (en_state en))))"

definition withdraw :: "(cert_id \<Rightarrow> bool) \<Rightarrow> ('s, 'x) enrolment \<Rightarrow> nat \<times> ('s, 'x) enrolment" where
  "withdraw revoked en =
     (let ids = waiting_ids revoked en;
          en1 = drop_entries ids en;
          n = length ids in
      if 0 < n then (n, changed (snd (on_store (\<lambda>store. es_withdraw store ids) en1))) else (n, en1))"

definition withdraw_revoked :: "string list \<Rightarrow> string \<Rightarrow> ('s, 'x) enrolment \<Rightarrow> nat \<times> ('s, 'x) enrolment" where
  "withdraw_revoked issuers serial en =
     (let ids = waiting_ids (\<lambda>b. snd b = serial \<and> fst b \<in> set issuers) en;
          en1 = drop_entries ids en;
          (n, en2) = (case en_store en1 of
              None \<Rightarrow> (length ids, en1)
            | Some store \<Rightarrow>
              (case es_withdraw_bootstrap store issuers serial (en_persisted en1) of
                 (Inl _, s') \<Rightarrow> (length ids, en1\<lparr>en_persisted := s'\<rparr>)
               | (Inr k, s') \<Rightarrow> (k, en1\<lparr>en_persisted := s'\<rparr>))) in
      (n, if 0 < n \<or> ids \<noteq> [] then changed en2 else en2))"

definition is_rejected :: "string \<Rightarrow> ('s, 'x) enrolment \<Rightarrow> bool" where
  "is_rejected key en \<longleftrightarrow> Option.bind (map_of (queue_entries (en_state en)) key) qe_decision = Some Rejected"

definition enrol_reload :: "('s, 'x) enrolment \<Rightarrow> (unit + unit) \<times> ('s, 'x) enrolment" where
  "enrol_reload en =
     (case en_store en of
        None \<Rightarrow> (Ok (), en)
      | Some store \<Rightarrow>
        (case load_state store (en_persisted en) of
           Inl e \<Rightarrow> (Err e, en)
         | Inr found \<Rightarrow>
           (Ok (), changed (en\<lparr>en_state :=
              (if window_until_ms found = window_until_ms (en_state en)
               then found\<lparr>over_share := over_share (en_state en)\<rparr> else found)\<rparr>))))"

section \<open>The contract of the port\<close>

definition open_at :: "nat \<Rightarrow> persisted_queue \<Rightarrow> bool" where
  "open_at now q \<longleftrightarrow> (case pq_until_ms q of None \<Rightarrow> False | Some until \<Rightarrow> now < until)"

definition q_waits :: "string \<Rightarrow> persisted_queue \<Rightarrow> bool" where
  "q_waits i q \<longleftrightarrow> list_ex (is_waiting i) (pq_requests q)"

definition q_added :: "persisted_request \<Rightarrow> persisted_queue \<Rightarrow> persisted_queue" where
  "q_added r q = q\<lparr>pq_requests := pq_requests q @ [r]\<rparr>"

definition q_decided :: "string \<Rightarrow> decision \<Rightarrow> persisted_queue \<Rightarrow> persisted_queue" where
  "q_decided i d q = q\<lparr>pq_requests := decide_first i d (pq_requests q)\<rparr>"

definition q_without :: "(persisted_request \<Rightarrow> bool) \<Rightarrow> persisted_queue \<Rightarrow> persisted_queue" where
  "q_without P q = q\<lparr>pq_requests := filter (\<lambda>r. pr_decision r \<noteq> None \<or> \<not> P r) (pq_requests q)\<rparr>"

definition q_room :: "nat \<Rightarrow> nat \<Rightarrow> nat \<Rightarrow> persisted_request \<Rightarrow> persisted_queue \<Rightarrow> bool" where
  "q_room now limit share r q \<longleftrightarrow> open_at now q \<and> pr_id r \<notin> pr_id ` set (pq_requests q)
     \<and> length (pq_requests q) < limit \<and> share_of (bootstrap (pr_requester r)) (pq_requests q) < share"

text \<open>
  A store that keeps one queue: reading it, and replacing it. An error of a write may have come before or after it took effect.
\<close>

locale queue_file =
  fixes load :: "'s loading"
    and save :: "'s saving"
    and stored :: "'s \<Rightarrow> persisted_queue"
    and ok :: "'s \<Rightarrow> bool"
  assumes load_stored: "ok s \<Longrightarrow> \<exists>q. load s = Ok q \<and> or_default q = stored s"
    and save_stored: "ok s \<Longrightarrow> save p s = (res, s') \<Longrightarrow>
      ok s' \<and> (stored s' = p \<or> (res \<noteq> Ok () \<and> stored s' = stored s))"
begin

lemma save_then_stored:
  assumes "ok s" and "save_then save p a s = (res, s')"
  shows "ok s' \<and> (stored s' = p \<and> res = Ok a \<or> (res = Err () \<and> (stored s' = p \<or> stored s' = stored s)))"
proof -
  obtain r s1 where "save p s = (r, s1)" by (cases "save p s")
  then show ?thesis using assms save_stored [of s p r s1] by (cases r) (auto simp: save_then_def)
qed

end

text \<open>What the queue in memory relies on: every act decides from what is stored.\<close>

locale enrolment_port =
  fixes store :: "('s, 'x) enrolment_store"
    and stored :: "'s \<Rightarrow> persisted_queue"
    and ok :: "'s \<Rightarrow> bool"
  assumes load_law: "ok s \<Longrightarrow> \<exists>q. es_load store s = Ok q \<and> or_default q = stored s"
    and take_law: "ok s \<Longrightarrow> es_take store r now limit share s = (res, s') \<Longrightarrow> ok s' \<and>
      (case res of
         Inr TookAdded \<Rightarrow> stored s' = q_added r (stored s) \<and> q_room now limit share r (stored s)
       | Inr (TookHeld h) \<Rightarrow> stored s' = stored s \<and> h \<in> set (pq_requests (stored s)) \<and> pr_id h = pr_id r
       | Inr TookFull \<Rightarrow> stored s' = stored s \<and> limit \<le> length (pq_requests (stored s))
       | Inr TookOverShare \<Rightarrow> stored s' = stored s \<and> share \<le> share_of (bootstrap (pr_requester r)) (pq_requests (stored s))
       | Inr TookClosed \<Rightarrow> stored s' = stored s \<and> \<not> open_at now (stored s)
       | Inl _ \<Rightarrow> stored s' = stored s \<or> (stored s' = q_added r (stored s) \<and> q_room now limit share r (stored s)))"
    and decide_law: "ok s \<Longrightarrow> es_decide store i d s = (dres, s') \<Longrightarrow> ok s' \<and>
      (case dres of
         Inr Written \<Rightarrow> stored s' = q_decided i d (stored s) \<and> q_waits i (stored s)
       | Inr _ \<Rightarrow> stored s' = stored s
       | Inl _ \<Rightarrow> stored s' = stored s \<or> stored s' = q_decided i d (stored s))"
    and approve_law: "ok s \<Longrightarrow> es_approve store i b sign x s = (ares, x', s') \<Longrightarrow> ok s' \<and>
      (case ares of
         Inr (ApprovedNow d) \<Rightarrow> sign x = (Ok d, x') \<and> q_waits i (stored s) \<and> stored s' = q_decided i d (stored s)
       | Inr (ApprovalRefused e) \<Rightarrow> sign x = (Err e, x') \<and> q_waits i (stored s) \<and> stored s' = stored s
       | Inr ApprovalRevoked \<Rightarrow> x' = x \<and> (stored s' = stored s \<or> stored s' = q_without (\<lambda>r. pr_id r = i) (stored s))
       | Inr _ \<Rightarrow> x' = x \<and> stored s' = stored s
       | Inl _ \<Rightarrow> (x' = x \<and> stored s' = stored s)
           \<or> (\<exists>d. sign x = (Ok d, x') \<and> q_waits i (stored s) \<and> (stored s' = stored s \<or> stored s' = q_decided i d (stored s))))"
    and withdraw_bootstrap_law: "ok s \<Longrightarrow> es_withdraw_bootstrap store issuers serial s = (nres, s') \<Longrightarrow> ok s' \<and>
      (stored s' = stored s \<or> stored s' = q_without (\<lambda>r. snd (bootstrap (pr_requester r)) = serial
          \<and> fst (bootstrap (pr_requester r)) \<in> set issuers) (stored s)) \<and>
      (\<forall>n. nres = Ok n \<longrightarrow> stored s' = q_without (\<lambda>r. snd (bootstrap (pr_requester r)) = serial
          \<and> fst (bootstrap (pr_requester r)) \<in> set issuers) (stored s))"
    and withdraw_law: "ok s \<Longrightarrow> es_withdraw store ids s = (ures, s') \<Longrightarrow> ok s' \<and>
      (stored s' = q_without (\<lambda>r. pr_id r \<in> set ids) (stored s) \<or> (ures \<noteq> Ok () \<and> stored s' = stored s))"
    and open_law: "ok s \<Longrightarrow> es_open_window store until s = (ures, s') \<Longrightarrow> ok s' \<and>
      (stored s' = (stored s)\<lparr>pq_until_ms := Some until\<rparr> \<or> (ures \<noteq> Ok () \<and> stored s' = stored s))"
    and close_law: "ok s \<Longrightarrow> es_close_window store s = (ures, s') \<Longrightarrow> ok s' \<and>
      (stored s' = empty_queue \<or> (ures \<noteq> Ok () \<and> stored s' = stored s))"
    and end_law: "ok s \<Longrightarrow> es_end_window store until s = (bres, s') \<Longrightarrow> ok s' \<and>
      (stored s' = stored s \<or> stored s' = empty_queue) \<and>
      (case bres of Inr True \<Rightarrow> stored s' = empty_queue \<and> pq_until_ms (stored s) = Some until
         | Inr False \<Rightarrow> stored s' = stored s \<and> pq_until_ms (stored s) \<noteq> Some until | Inl _ \<Rightarrow> True)"

lemma q_without_empty [simp]: "q_without P empty_queue = empty_queue"
  by (simp add: q_without_def empty_queue_def)

lemma filter_all_kept: "\<not> length (filter P xs) < length xs \<Longrightarrow> filter P xs = xs"
  by (metis filter_id_conv length_filter_less)

lemma not_waiting_decided: "\<not> list_ex (is_waiting i) rs \<Longrightarrow> decide_first i d rs = rs"
  by (induction rs) auto

context queue_file
begin

lemma default_take_law:
  assumes ok: "ok s" and take: "default_take load save r now limit share s = (res, s')"
  shows "ok s' \<and> (case res of
         Inr TookAdded \<Rightarrow> stored s' = q_added r (stored s) \<and> q_room now limit share r (stored s)
       | Inr (TookHeld h) \<Rightarrow> stored s' = stored s \<and> h \<in> set (pq_requests (stored s)) \<and> pr_id h = pr_id r
       | Inr TookFull \<Rightarrow> stored s' = stored s \<and> limit \<le> length (pq_requests (stored s))
       | Inr TookOverShare \<Rightarrow> stored s' = stored s \<and> share \<le> share_of (bootstrap (pr_requester r)) (pq_requests (stored s))
       | Inr TookClosed \<Rightarrow> stored s' = stored s \<and> \<not> open_at now (stored s)
       | Inl _ \<Rightarrow> stored s' = stored s \<or> (stored s' = q_added r (stored s) \<and> q_room now limit share r (stored s)))"
proof -
  obtain q where q: "load s = Ok q" "or_default q = stored s" using load_stored [OF ok] by blast
  let ?q = "stored s"
  consider (closed) "\<not> open_at now ?q" | (held) h where "open_at now ?q" "find (\<lambda>q. pr_id q = pr_id r) (pq_requests ?q) = Some h"
    | (full) "open_at now ?q" "find (\<lambda>q. pr_id q = pr_id r) (pq_requests ?q) = None" "limit \<le> length (pq_requests ?q)"
    | (over) "open_at now ?q" "find (\<lambda>q. pr_id q = pr_id r) (pq_requests ?q) = None" "length (pq_requests ?q) < limit"
        "share \<le> share_of (bootstrap (pr_requester r)) (pq_requests ?q)"
    | (room) "open_at now ?q" "find (\<lambda>q. pr_id q = pr_id r) (pq_requests ?q) = None" "length (pq_requests ?q) < limit"
        "share_of (bootstrap (pr_requester r)) (pq_requests ?q) < share"
    by (meson not_less option.exhaust)
  then show ?thesis
  proof cases
    case closed
    then have "res = Ok TookClosed" "s' = s"
      using take q by (auto simp: default_take_def Let_def open_at_def split: option.splits if_splits)
    then show ?thesis using closed ok by simp
  next
    case (held h)
    then have "res = Ok (TookHeld h)" "s' = s"
      using take q by (auto simp: default_take_def Let_def open_at_def split: option.splits)
    moreover have "h \<in> set (pq_requests ?q) \<and> pr_id h = pr_id r"
      using held(2) by (auto simp: find_Some_iff in_set_conv_nth)
    ultimately show ?thesis using ok by simp
  next
    case full
    then have "res = Ok TookFull" "s' = s"
      using take q by (auto simp: default_take_def Let_def open_at_def split: option.splits)
    then show ?thesis using full ok by simp
  next
    case over
    then have "res = Ok TookOverShare" "s' = s"
      using take q by (auto simp: default_take_def Let_def open_at_def split: option.splits)
    then show ?thesis using over ok by simp
  next
    case room
    then have "save_then save (q_added r ?q) TookAdded s = (res, s')"
      using take q by (auto simp: default_take_def Let_def open_at_def q_added_def split: option.splits)
    note saved = save_then_stored [OF ok this]
    have "pr_id r \<notin> pr_id ` set (pq_requests ?q)" using room(2) by (auto simp: find_None_iff)
    then have "q_room now limit share r ?q" using room by (simp add: q_room_def)
    then show ?thesis using saved by auto
  qed
qed

lemma default_decide_law:
  assumes ok: "ok s" and dec: "default_decide load save i d s = (res, s')"
  shows "ok s' \<and> (case res of
         Inr Written \<Rightarrow> stored s' = q_decided i d (stored s) \<and> q_waits i (stored s)
       | Inr _ \<Rightarrow> stored s' = stored s
       | Inl _ \<Rightarrow> stored s' = stored s \<or> stored s' = q_decided i d (stored s))"
proof -
  obtain q where q: "load s = Ok q" "or_default q = stored s" using load_stored [OF ok] by blast
  show ?thesis
  proof (cases "q_waits i (stored s)")
    case True
    then have "save_then save (q_decided i d (stored s)) Written s = (res, s')"
      using dec q by (simp add: default_decide_def Let_def q_decided_def q_waits_def)
    from save_then_stored [OF ok this] show ?thesis using True by auto
  next
    case False
    then have "res = Ok NotWaiting" "s' = s" using dec q by (auto simp: default_decide_def Let_def q_waits_def)
    then show ?thesis using ok by simp
  qed
qed

lemma default_approve_law:
  assumes ok: "ok s" and app: "default_approve load save i b sign x s = (res, x', s')"
  shows "ok s' \<and> (case res of
         Inr (ApprovedNow d) \<Rightarrow> sign x = (Ok d, x') \<and> q_waits i (stored s) \<and> stored s' = q_decided i d (stored s)
       | Inr (ApprovalRefused e) \<Rightarrow> sign x = (Err e, x') \<and> q_waits i (stored s) \<and> stored s' = stored s
       | Inr ApprovalRevoked \<Rightarrow> x' = x \<and> (stored s' = stored s \<or> stored s' = q_without (\<lambda>r. pr_id r = i) (stored s))
       | Inr _ \<Rightarrow> x' = x \<and> stored s' = stored s
       | Inl _ \<Rightarrow> (x' = x \<and> stored s' = stored s)
           \<or> (\<exists>d. sign x = (Ok d, x') \<and> q_waits i (stored s) \<and> (stored s' = stored s \<or> stored s' = q_decided i d (stored s))))"
proof -
  obtain q where q: "load s = Ok q" "or_default q = stored s" using load_stored [OF ok] by blast
  show ?thesis
  proof (cases "q_waits i (stored s)")
    case False
    then have "res = Ok ApprovalNotWaiting" "x' = x" "s' = s"
      using app q by (auto simp: default_approve_def Let_def q_waits_def)
    then show ?thesis using ok by simp
  next
    case True
    obtain sr x1 where sr: "sign x = (sr, x1)" by (cases "sign x")
    show ?thesis
    proof (cases sr)
      case (Inl e)
      then have "res = Ok (ApprovalRefused e)" "x' = x1" "s' = s"
        using app q sr True by (auto simp: default_approve_def Let_def q_waits_def)
      then show ?thesis using ok sr Inl True by simp
    next
      case (Inr d)
      obtain r1 s1 where sv: "save_then save (q_decided i d (stored s)) (ApprovedNow d) s = (r1, s1)"
        by (cases "save_then save (q_decided i d (stored s)) (ApprovedNow d) s")
      have eq: "res = r1" "x' = x1" "s' = s1"
        using app q sr True Inr sv by (auto simp: default_approve_def Let_def q_waits_def q_decided_def)
      from save_then_stored [OF ok sv] show ?thesis using eq sr Inr True by auto
    qed
  qed
qed

lemma default_withdraw_bootstrap_law:
  assumes ok: "ok s" and wd: "default_withdraw_bootstrap load save issuers serial s = (res, s')"
  shows "ok s' \<and>
      (stored s' = stored s \<or> stored s' = q_without (\<lambda>r. snd (bootstrap (pr_requester r)) = serial
          \<and> fst (bootstrap (pr_requester r)) \<in> set issuers) (stored s)) \<and>
      (\<forall>n. res = Ok n \<longrightarrow> stored s' = q_without (\<lambda>r. snd (bootstrap (pr_requester r)) = serial
          \<and> fst (bootstrap (pr_requester r)) \<in> set issuers) (stored s))"
proof -
  obtain q where q: "load s = Ok q" "or_default q = stored s" using load_stored [OF ok] by blast
  let ?P = "\<lambda>r. snd (bootstrap (pr_requester r)) = serial \<and> fst (bootstrap (pr_requester r)) \<in> set issuers"
  let ?kept = "filter (\<lambda>r. pr_decision r \<noteq> None \<or> \<not> ?P r) (pq_requests (stored s))"
  have kept: "filter (\<lambda>r. pr_decision r \<noteq> None \<or> snd (bootstrap (pr_requester r)) \<noteq> serial
      \<or> fst (bootstrap (pr_requester r)) \<notin> set issuers) (pq_requests (stored s)) = ?kept"
    by (rule filter_cong) auto
  show ?thesis
  proof (cases q)
    case None
    then have "res = Ok 0" "s' = s" using wd q by (auto simp: default_withdraw_bootstrap_def)
    moreover have "stored s = empty_queue" using q None by (simp add: or_default_def)
    ultimately show ?thesis using ok by simp
  next
    case (Some p)
    then have p: "p = stored s" using q by (simp add: or_default_def)
    show ?thesis
    proof (cases "length ?kept < length (pq_requests (stored s))")
      case True
      then have "save_then save (q_without ?P (stored s)) (length (pq_requests (stored s)) - length ?kept) s = (res, s')"
        using wd q(1) Some p kept by (simp add: default_withdraw_bootstrap_def Let_def q_without_def)
      from save_then_stored [OF ok this] show ?thesis by auto
    next
      case False
      then have "?kept = pq_requests (stored s)" by (rule filter_all_kept)
      then have same: "q_without ?P (stored s) = stored s" by (simp add: q_without_def)
      have "s' = s" using wd q(1) Some p kept False by (auto simp: default_withdraw_bootstrap_def Let_def)
      then show ?thesis using ok same by simp
    qed
  qed
qed

lemma default_withdraw_law:
  assumes ok: "ok s" and wd: "default_withdraw load save ids s = (res, s')"
  shows "ok s' \<and> (stored s' = q_without (\<lambda>r. pr_id r \<in> set ids) (stored s) \<or> (res \<noteq> Ok () \<and> stored s' = stored s))"
proof -
  obtain q where q: "load s = Ok q" "or_default q = stored s" using load_stored [OF ok] by blast
  show ?thesis
  proof (cases q)
    case None
    then have "res = Ok ()" "s' = s" using wd q by (auto simp: default_withdraw_def)
    moreover have "stored s = empty_queue" using q None by (simp add: or_default_def)
    ultimately show ?thesis using ok by simp
  next
    case (Some p)
    then have "save (q_without (\<lambda>r. pr_id r \<in> set ids) (stored s)) s = (res, s')"
      using wd q by (simp add: default_withdraw_def q_without_def or_default_def)
    from save_stored [OF ok this] show ?thesis .
  qed
qed

lemma default_open_law:
  assumes ok: "ok s" and op: "default_open_window load save until s = (res, s')"
  shows "ok s' \<and> (stored s' = (stored s)\<lparr>pq_until_ms := Some until\<rparr> \<or> (res \<noteq> Ok () \<and> stored s' = stored s))"
proof -
  obtain q where q: "load s = Ok q" "or_default q = stored s" using load_stored [OF ok] by blast
  then have "save ((stored s)\<lparr>pq_until_ms := Some until\<rparr>) s = (res, s')" using op by (simp add: default_open_window_def)
  from save_stored [OF ok this] show ?thesis .
qed

lemma default_end_law:
  assumes ok: "ok s" and en: "default_end_window load save until s = (res, s')"
  shows "ok s' \<and> (stored s' = stored s \<or> stored s' = empty_queue) \<and>
      (case res of Inr True \<Rightarrow> stored s' = empty_queue \<and> pq_until_ms (stored s) = Some until
         | Inr False \<Rightarrow> stored s' = stored s \<and> pq_until_ms (stored s) \<noteq> Some until | Inl _ \<Rightarrow> True)"
proof -
  obtain q where q: "load s = Ok q" "or_default q = stored s" using load_stored [OF ok] by blast
  show ?thesis
  proof (cases "pq_until_ms (stored s) = Some until")
    case True
    then have "save_then save empty_queue True s = (res, s')" using en q by (simp add: default_end_window_def)
    from save_then_stored [OF ok this] show ?thesis using True by auto
  next
    case False
    then have "res = Ok False" "s' = s" using en q by (auto simp: default_end_window_def)
    then show ?thesis using ok False by simp
  qed
qed

end

text \<open>The default methods keep the contract over any such store.\<close>

sublocale queue_file \<subseteq> port: enrolment_port "default_store load save" stored ok
proof (unfold_locales, unfold default_store_def enrolment_store.simps)
  show "ok s \<Longrightarrow> default_close_window save s = (res, s') \<Longrightarrow>
      ok s' \<and> (stored s' = empty_queue \<or> (res \<noteq> Ok () \<and> stored s' = stored s))" for s res s'
    by (simp add: default_close_window_def save_stored)
qed (fact load_stored default_take_law default_decide_law default_approve_law default_withdraw_bootstrap_law
    default_withdraw_law default_open_law default_end_law)+

section \<open>The filesystem adapter keeps the contract\<close>

definition efs_stored :: "enrolment_file disk \<Rightarrow> persisted_queue" where
  "efs_stored s = (case disk_content s of Some (Some p) \<Rightarrow> p | _ \<Rightarrow> empty_queue)"

definition efs_ok :: "enrolment_file disk \<Rightarrow> bool" where
  "efs_ok s \<longleftrightarrow> disk_content s \<noteq> Some None"

interpretation efs: queue_file efs_load efs_save efs_stored efs_ok
proof
  show "efs_ok s \<Longrightarrow> \<exists>q. efs_load s = Ok q \<and> or_default q = efs_stored s" for s
    by (cases "disk_content s" rule: option.exhaust [of _ _])
      (auto simp: efs_ok_def efs_load_def efs_stored_def or_default_def split: option.splits)
  show "efs_ok s \<Longrightarrow> efs_save p s = (res, s') \<Longrightarrow> efs_ok s' \<and> (efs_stored s' = p \<or> (res \<noteq> Ok () \<and> efs_stored s' = efs_stored s))"
    for s p res s'
  proof (cases "replace_doc (\<lambda>_. Some (Some p)) s")
    case (Pair fin s1)
    then show "efs_ok s \<Longrightarrow> efs_save p s = (res, s') \<Longrightarrow> ?thesis"
      using replace_doc_cases [OF Pair] by (auto simp: efs_save_def efs_ok_def efs_stored_def split: if_splits)
  qed
qed

section \<open>The invariant\<close>

definition bounded :: "nat \<Rightarrow> persisted_queue \<Rightarrow> bool" where
  "bounded share q \<longleftrightarrow> length (pq_requests q) \<le> MAX_PENDING \<and> (\<forall>b. share_of b (pq_requests q) \<le> share)
     \<and> distinct (map pr_id (pq_requests q)) \<and> (\<forall>r \<in> set (pq_requests q). hex_decode (pr_instance_uid r) \<noteq> None)
     \<and> (pq_until_ms q = None \<longrightarrow> pq_requests q = [])"

text \<open>What memory holds of a request: what is stored, or the request still waiting when a decision's write failed late.\<close>

definition entry_agrees :: "persisted_request \<Rightarrow> queue_entry \<Rightarrow> bool" where
  "entry_agrees r e \<longleftrightarrow> (\<exists>e'. entry_restored r = Ok e' \<and> (e = e' \<or> e = e'\<lparr>qe_decision := None\<rparr>))"

definition mirrors :: "persisted_queue \<Rightarrow> (string, queue_entry) btree \<Rightarrow> bool" where
  "mirrors q m \<longleftrightarrow> bt_wf m
     \<and> (\<forall>i e. map_of m i = Some e \<longrightarrow> (\<exists>r \<in> set (pq_requests q). pr_id r = i \<and> entry_agrees r e))"

definition enrol_inv ::
  "('s, 'x) enrolment_store \<Rightarrow> ('s \<Rightarrow> persisted_queue) \<Rightarrow> ('s \<Rightarrow> bool) \<Rightarrow> ('s, 'x) enrolment \<Rightarrow> bool" where
  "enrol_inv store stored ok en \<longleftrightarrow> en_store en = Some store \<and> ok (en_persisted en)
     \<and> bounded (max_per_bootstrap en) (stored (en_persisted en))
     \<and> mirrors (stored (en_persisted en)) (queue_entries (en_state en))
     \<and> (window_until_ms (en_state en) = None \<longrightarrow> queue_entries (en_state en) = [])"

lemma decide_first_map:
  "distinct (map pr_id rs) \<Longrightarrow>
   decide_first i d rs = map (\<lambda>r. if is_waiting i r then r\<lparr>pr_decision := Some d\<rparr> else r) rs"
proof (induction rs)
  case (Cons r rs)
  then have "is_waiting i r \<Longrightarrow> \<forall>q \<in> set rs. \<not> is_waiting i q" by (auto simp: is_waiting_def image_iff)
  with Cons show ?case by (auto intro!: map_idI [symmetric])
qed simp

lemma share_of_simps [simp]:
  "share_of b [] = 0"
  "share_of b (r # rs) = (if bootstrap (pr_requester r) = b then Suc (share_of b rs) else share_of b rs)"
  "share_of b (rs @ qs) = share_of b rs + share_of b qs"
  by (simp_all add: share_of_def)

lemma share_of_map: "(\<And>r. r \<in> set rs \<Longrightarrow> pr_requester (f r) = pr_requester r) \<Longrightarrow> share_of b (map f rs) = share_of b rs"
  by (induction rs) auto

lemma share_of_filter: "share_of b (filter P rs) \<le> share_of b rs"
  by (induction rs) auto

lemma bounded_empty [simp]: "bounded share empty_queue"
  by (simp add: bounded_def empty_queue_def)

lemma bounded_added:
  assumes b: "bounded share q" and room: "q_room now MAX_PENDING share r q" and uid: "hex_decode (pr_instance_uid r) \<noteq> None"
  shows "bounded share (q_added r q)"
  using assms
  by (auto simp: bounded_def q_added_def q_room_def open_at_def Suc_le_eq split: option.splits)

lemma bounded_decided:
  assumes "bounded share q"
  shows "bounded share (q_decided i d q)"
proof -
  have dist: "distinct (map pr_id (pq_requests q))" using assms by (simp add: bounded_def)
  let ?f = "\<lambda>r. if is_waiting i r then r\<lparr>pr_decision := Some d\<rparr> else r"
  have "share_of b (map ?f (pq_requests q)) = share_of b (pq_requests q)" for b by (rule share_of_map) simp
  moreover have ids: "map (pr_id \<circ> ?f) (pq_requests q) = map pr_id (pq_requests q)" by (rule map_cong) auto
  have "distinct (map (pr_id \<circ> ?f) (pq_requests q))" using dist unfolding ids .
  ultimately show ?thesis
    using assms by (auto simp: bounded_def q_decided_def decide_first_map [OF dist])
qed

lemma bounded_without:
  assumes "bounded share q"
  shows "bounded share (q_without P q)"
proof -
  let ?K = "\<lambda>r. pr_decision r \<noteq> None \<or> \<not> P r"
  have "length (filter ?K (pq_requests q)) \<le> MAX_PENDING"
    using assms length_filter_le [of ?K "pq_requests q"] le_trans unfolding bounded_def by blast
  moreover have "share_of b (filter ?K (pq_requests q)) \<le> share" for b
    using assms share_of_filter [of b ?K "pq_requests q"] le_trans unfolding bounded_def by blast
  ultimately show ?thesis
    using assms by (simp add: bounded_def q_without_def distinct_map_filter)
qed

lemma bounded_until: "bounded share q \<Longrightarrow> bounded share (q\<lparr>pq_until_ms := Some until\<rparr>)"
  by (simp add: bounded_def)

lemma entry_restored_simps:
  "entry_restored r = Ok e \<Longrightarrow> pend_id (qe_pending e) = pr_id r \<and> pend_requester (qe_pending e) = pr_requester r
     \<and> qe_decision e = pr_decision r \<and> entry_persisted e = r\<lparr>pr_instance_uid := hex_encode (qe_instance_uid e)\<rparr>"
  by (auto simp: entry_restored_def entry_persisted_def split: option.splits)

lemma entry_agrees_simps:
  "entry_agrees r e \<Longrightarrow> pend_id (qe_pending e) = pr_id r \<and> pend_requester (qe_pending e) = pr_requester r
     \<and> (qe_decision e = None \<or> qe_decision e = pr_decision r)"
  using entry_restored_simps by (force simp: entry_agrees_def)

lemma entry_roundtrip: "entry_restored (entry_persisted e) = Ok e"
  by (cases e, cases "qe_pending e") (simp add: entry_restored_def entry_persisted_def)

lemma entry_agrees_decide:
  "entry_agrees r e \<Longrightarrow> entry_agrees (r\<lparr>pr_decision := Some d\<rparr>) (e\<lparr>qe_decision := Some d\<rparr>)
     \<and> (qe_decision e = None \<longrightarrow> entry_agrees (r\<lparr>pr_decision := Some d\<rparr>) e)"
  by (force simp: entry_agrees_def entry_restored_def split: option.splits)

lemma mirrors_Nil [simp]: "mirrors q []"
  by (simp add: mirrors_def)

lemma mirrors_wf: "mirrors q m \<Longrightarrow> bt_wf m"
  by (simp add: mirrors_def)

lemma mirrors_obtain:
  assumes "mirrors q m" and "map_of m i = Some e"
  obtains r where "r \<in> set (pq_requests q)" "pr_id r = i" "entry_agrees r e"
  using assms by (auto simp: mirrors_def)

lemma mirrors_sub:
  "mirrors q m \<Longrightarrow> bt_wf m' \<Longrightarrow> map_of m' \<subseteq>\<^sub>m map_of m \<Longrightarrow> set (pq_requests q) \<subseteq> set (pq_requests q') \<Longrightarrow> mirrors q' m'"
  by (fastforce simp: mirrors_def map_le_def dom_def)

lemma mirrors_insert:
  "mirrors q m \<Longrightarrow> r \<in> set (pq_requests q) \<Longrightarrow> entry_restored r = Ok e \<Longrightarrow> mirrors q (bt_insert (pr_id r) e m)"
  by (auto simp: mirrors_def entry_agrees_def)

lemma mirrors_decided:
  assumes m: "mirrors q m" and dist: "distinct (map pr_id (pq_requests q))"
    and keep: "\<And>e. map_of m i = Some e \<Longrightarrow> qe_decision e = None"
  shows "mirrors (q_decided i d q) m"
proof -
  have "\<exists>r \<in> set (pq_requests (q_decided i d q)). pr_id r = j \<and> entry_agrees r e" if e: "map_of m j = Some e" for j e
  proof -
    obtain r where r: "r \<in> set (pq_requests q)" "pr_id r = j" "entry_agrees r e" by (rule mirrors_obtain [OF m e])
    let ?r = "if is_waiting i r then r\<lparr>pr_decision := Some d\<rparr> else r"
    have "?r \<in> set (pq_requests (q_decided i d q))" using r(1) by (auto simp: q_decided_def decide_first_map [OF dist])
    moreover have "entry_agrees ?r e"
      using r(2,3) entry_agrees_decide [OF r(3), of d] keep e by (auto simp: is_waiting_def)
    moreover have "pr_id ?r = j" using r(2) by simp
    ultimately show ?thesis by blast
  qed
  then show ?thesis using m by (simp add: mirrors_def)
qed

lemma waiting_unique:
  "distinct (map pr_id rs) \<Longrightarrow> list_ex (is_waiting i) rs \<Longrightarrow> r \<in> set rs \<Longrightarrow> pr_id r = i \<Longrightarrow> is_waiting i r"
  by (auto simp: list_ex_iff is_waiting_def distinct_map dest: inj_onD)

lemma mirrors_decided_both:
  assumes m: "mirrors q m" and dist: "distinct (map pr_id (pq_requests q))" and waits: "q_waits i q"
  shows "mirrors (q_decided i d q) (bt_adjust i (\<lambda>e. e\<lparr>qe_decision := Some d\<rparr>) m)"
proof -
  have "\<exists>r \<in> set (pq_requests (q_decided i d q)). pr_id r = j \<and> entry_agrees r e'"
    if e': "map_of (bt_adjust i (\<lambda>e. e\<lparr>qe_decision := Some d\<rparr>) m) j = Some e'" for j e'
  proof -
    obtain e where e: "map_of m j = Some e" and ee: "e' = (if j = i then e\<lparr>qe_decision := Some d\<rparr> else e)"
      using e' by (auto split: if_splits)
    obtain r where r: "r \<in> set (pq_requests q)" "pr_id r = j" "entry_agrees r e" by (rule mirrors_obtain [OF m e])
    let ?r = "if is_waiting i r then r\<lparr>pr_decision := Some d\<rparr> else r"
    have "j = i \<Longrightarrow> is_waiting i r" using waiting_unique [OF dist _ r(1)] waits r(2) by (simp add: q_waits_def)
    then have "entry_agrees ?r e'"
      using r(2,3) entry_agrees_decide [OF r(3), of d] ee by (auto simp: is_waiting_def)
    moreover have "?r \<in> set (pq_requests (q_decided i d q))" using r(1) by (auto simp: q_decided_def decide_first_map [OF dist])
    moreover have "pr_id ?r = j" using r(2) by simp
    ultimately show ?thesis by blast
  qed
  then show ?thesis using m by (simp add: mirrors_def)
qed

lemma mirrors_without:
  assumes m: "mirrors q m" and wf: "bt_wf m'" and sub: "map_of m' \<subseteq>\<^sub>m map_of m"
    and gone: "\<And>e r. map_of m' (pr_id r) = Some e \<Longrightarrow> r \<in> set (pq_requests q) \<Longrightarrow> entry_agrees r e \<Longrightarrow>
      pr_decision r = None \<Longrightarrow> \<not> P r"
  shows "mirrors (q_without P q) m'"
proof -
  have "\<exists>r \<in> set (pq_requests (q_without P q)). pr_id r = i \<and> entry_agrees r e" if e: "map_of m' i = Some e" for i e
  proof -
    have "map_of m i = Some e" using sub e by (auto simp: map_le_def dom_def)
    then obtain r where r: "r \<in> set (pq_requests q)" "pr_id r = i" "entry_agrees r e" by (rule mirrors_obtain [OF m])
    then have "r \<in> set (pq_requests (q_without P q))" using gone [of r e] e by (auto simp: q_without_def)
    then show ?thesis using r by blast
  qed
  then show ?thesis using wf by (simp add: mirrors_def)
qed

lemma map_of_fold_remove [simp]: "map_of (fold bt_remove ids m) i = (if i \<in> set ids then None else map_of m i)"
  by (induction ids arbitrary: m) auto

lemma bt_wf_fold_remove [simp]: "bt_wf m \<Longrightarrow> bt_wf (fold bt_remove ids m)"
  by (induction ids arbitrary: m) auto

lemma fold_remove_Nil [simp]: "fold bt_remove ids [] = []"
  by (induction ids) (auto simp: bt_remove_def)

lemma bt_adjust_Nil [simp]: "bt_adjust i f [] = []"
  by (simp add: bt_adjust_def)

lemma inv_changed [simp]: "enrol_inv store stored ok (changed en) = enrol_inv store stored ok en"
  by (simp add: enrol_inv_def changed_def)

lemma enrol_update_simps [simp]:
  "max_per_bootstrap (changed en) = max_per_bootstrap en"
  "max_per_bootstrap (put_entry i e en) = max_per_bootstrap en"
  "max_per_bootstrap (drop_entries ids en) = max_per_bootstrap en"
  "max_per_bootstrap (decide_entry i d en) = max_per_bootstrap en"
  "en_persisted (drop_entries ids en) = en_persisted en"
  "en_store (drop_entries ids en) = en_store en"
  "drop_entries [] en = en"
  by (simp_all add: changed_def put_entry_def drop_entries_def decide_entry_def)

lemma drop_persisted: "(drop_entries ids en)\<lparr>en_persisted := s\<rparr> = drop_entries ids (en\<lparr>en_persisted := s\<rparr>)"
  by (cases en) (simp add: drop_entries_def)

context enrolment_port
begin

lemma expire_inv:
  assumes inv: "enrol_inv store stored ok en" and ex: "expire now en = (w, en')"
  shows "enrol_inv store stored ok en' \<and> max_per_bootstrap en' = max_per_bootstrap en
    \<and> (case w of Some u \<Rightarrow> en' = en \<and> window_until_ms (en_state en) = Some u \<and> now < u
       | None \<Rightarrow> en_state en' = no_queue \<or> (en' = en \<and> window_until_ms (en_state en) = None))"
proof (cases "w = None \<and> window_until_ms (en_state en) \<noteq> None")
  case False
  then show ?thesis
    using inv ex by (auto simp: expire_def Let_def split: option.splits if_splits prod.splits)
next
  case True
  then obtain u where u: "window_until_ms (en_state en) = Some u" by auto
  obtain r s' where r: "es_end_window store u (en_persisted en) = (r, s')" by (cases "es_end_window store u (en_persisted en)")
  have store: "en_store en = Some store" and ok: "ok (en_persisted en)" using inv by (simp_all add: enrol_inv_def)
  note law = end_law [OF ok r]
  have "en_store en' = Some store \<and> en_persisted en' = s' \<and> en_state en' = no_queue
      \<and> max_per_bootstrap en' = max_per_bootstrap en"
    using ex True u store r
    by (auto simp: expire_def Let_def changed_def split: if_splits prod.splits sum.splits)
  moreover have "bounded (max_per_bootstrap en) (stored s')"
    using law inv by (auto simp: enrol_inv_def)
  ultimately show ?thesis using law True by (auto simp: enrol_inv_def no_queue_def)
qed

lemma expire_entries:
  assumes inv: "enrol_inv store stored ok en" and ex: "expire now en = (w, en')"
    and e: "map_of (queue_entries (en_state en')) i = Some e"
  shows "en' = en \<and> (\<exists>u. w = Some u \<and> window_until_ms (en_state en) = Some u \<and> now < u)"
  using expire_inv [OF inv ex] e inv by (cases w) (auto simp: no_queue_def enrol_inv_def)

lemma submit_inv:
  assumes inv: "enrol_inv store stored ok en" and sub: "submit now arrived taken rq who en = (res, en')"
  shows "enrol_inv store stored ok en' \<and> max_per_bootstrap en' = max_per_bootstrap en"
proof -
  obtain w en1 where ex: "expire now en = (w, en1)" by (cases "expire now en")
  note ex' = expire_inv [OF inv ex]
  show ?thesis
  proof (cases w)
    case None
    then show ?thesis using sub ex ex' by (simp add: submit_def)
  next
    case (Some u)
    then have en1: "en1 = en" "window_until_ms (en_state en) = Some u" using ex' by simp_all
    let ?i = "rq_key_fingerprint rq" and ?e = "request_entry arrived rq who"
    show ?thesis
    proof (cases "map_of (queue_entries (en_state en)) ?i")
      case (Some e)
      then show ?thesis using sub ex \<open>w = Some u\<close> en1 inv by (simp add: submit_def)
    next
      case new: None
      let ?r = "entry_persisted ?e"
      have store: "en_store en = Some store" and ok: "ok (en_persisted en)"
        and bounded: "bounded (max_per_bootstrap en) (stored (en_persisted en))"
        and mirr: "mirrors (stored (en_persisted en)) (queue_entries (en_state en))"
        using inv by (simp_all add: enrol_inv_def)
      obtain t s' where t: "es_take store ?r taken MAX_PENDING (max_per_bootstrap en) (en_persisted en) = (t, s')"
        by (cases "es_take store ?r taken MAX_PENDING (max_per_bootstrap en) (en_persisted en)")
      note law = take_law [OF ok t]
      have id: "pr_id ?r = ?i" by (simp add: entry_persisted_def request_entry_def)
      have uid: "hex_decode (pr_instance_uid ?r) \<noteq> None" by (simp add: entry_persisted_def)
      have added: "bounded (max_per_bootstrap en) (q_added ?r (stored (en_persisted en)))"
        if "q_room taken MAX_PENDING (max_per_bootstrap en) ?r (stored (en_persisted en))"
        using bounded_added [OF bounded that uid] .
      have more: "mirrors (q_added ?r (stored (en_persisted en))) (queue_entries (en_state en))"
        using mirr by (rule mirrors_sub) (auto simp: mirrors_wf [OF mirr] q_added_def)
      have more': "mirrors (q_added ?r (stored (en_persisted en))) (bt_insert ?i ?e (queue_entries (en_state en)))"
        using mirrors_insert [OF more, of ?r ?e] id entry_roundtrip by (simp add: q_added_def)
      have held: "mirrors (stored (en_persisted en)) (bt_insert ?i h' (queue_entries (en_state en)))"
        if "h \<in> set (pq_requests (stored (en_persisted en)))" "pr_id h = ?i" "entry_restored h = Ok h'" for h h'
        using mirrors_insert [OF mirr that(1,3)] that(2) by simp
      note sub' = sub [unfolded submit_def ex prod.case \<open>w = Some u\<close> option.case en1(1) new Let_def store t]
      show ?thesis
      proof (cases t)
        case (Inl e)
        then show ?thesis
          using sub' law store bounded mirr added more en1(2) by (auto simp: enrol_inv_def)
      next
        case (Inr took)
        then show ?thesis
          using sub' law store bounded mirr added more more' held en1(2) id
          by (cases took) (auto simp: enrol_inv_def put_entry_def changed_def split: sum.splits)
      qed
    qed
  qed
qed

lemma inv_facts:
  assumes "enrol_inv store stored ok en"
  shows "en_store en = Some store" and "ok (en_persisted en)"
    and "bounded (max_per_bootstrap en) (stored (en_persisted en))"
    and "mirrors (stored (en_persisted en)) (queue_entries (en_state en))"
    and "distinct (map pr_id (pq_requests (stored (en_persisted en))))"
  using assms by (simp_all add: enrol_inv_def bounded_def)

text \<open>Requests dropped from memory and, when the write takes effect, from the store.\<close>

lemma drop_inv:
  assumes inv: "enrol_inv store stored ok en" and ok': "ok s'"
    and s': "stored s' = stored (en_persisted en) \<or> stored s' = q_without P (stored (en_persisted en))"
    and gone: "\<And>e r. map_of (queue_entries (en_state en)) (pr_id r) = Some e \<Longrightarrow> pr_id r \<notin> set ids \<Longrightarrow>
      r \<in> set (pq_requests (stored (en_persisted en))) \<Longrightarrow> entry_agrees r e \<Longrightarrow> pr_decision r = None \<Longrightarrow> \<not> P r"
  shows "enrol_inv store stored ok ((drop_entries ids en)\<lparr>en_persisted := s'\<rparr>)"
proof -
  note facts = inv_facts [OF inv]
  let ?m = "queue_entries (en_state en)" and ?m' = "fold bt_remove ids (queue_entries (en_state en))"
  have wf: "bt_wf ?m'" and sub: "map_of ?m' \<subseteq>\<^sub>m map_of ?m"
    using mirrors_wf [OF facts(4)] by (auto simp: map_le_def)
  have "mirrors (stored (en_persisted en)) ?m'"
    using facts(4) wf sub by (rule mirrors_sub) simp
  moreover have "mirrors (q_without P (stored (en_persisted en))) ?m'"
    using facts(4) wf sub by (rule mirrors_without) (auto split: if_splits dest: gone)
  ultimately have "mirrors (stored s') ?m'" using s' by auto
  moreover have "bounded (max_per_bootstrap en) (stored s')"
    using s' facts(3) bounded_without [OF facts(3)] by auto
  ultimately show ?thesis
    using inv ok' by (auto simp: enrol_inv_def drop_entries_def)
qed

lemma withdrawn_inv:
  assumes inv: "enrol_inv store stored ok (drop_entries [i] en)"
  shows "enrol_inv store stored ok (withdrawn i en)"
proof -
  let ?en = "drop_entries [i] en"
  obtain r s' where r: "es_withdraw store [i] (en_persisted ?en) = (r, s')" by (cases "es_withdraw store [i] (en_persisted ?en)")
  note law = withdraw_law [OF inv_facts(2) [OF inv] r]
  have "withdrawn i en = changed (?en\<lparr>en_persisted := s'\<rparr>)"
    using r inv_facts(1) [OF inv] by (simp add: withdrawn_def on_store_def)
  moreover have "enrol_inv store stored ok ((drop_entries [] ?en)\<lparr>en_persisted := s'\<rparr>)"
    using inv conjunct1 [OF law]
    by (rule drop_inv [where P = "\<lambda>r. pr_id r \<in> set [i]"]) (use law in \<open>auto simp: drop_entries_def\<close>)
  ultimately show ?thesis by simp
qed

lemma withdrawn_max [simp]: "max_per_bootstrap (withdrawn i en) = max_per_bootstrap en"
  by (auto simp: withdrawn_def on_store_def split: option.splits prod.splits)

lemma drop_one_inv: "enrol_inv store stored ok en \<Longrightarrow> enrol_inv store stored ok (drop_entries ids en)"
  using drop_inv [of en "en_persisted en" "\<lambda>_. False" ids] by (simp add: inv_facts drop_entries_def)

lemma decide_both_inv:
  assumes inv: "enrol_inv store stored ok en" and ok': "ok s'" and waits: "q_waits i (stored (en_persisted en))"
    and s': "stored s' = q_decided i d (stored (en_persisted en))"
  shows "enrol_inv store stored ok (decide_entry i d (en\<lparr>en_persisted := s'\<rparr>))"
  using inv ok' s' mirrors_decided_both [OF inv_facts(4,5) [OF inv] waits, of d] bounded_decided [OF inv_facts(3) [OF inv], of i d]
  by (auto simp: enrol_inv_def decide_entry_def)

lemma decide_late_inv:
  assumes inv: "enrol_inv store stored ok en" and ok': "ok s'"
    and waits: "\<And>e. map_of (queue_entries (en_state en)) i = Some e \<Longrightarrow> qe_decision e = None"
    and s': "stored s' = stored (en_persisted en) \<or> stored s' = q_decided i d (stored (en_persisted en))"
  shows "enrol_inv store stored ok (en\<lparr>en_persisted := s'\<rparr>)"
  using inv ok' s' mirrors_decided [OF inv_facts(4,5) [OF inv], of i d, OF waits] bounded_decided [OF inv_facts(3) [OF inv], of i d]
  by (auto simp: enrol_inv_def)

lemma same_inv:
  "enrol_inv store stored ok en \<Longrightarrow> ok s' \<Longrightarrow> stored s' = stored (en_persisted en) \<Longrightarrow>
   enrol_inv store stored ok (en\<lparr>en_persisted := s'\<rparr>)"
  by (auto simp: enrol_inv_def)

lemma approve_inv:
  assumes inv0: "enrol_inv store stored ok en0" and app: "approve now i sign rec_cert revoked x en0 = (res, x', en')"
  shows "enrol_inv store stored ok en' \<and> max_per_bootstrap en' = max_per_bootstrap en0"
proof -
  obtain w en where ex: "expire now en0 = (w, en)" by (cases "expire now en0")
  note ex' = expire_inv [OF inv0 ex]
  then have inv: "enrol_inv store stored ok en" and mx: "max_per_bootstrap en = max_per_bootstrap en0" by blast+
  have wd: "enrol_inv store stored ok (withdrawn i e)" if "enrol_inv store stored ok e" for e
    using withdrawn_inv [OF drop_one_inv [OF that]] .
  consider (none) "en' = en" | (rev) "en' = withdrawn i en"
    | (asked) e vals where "map_of (queue_entries (en_state en)) i = Some e" "qe_decision e = None"
        "carried (pend_requester (qe_pending e)) = Ok vals" "\<not> revoked (bootstrap (pend_requester (qe_pending e)))"
    using app by (auto simp: approve_def ex Let_def split: option.splits if_splits sum.splits)
  then show ?thesis
  proof cases
    case none
    then show ?thesis using inv mx by simp
  next
    case rev
    then show ?thesis using wd [OF inv] mx by simp
  next
    case (asked e vals)
    obtain r x1 s' where r: "es_approve store i (bootstrap (pend_requester (qe_pending e))) (signing sign rec_cert e vals) x
        (en_persisted en) = (r, x1, s')"
      by (metis surj_pair)
    note law = approve_law [OF inv_facts(2) [OF inv] r]
    let ?en = "en\<lparr>en_persisted := s'\<rparr>"
    have waits: "map_of (queue_entries (en_state en)) i = Some e1 \<Longrightarrow> qe_decision e1 = None" for e1 using asked by simp
    note app' = app [unfolded approve_def ex snd_conv Let_def asked option.case, simplified asked inv_facts(1) [OF inv] r, simplified]
    note late = decide_late_inv [OF inv _ waits]
    have keep: "enrol_inv store stored ok ?en" if "stored s' = stored (en_persisted en)"
      using same_inv [OF inv _ that] law by blast
    note rev_keep = wd [OF keep]
    show ?thesis
    proof (cases r)
      case (Inl u)
      then have "enrol_inv store stored ok ?en" using law late [of s'] keep by auto
      then show ?thesis using app' r Inl mx by auto
    next
      case (Inr a)
      show ?thesis
      proof (cases a)
        case (ApprovedNow d)
        then show ?thesis
          using app' r Inr law decide_both_inv [OF inv, of s' i d] mx by auto
      next
        case ApprovalNotWaiting
        then show ?thesis using app' r Inr law drop_one_inv [OF keep, of "[i]"] mx by auto
      next
        case ApprovalRevoked
        then have "enrol_inv store stored ok ((drop_entries [i] en)\<lparr>en_persisted := s'\<rparr>)"
          using law Inr by (intro drop_inv [OF inv, of s' "\<lambda>r. pr_id r = i" "[i]"]) auto
        then have "enrol_inv store stored ok (drop_entries [i] ?en)" by (simp only: drop_persisted)
        then show ?thesis using app' r Inr ApprovalRevoked mx withdrawn_inv by auto
      next
        case (ApprovalRefused err)
        then show ?thesis using app' r Inr law keep rev_keep mx by (auto split: if_splits)
      next
        case ApprovalDeciding
        then show ?thesis using app' r Inr law keep mx by auto
      qed
    qed
  qed
qed

lemma reject_inv:
  assumes inv0: "enrol_inv store stored ok en0" and rej: "reject now i en0 = (res, en')"
  shows "enrol_inv store stored ok en' \<and> max_per_bootstrap en' = max_per_bootstrap en0"
proof -
  obtain w en where ex: "expire now en0 = (w, en)" by (cases "expire now en0")
  then have inv: "enrol_inv store stored ok en" and mx: "max_per_bootstrap en = max_per_bootstrap en0"
    using expire_inv [OF inv0 ex] by blast+
  consider (none) "en' = en" | (asked) e where "map_of (queue_entries (en_state en)) i = Some e" "qe_decision e = None"
    using rej by (auto simp: reject_def ex Let_def split: option.splits if_splits)
  then show ?thesis
  proof cases
    case none
    then show ?thesis using inv mx by simp
  next
    case (asked e)
    obtain r s' where r: "es_decide store i Rejected (en_persisted en) = (r, s')"
      by (cases "es_decide store i Rejected (en_persisted en)")
    note law = decide_law [OF inv_facts(2) [OF inv] r]
    let ?en = "en\<lparr>en_persisted := s'\<rparr>"
    have waits: "map_of (queue_entries (en_state en)) i = Some e1 \<Longrightarrow> qe_decision e1 = None" for e1 using asked by simp
    have keep: "enrol_inv store stored ok ?en" if "stored s' = stored (en_persisted en)"
      using same_inv [OF inv _ that] law by blast
    have dec: "decided_entry i Rejected en = (case r of Inl _ \<Rightarrow> (Err DecStore, ?en)
        | Inr NotWaiting \<Rightarrow> (Err DecNotFound, drop_entries [i] ?en) | Inr Deciding \<Rightarrow> (Err DecDeciding, ?en)
        | Inr Written \<Rightarrow> (Ok (), decide_entry i Rejected ?en))"
      using r inv_facts(1) [OF inv] by (simp add: decided_entry_def)
    have rej': "(case decided_entry i Rejected en of (Inl err, en') \<Rightarrow> (Err err, en') | (Inr _, en') \<Rightarrow> (Ok (), changed en')) = (res, en')"
      using rej asked by (simp add: reject_def ex)
    show ?thesis
    proof (cases r)
      case (Inl u)
      then have "enrol_inv store stored ok ?en" using law decide_late_inv [OF inv, of s' i Rejected] waits by auto
      then show ?thesis using rej' dec Inl mx by auto
    next
      case (Inr d)
      then show ?thesis
        using rej' dec law keep drop_one_inv [of ?en "[i]"] decide_both_inv [OF inv, of s' i Rejected] mx
        by (cases d) auto
    qed
  qed
qed

lemma waiting_id_listed:
  assumes inv: "enrol_inv store stored ok en" and e: "map_of (queue_entries (en_state en)) (pr_id r) = Some e"
    and r: "entry_agrees r e" "pr_decision r = None" and P: "P (bootstrap (pr_requester r))"
  shows "pr_id r \<in> set (waiting_ids P en)"
proof -
  have "e \<in> snd ` set (queue_entries (en_state en))" using e by (rule map_of_in_values)
  moreover have "pend_id (qe_pending e) = pr_id r" "qe_decision e = None" "P (bootstrap (pend_requester (qe_pending e)))"
    using entry_agrees_simps [OF r(1)] r(2) P by auto
  ultimately show ?thesis by (force simp: waiting_ids_def)
qed

lemma withdraw_inv:
  assumes inv: "enrol_inv store stored ok en" and wd: "withdraw revoked en = (n, en')"
  shows "enrol_inv store stored ok en' \<and> max_per_bootstrap en' = max_per_bootstrap en"
proof -
  let ?ids = "waiting_ids revoked en"
  obtain r s' where r: "es_withdraw store ?ids (en_persisted en) = (r, s')" by (cases "es_withdraw store ?ids (en_persisted en)")
  note law = withdraw_law [OF inv_facts(2) [OF inv] r]
  have "enrol_inv store stored ok ((drop_entries ?ids en)\<lparr>en_persisted := s'\<rparr>)"
    using inv conjunct1 [OF law] by (rule drop_inv [where P = "\<lambda>r. pr_id r \<in> set ?ids"]) (use law in auto)
  moreover have "en' = (if ?ids \<noteq> [] then changed ((drop_entries ?ids en)\<lparr>en_persisted := s'\<rparr>) else en)"
    using wd r inv_facts(1) [OF inv] by (auto simp: withdraw_def Let_def on_store_def)
  ultimately show ?thesis using inv by auto
qed

lemma withdraw_revoked_inv:
  assumes inv: "enrol_inv store stored ok en" and wd: "withdraw_revoked issuers serial en = (n, en')"
  shows "enrol_inv store stored ok en' \<and> max_per_bootstrap en' = max_per_bootstrap en"
proof -
  let ?named = "\<lambda>b. snd b = serial \<and> fst b \<in> set issuers"
  let ?ids = "waiting_ids ?named en"
  obtain r s' where r: "es_withdraw_bootstrap store issuers serial (en_persisted en) = (r, s')"
    by (cases "es_withdraw_bootstrap store issuers serial (en_persisted en)")
  note law = withdraw_bootstrap_law [OF inv_facts(2) [OF inv] r]
  have "enrol_inv store stored ok ((drop_entries ?ids en)\<lparr>en_persisted := s'\<rparr>)"
    using inv conjunct1 [OF law]
    by (rule drop_inv [where P = "\<lambda>r. ?named (bootstrap (pr_requester r))"])
      (use law waiting_id_listed [OF inv, where P = ?named] in blast)+
  moreover have "en' = (drop_entries ?ids en)\<lparr>en_persisted := s'\<rparr> \<or> en' = changed ((drop_entries ?ids en)\<lparr>en_persisted := s'\<rparr>)"
    using wd r inv_facts(1) [OF inv] by (auto simp: withdraw_revoked_def Let_def split: sum.splits if_splits)
  ultimately show ?thesis by auto
qed

lemma open_inv:
  assumes inv: "enrol_inv store stored ok en" and op: "open_window now secs en = (res, en')"
  shows "enrol_inv store stored ok en' \<and> max_per_bootstrap en' = max_per_bootstrap en"
proof (cases "1 \<le> secs \<and> secs \<le> MAX_WINDOW_SECS")
  case False
  then show ?thesis using op inv by (auto simp: open_window_def)
next
  case True
  obtain r s' where r: "es_open_window store (now + secs * 1000) (en_persisted en) = (r, s')"
    by (cases "es_open_window store (now + secs * 1000) (en_persisted en)")
  note law = open_law [OF inv_facts(2) [OF inv] r]
  have "set (pq_requests (stored s')) = set (pq_requests (stored (en_persisted en)))" using law by auto
  then have "mirrors (stored s') (queue_entries (en_state en))"
    using inv_facts(4) [OF inv] by (simp add: mirrors_def)
  moreover have "bounded (max_per_bootstrap en) (stored s')"
    using law inv_facts(3) [OF inv] bounded_until by auto
  ultimately show ?thesis
    using op True r inv conjunct1 [OF law]
    by (auto simp: open_window_def on_store_def enrol_inv_def changed_def Let_def split: sum.splits)
qed

lemma close_inv:
  assumes inv: "enrol_inv store stored ok en" and cl: "close_window en = (res, en')"
  shows "enrol_inv store stored ok en' \<and> max_per_bootstrap en' = max_per_bootstrap en \<and> en_state en' = no_queue"
proof -
  obtain r s' where r: "es_close_window store (en_persisted en) = (r, s')" by (cases "es_close_window store (en_persisted en)")
  note law = close_law [OF inv_facts(2) [OF inv] r]
  have "en' = changed (en\<lparr>en_state := no_queue, en_persisted := s'\<rparr>)"
    using cl r inv_facts(1) [OF inv] by (auto simp: close_window_def on_store_def)
  moreover have "bounded (max_per_bootstrap en) (stored s')" using law inv_facts(3) [OF inv] by auto
  ultimately show ?thesis
    using inv law by (auto simp: enrol_inv_def no_queue_def changed_def)
qed

lemma restore_entries_mirrors:
  assumes "restore_entries rs m = Ok m'" and "mirrors q m" and "set rs \<subseteq> set (pq_requests q)"
  shows "mirrors q m'"
  using assms
proof (induction rs arbitrary: m)
  case (Cons r rs)
  then obtain e where e: "entry_restored r = Ok e" "restore_entries rs (bt_insert (pend_id (qe_pending e)) e m) = Ok m'"
    by (auto split: sum.splits)
  have "mirrors q (bt_insert (pr_id r) e m)" using Cons.prems e(1) by (intro mirrors_insert) auto
  then show ?case using Cons.IH [OF e(2)] entry_restored_simps [OF e(1)] Cons.prems(3) by simp
qed simp

lemma restore_entries_total: "\<forall>r \<in> set rs. hex_decode (pr_instance_uid r) \<noteq> None \<Longrightarrow> \<exists>m'. restore_entries rs m = Ok m'"
  by (induction rs arbitrary: m) (auto simp: entry_restored_def)

lemma load_state_mirrors:
  assumes ok: "ok s" and b: "bounded share (stored s)"
  shows "\<exists>st. load_state store s = Ok st \<and> mirrors (stored s) (queue_entries st)
    \<and> window_until_ms st = pq_until_ms (stored s) \<and> over_share st = []
    \<and> restore_entries (pq_requests (stored s)) [] = Ok (queue_entries st)"
proof -
  obtain q where q: "es_load store s = Ok q" "or_default q = stored s" using load_law [OF ok] by blast
  obtain m where m: "restore_entries (pq_requests (stored s)) [] = Ok m"
    using b restore_entries_total unfolding bounded_def by blast
  have "mirrors (stored s) m" using m by (rule restore_entries_mirrors) simp_all
  moreover have "q = None \<Longrightarrow> stored s = empty_queue" using q(2) by (simp add: or_default_def)
  ultimately show ?thesis
    using q m by (cases q) (auto simp: load_state_def or_default_def state_restored_def no_queue_def empty_queue_def)
qed

lemma reload_inv:
  assumes inv: "enrol_inv store stored ok en" and re: "enrol_reload en = (res, en')"
  shows "enrol_inv store stored ok en' \<and> max_per_bootstrap en' = max_per_bootstrap en"
proof -
  obtain st where st: "load_state store (en_persisted en) = Ok st"
    "mirrors (stored (en_persisted en)) (queue_entries st)" "window_until_ms st = pq_until_ms (stored (en_persisted en))"
    "restore_entries (pq_requests (stored (en_persisted en))) [] = Ok (queue_entries st)"
    using load_state_mirrors [OF inv_facts(2,3) [OF inv]] by blast
  have "pq_until_ms (stored (en_persisted en)) = None \<Longrightarrow> queue_entries st = []"
    using st(4) inv_facts(3) [OF inv] by (simp add: bounded_def)
  then show ?thesis
    using re st(1-3) inv by (auto simp: enrol_reload_def enrol_inv_def changed_def split: if_splits)
qed

end

section \<open>Sequences of acts\<close>

datatype 'x enrol_cmd =
  OpenWindow nat nat
| CloseWindow
| ReadWindow nat
| Submit nat nat nat enrol_request requester
| ListPending nat
| Approve nat string "string \<Rightarrow> subject_values \<Rightarrow> unit + string"
    "string \<Rightarrow> string \<Rightarrow> cert_id \<Rightarrow> 'x \<Rightarrow> (decision_error + unit) \<times> 'x" "cert_id \<Rightarrow> bool"
| Reject nat string
| Withdraw "cert_id \<Rightarrow> bool"
| WithdrawRevoked "string list" string
| ReloadQueue

fun enrol_step :: "'x enrol_cmd \<Rightarrow> 'x \<times> ('s, 'x) enrolment \<Rightarrow> 'x \<times> ('s, 'x) enrolment" where
  "enrol_step (OpenWindow now secs) (x, en) = (x, snd (open_window now secs en))"
| "enrol_step CloseWindow (x, en) = (x, snd (close_window en))"
| "enrol_step (ReadWindow now) (x, en) = (x, snd (window now en))"
| "enrol_step (Submit now arrived taken rq who) (x, en) = (x, snd (submit now arrived taken rq who en))"
| "enrol_step (ListPending now) (x, en) = (x, snd (pending_requests now en))"
| "enrol_step (Approve now i sign rec_cert revoked) (x, en) = snd (approve now i sign rec_cert revoked x en)"
| "enrol_step (Reject now i) (x, en) = (x, snd (reject now i en))"
| "enrol_step (Withdraw revoked) (x, en) = (x, snd (withdraw revoked en))"
| "enrol_step (WithdrawRevoked issuers serial) (x, en) = (x, snd (withdraw_revoked issuers serial en))"
| "enrol_step ReloadQueue (x, en) = (x, snd (enrol_reload en))"

definition run_inv_at ::
  "('s, 'x) enrolment_store \<Rightarrow> ('s \<Rightarrow> persisted_queue) \<Rightarrow> ('s \<Rightarrow> bool) \<Rightarrow> nat \<Rightarrow> 'x \<times> ('s, 'x) enrolment \<Rightarrow> bool" where
  "run_inv_at store stored ok share st \<longleftrightarrow> enrol_inv store stored ok (snd st) \<and> max_per_bootstrap (snd st) = share"

context enrolment_port
begin

lemma step_inv:
  assumes "run_inv_at store stored ok share st"
  shows "run_inv_at store stored ok share (enrol_step c st)"
proof (cases st)
  case (Pair x en)
  then have inv: "enrol_inv store stored ok en" and mx: "max_per_bootstrap en = share"
    using assms by (simp_all add: run_inv_at_def)
  show ?thesis
  proof (cases c)
    case (ListPending now)
    then show ?thesis
      using Pair expire_inv [OF inv surjective_pairing, of now] mx
      by (simp add: run_inv_at_def pending_requests_def split_beta)
  next
    case (Approve now i sign rec_cert revoked)
    obtain res x' en' where "approve now i sign rec_cert revoked x en = (res, x', en')" by (metis surj_pair)
    then show ?thesis using Pair Approve approve_inv [OF inv] mx by (simp add: run_inv_at_def)
  qed (use Pair mx open_inv [OF inv surjective_pairing] close_inv [OF inv surjective_pairing]
      expire_inv [OF inv surjective_pairing] submit_inv [OF inv surjective_pairing] reject_inv [OF inv surjective_pairing]
      withdraw_inv [OF inv surjective_pairing] withdraw_revoked_inv [OF inv surjective_pairing]
      reload_inv [OF inv surjective_pairing] in \<open>simp_all add: run_inv_at_def window_def\<close>)
qed

end

sublocale enrolment_port \<subseteq> run: machine "run_inv_at store stored ok share" enrol_step "run_inv_at store stored ok share" for share
  by unfold_locales (auto intro: step_inv)

lemma mirrors_count:
  assumes m: "mirrors q m" and dist: "distinct (map pr_id (pq_requests q))"
  shows "length (filter (\<lambda>x. P (pend_requester (qe_pending (snd x)))) m) \<le> length (filter (\<lambda>r. P (pr_requester r)) (pq_requests q))"
proof -
  let ?m = "filter (\<lambda>x. P (pend_requester (qe_pending (snd x)))) m" and ?rs = "filter (\<lambda>r. P (pr_requester r)) (pq_requests q)"
  have wf: "bt_wf m" by (rule mirrors_wf [OF m])
  have "fst ` set ?m \<subseteq> pr_id ` set ?rs"
  proof
    fix i assume "i \<in> fst ` set ?m"
    then obtain e where e: "(i, e) \<in> set m" "P (pend_requester (qe_pending e))" by auto
    then have "map_of m i = Some e" using bt_wf_map_of_iff [OF wf] by blast
    then obtain r where r: "r \<in> set (pq_requests q)" "pr_id r = i" "entry_agrees r e" by (rule mirrors_obtain [OF m])
    then have "r \<in> set ?rs" using e(2) entry_agrees_simps [OF r(3)] by simp
    then show "i \<in> pr_id ` set ?rs" using r(2) by blast
  qed
  then have "card (fst ` set ?m) \<le> card (pr_id ` set ?rs)" by (intro card_mono) auto
  also have "\<dots> \<le> length ?rs" using card_image_le card_length le_trans by (metis List.finite_set)
  finally have "card (set (map fst ?m)) \<le> length ?rs" by simp
  moreover have "distinct (map fst ?m)" using bt_wf_distinct [OF bt_wf_filter [OF wf]] .
  ultimately show ?thesis using distinct_card by fastforce
qed

interpretation enrol_fs: enrolment_port fs_enrolment_store efs_stored efs_ok
  unfolding fs_enrolment_store_def by (rule efs.port.enrolment_port_axioms)

lemma open_on_inv:
  fixes en :: "(enrolment_file disk, 'x) enrolment"
  assumes op: "open_on fs_enrolment_store now s = (Ok en, s')"
    and b: "bounded (max_per_bootstrap (with_max_pending_per_bootstrap m en)) (efs_stored s)"
  shows "run_inv_at fs_enrolment_store efs_stored efs_ok (max 1 (min m MAX_PENDING)) (x, with_max_pending_per_bootstrap m en)"
proof -
  have mx: "max_per_bootstrap (with_max_pending_per_bootstrap m en) = max 1 (min m MAX_PENDING)"
    by (simp add: with_max_pending_per_bootstrap_def)
  have ok: "efs_ok s"
    using op by (auto simp: open_on_def load_state_def fs_enrolment_store_def default_store_def efs_load_def efs_ok_def Let_def
        split: option.splits)
  obtain st where st: "load_state (fs_enrolment_store :: (_, 'x) enrolment_store) s = Ok st"
    "mirrors (efs_stored s) (queue_entries st)" "window_until_ms st = pq_until_ms (efs_stored s)"
    "restore_entries (pq_requests (efs_stored s)) [] = Ok (queue_entries st)"
    using enrol_fs.load_state_mirrors [OF ok b] by blast
  have empty: "pq_until_ms (efs_stored s) = None \<Longrightarrow> queue_entries st = []" using st(4) b by (simp add: bounded_def)
  have "en_store en = Some fs_enrolment_store \<and> efs_ok (en_persisted en)
      \<and> bounded (max_per_bootstrap (with_max_pending_per_bootstrap m en)) (efs_stored (en_persisted en))
      \<and> mirrors (efs_stored (en_persisted en)) (queue_entries (en_state en))
      \<and> (window_until_ms (en_state en) = None \<longrightarrow> queue_entries (en_state en) = [])"
  proof (cases "\<exists>u. window_until_ms st = Some u \<and> u \<le> now")
    case True
    then obtain u where u: "window_until_ms st = Some u" "u \<le> now" by blast
    obtain r s1 where r: "es_end_window (fs_enrolment_store :: (_, 'x) enrolment_store) u s = (r, s1)"
      by (cases "es_end_window (fs_enrolment_store :: (_, 'x) enrolment_store) u s")
    then have "en_state en = no_queue" "en_persisted en = s1" "en_store en = Some fs_enrolment_store"
      using op st(1) u by (auto simp: open_on_def Let_def split: sum.splits)
    then show ?thesis using enrol_fs.end_law [OF ok r] b by (auto simp: no_queue_def)
  next
    case False
    then have "en_state en = st" "en_persisted en = s" "en_store en = Some fs_enrolment_store"
      using op st(1,3) empty by (auto simp: open_on_def Let_def split: option.splits if_splits)
    then show ?thesis using ok b st(2,3) empty by simp
  qed
  then show ?thesis
    unfolding run_inv_at_def enrol_inv_def mx snd_conv by (simp add: with_max_pending_per_bootstrap_def)
qed

text \<open>An enrolment on an empty data directory, and one with a request waiting, for the examples below.\<close>

definition sample_enrolment :: "io list \<Rightarrow> (enrolment_file disk, nat) enrolment" where
  "sample_enrolment outcomes =
     \<lparr>en_state = no_queue, max_per_bootstrap = DEFAULT_MAX_PENDING_PER_BOOTSTRAP, en_store = Some fs_enrolment_store,
      en_persisted = \<lparr>disk_content = None, disk_outcomes = outcomes\<rparr>, changes = 0, en_audit = None\<rparr>"

lemma sample_opened:
  "open_on fs_enrolment_store now (en_persisted (sample_enrolment outcomes)) =
     (Ok (sample_enrolment outcomes), en_persisted (sample_enrolment outcomes))"
  by (simp add: open_on_def load_state_def fs_enrolment_store_def default_store_def efs_load_def sample_enrolment_def no_queue_def)

lemma sample_bounded: "bounded share (efs_stored (en_persisted (sample_enrolment outcomes)))"
  by (simp add: efs_stored_def sample_enrolment_def)

definition sample_requester :: requester where
  "sample_requester = \<lparr>bootstrap_subject = ''O=c'', carried = Ok no_values, bootstrap_fingerprint = ''f'', bootstrap = (''1a'', ''2b''),
     peer = None, via_gateway = None\<rparr>"

definition sample_request :: enrol_request where
  "sample_request = \<lparr>rq_csr_pem = ''csr'', rq_subject = ''CN=h'', rq_key_fingerprint = ''k'', rq_instance_uid = []\<rparr>"

text \<open>The CA signs everything, and the register counts what it recorded.\<close>

definition sample_record :: "string \<Rightarrow> string \<Rightarrow> cert_id \<Rightarrow> nat \<Rightarrow> (decision_error + unit) \<times> nat" where
  "sample_record pem uid b n = (Ok (), Suc n)"

definition sample_run :: "nat enrol_cmd list \<Rightarrow> io list \<Rightarrow> nat \<times> (enrolment_file disk, nat) enrolment" where
  "sample_run cmds outcomes = fold enrol_step ([OpenWindow 0 1, Submit 1 1 1 sample_request sample_requester] @ cmds)
     (0, with_max_pending_per_bootstrap 1 (sample_enrolment outcomes))"

lemma sample_run_inv: "run_inv_at fs_enrolment_store efs_stored efs_ok 1 (sample_run cmds outcomes)"
proof -
  have "run_inv_at fs_enrolment_store efs_stored efs_ok (max 1 (min 1 MAX_PENDING)) (sample_run cmds outcomes)"
    unfolding sample_run_def by (rule enrol_fs.run.run_inv) (rule open_on_inv [OF sample_opened sample_bounded])
  then show ?thesis by simp
qed

definition sample_waiting :: "(enrolment_file disk, nat) enrolment" where
  "sample_waiting =
     (let e = request_entry 1 sample_request sample_requester in
      \<lparr>en_state = \<lparr>window_until_ms = Some 1000, queue_entries = [(''k'', e)], over_share = []\<rparr>, max_per_bootstrap = 1,
       en_store = Some fs_enrolment_store,
       en_persisted = \<lparr>disk_content = Some (Some \<lparr>pq_until_ms = Some 1000, pq_requests = [entry_persisted e]\<rparr>), disk_outcomes = []\<rparr>,
       changes = 2, en_audit = None\<rparr>)"

lemmas efs_eval_simps = fs_enrolment_store_def default_store_def efs_load_def efs_save_def replace_doc_def next_io_def
  save_then_def or_default_def empty_queue_def no_queue_def default_open_window_def default_take_def default_approve_def

lemma sample_run_waiting: "sample_run [] [] = (0, sample_waiting)"
proof -
  have "open_window 0 1 (with_max_pending_per_bootstrap 1 (sample_enrolment [])) =
      (Ok 1000, (with_max_pending_per_bootstrap 1 (sample_enrolment []))\<lparr>
         en_state := no_queue\<lparr>window_until_ms := Some 1000\<rparr>,
         en_persisted := \<lparr>disk_content = Some (Some \<lparr>pq_until_ms = Some 1000, pq_requests = []\<rparr>), disk_outcomes = []\<rparr>,
         changes := 1\<rparr>)"
    by (simp add: open_window_def on_store_def sample_enrolment_def with_max_pending_per_bootstrap_def changed_def
        MAX_WINDOW_SECS_def MAX_PENDING_def efs_eval_simps Let_def)
  then show ?thesis
    by (simp add: sample_run_def submit_def expire_def sample_enrolment_def with_max_pending_per_bootstrap_def
        changed_def put_entry_def efs_eval_simps MAX_PENDING_def sample_waiting_def Let_def sample_request_def
        request_entry_def entry_persisted_def)
qed

lemma sample_approved:
  "fst (approve 5 ''k'' (\<lambda>csr vals. Ok csr) sample_record (\<lambda>b. False) 0 sample_waiting) = Ok ()"
  "pq_requests (efs_stored (en_persisted (snd (snd (approve 5 ''k'' (\<lambda>csr vals. Ok csr) sample_record (\<lambda>b. False) 0 sample_waiting)))))
     = [(entry_persisted (request_entry 1 sample_request sample_requester))\<lparr>pr_decision := Some (Approved ''csr'')\<rparr>]"
proof -
  let ?e = "request_entry 1 sample_request sample_requester"
  have sgn: "signing (\<lambda>csr vals. Ok csr) sample_record ?e vals 0 = (Ok (Approved ''csr''), 1)" for vals
    by (simp add: signing_def sample_record_def request_entry_def sample_request_def)
  have e: "qe_decision ?e = None" "carried (pend_requester (qe_pending ?e)) = Ok no_values"
    "pr_id (entry_persisted ?e) = ''k''" "pr_decision (entry_persisted ?e) = None"
    by (simp_all add: request_entry_def sample_requester_def sample_request_def entry_persisted_def)
  show "fst (approve 5 ''k'' (\<lambda>csr vals. Ok csr) sample_record (\<lambda>b. False) 0 sample_waiting) = Ok ()"
    "pq_requests (efs_stored (en_persisted (snd (snd (approve 5 ''k'' (\<lambda>csr vals. Ok csr) sample_record (\<lambda>b. False) 0 sample_waiting)))))
     = [(entry_persisted ?e)\<lparr>pr_decision := Some (Approved ''csr'')\<rparr>]"
    using sgn e by (simp_all add: approve_def expire_def sample_waiting_def Let_def is_waiting_def efs_eval_simps efs_stored_def
        changed_def decide_entry_def)
qed

text \<open>
  C6: The queue stays within its bounds. From a data directory whose queue is within them, after any acts of operators and
  hosts, at any times and whatever writes failed before or after they took effect, memory and the file each hold at most
  \<open>MAX_PENDING\<close> requests and of one bootstrap certificate at most its share, clamped to 1 to \<open>MAX_PENDING\<close>; ids in the file are
  distinct, and a closed window holds no request.
\<close>

theorem enrolment_queue_bounds:
  assumes opened: "open_on fs_enrolment_store now s = (Ok en, s')"
    and start: "bounded (max 1 (min m MAX_PENDING)) (efs_stored s)"
  shows "let en' = snd (fold enrol_step cmds (x, with_max_pending_per_bootstrap m en)) in
    bounded (max 1 (min m MAX_PENDING)) (efs_stored (en_persisted en'))
    \<and> length (queue_entries (en_state en')) \<le> MAX_PENDING
    \<and> (\<forall>b. length (filter (\<lambda>e. bootstrap (pend_requester (qe_pending (snd e))) = b) (queue_entries (en_state en')))
          \<le> max 1 (min m MAX_PENDING))
    \<and> (window_until_ms (en_state en') = None \<longrightarrow> queue_entries (en_state en') = [])"
proof -
  define en' where "en' = snd (fold enrol_step cmds (x, with_max_pending_per_bootstrap m en))"
  have "max_per_bootstrap (with_max_pending_per_bootstrap m en) = max 1 (min m MAX_PENDING)"
    by (simp add: with_max_pending_per_bootstrap_def)
  then have "run_inv_at fs_enrolment_store efs_stored efs_ok (max 1 (min m MAX_PENDING))
      (fold enrol_step cmds (x, with_max_pending_per_bootstrap m en))"
    using open_on_inv [OF opened, of m x] start by (intro enrol_fs.run.run_inv) simp
  then have inv: "enrol_inv fs_enrolment_store efs_stored efs_ok en'" and mx: "max_per_bootstrap en' = max 1 (min m MAX_PENDING)"
    by (simp_all add: run_inv_at_def en'_def)
  note facts = enrol_fs.inv_facts [OF inv]
  have len: "length (queue_entries (en_state en')) \<le> length (pq_requests (efs_stored (en_persisted en')))"
    using mirrors_count [OF facts(4,5), of "\<lambda>_. True"] by simp
  have share: "length (filter (\<lambda>e. bootstrap (pend_requester (qe_pending (snd e))) = b) (queue_entries (en_state en')))
      \<le> share_of b (pq_requests (efs_stored (en_persisted en')))" for b
    using mirrors_count [OF facts(4,5), of "\<lambda>r. bootstrap r = b"] by (simp add: share_of_def)
  have bounds: "length (pq_requests (efs_stored (en_persisted en'))) \<le> MAX_PENDING"
    "share_of b (pq_requests (efs_stored (en_persisted en'))) \<le> max 1 (min m MAX_PENDING)" for b
    using facts(3) mx by (simp_all add: bounded_def del: split_paired_All)
  have "window_until_ms (en_state en') = None \<longrightarrow> queue_entries (en_state en') = []"
    using inv by (simp add: enrol_inv_def)
  then show ?thesis
    unfolding Let_def en'_def [symmetric]
    using facts(3) [unfolded mx] le_trans [OF len bounds(1)] le_trans [OF share bounds(2)] by blast
qed

lemma enrolment_queue_bounds_witness:
  "length (queue_entries (en_state (snd (fold enrol_step
     [OpenWindow 0 1, Submit 1 1 1 sample_request sample_requester]
     (0, with_max_pending_per_bootstrap 1 (sample_enrolment [IoOk, IoLate])))))) \<le> MAX_PENDING"
  using enrolment_queue_bounds [OF sample_opened sample_bounded, where m = 1 and x = 0
      and cmds = "[OpenWindow 0 1, Submit 1 1 1 sample_request sample_requester]"]
  by (simp only: Let_def)

section \<open>Approvals\<close>

context enrolment_port
begin

lemma approve_sound:
  assumes inv0: "enrol_inv store stored ok en0" and app: "approve now i sign rec_cert revoked x en0 = (res, x', en')"
    and signed: "res = Ok () \<or> x' \<noteq> x"
  shows "\<exists>until e vals. window_until_ms (en_state en0) = Some until \<and> now < until
    \<and> map_of (queue_entries (en_state en0)) i = Some e \<and> qe_decision e = None
    \<and> \<not> revoked (bootstrap (pend_requester (qe_pending e))) \<and> carried (pend_requester (qe_pending e)) = Ok vals
    \<and> q_waits i (stored (en_persisted en0)) \<and> x' = snd (signing sign rec_cert e vals x)
    \<and> (res = Ok () \<longrightarrow> (\<exists>d. fst (signing sign rec_cert e vals x) = Ok d
         \<and> map_of (queue_entries (en_state en')) i = Some (e\<lparr>qe_decision := Some d\<rparr>)
         \<and> stored (en_persisted en') = q_decided i d (stored (en_persisted en0))))"
proof -
  obtain w en where ex: "expire now en0 = (w, en)" by (cases "expire now en0")
  have asked: "\<exists>e vals. map_of (queue_entries (en_state en)) i = Some e \<and> qe_decision e = None
      \<and> \<not> revoked (bootstrap (pend_requester (qe_pending e))) \<and> carried (pend_requester (qe_pending e)) = Ok vals"
    using app signed by (auto simp: approve_def ex Let_def split: option.splits if_splits sum.splits)
  then obtain e vals where e: "map_of (queue_entries (en_state en)) i = Some e" "qe_decision e = None"
    "\<not> revoked (bootstrap (pend_requester (qe_pending e)))" "carried (pend_requester (qe_pending e)) = Ok vals" by blast
  obtain u where en: "en = en0" and u: "window_until_ms (en_state en0) = Some u" "now < u"
    using expire_entries [OF inv0 ex e(1)] by blast
  obtain r x1 s' where r: "es_approve store i (bootstrap (pend_requester (qe_pending e))) (signing sign rec_cert e vals) x
      (en_persisted en0) = (r, x1, s')"
    by (metis surj_pair)
  note law = approve_law [OF inv_facts(2) [OF inv0] r]
  let ?en = "en0\<lparr>en_persisted := s'\<rparr>"
  have app': "(case r of Inl _ \<Rightarrow> (Err DecStore, x1, ?en)
      | Inr (ApprovedNow d) \<Rightarrow> (Ok (), x1, changed (decide_entry i d ?en))
      | Inr ApprovalNotWaiting \<Rightarrow> (Err DecNotFound, x1, drop_entries [i] ?en)
      | Inr ApprovalRevoked \<Rightarrow> (Err DecRevoked, x1, withdrawn i ?en)
      | Inr (ApprovalRefused err) \<Rightarrow> if err = DecRevoked then (Err DecRevoked, x1, withdrawn i ?en) else (Err err, x1, ?en)
      | Inr ApprovalDeciding \<Rightarrow> (Err DecDeciding, x1, ?en)) = (res, x', en')"
    using app e r inv_facts(1) [OF inv0] by (simp add: approve_def ex en Let_def)
  have x': "x' = x1" using app' by (auto split: sum.splits approval.splits if_splits)
  have waits: "q_waits i (stored (en_persisted en0)) \<and> x1 = snd (signing sign rec_cert e vals x)"
    using law app' signed x' by (auto split: sum.splits approval.splits)
  have decision: "\<exists>d. fst (signing sign rec_cert e vals x) = Ok d
         \<and> map_of (queue_entries (en_state en')) i = Some (e\<lparr>qe_decision := Some d\<rparr>)
         \<and> stored (en_persisted en') = q_decided i d (stored (en_persisted en0))" if answered: "res = Ok ()"
  proof -
    obtain d where d: "r = Inr (ApprovedNow d)" using app' answered by (auto split: sum.splits approval.splits if_splits)
    then have "en' = changed (decide_entry i d ?en)" using app' by simp
    then show ?thesis using law d e(1) en by (auto simp: changed_def decide_entry_def)
  qed
  show ?thesis using u e en waits x' decision by blast
qed

end

text \<open>
  C5: A certificate is signed and recorded only for a request that an open window holds waiting, in memory and in the store,
  whose bootstrap certificate is not revoked and has values to carry; what is signed is that request with those values, and
  when the approval is answered with success both memory and the store hold the decision.
\<close>

theorem approval_signs_waiting_request:
  assumes inv: "enrol_inv fs_enrolment_store efs_stored efs_ok en"
    and app: "approve now i sign rec_cert revoked x en = (res, x', en')" and signed: "res = Ok () \<or> x' \<noteq> x"
  shows "\<exists>until e vals. window_until_ms (en_state en) = Some until \<and> now < until
    \<and> map_of (queue_entries (en_state en)) i = Some e \<and> qe_decision e = None
    \<and> \<not> revoked (bootstrap (pend_requester (qe_pending e))) \<and> carried (pend_requester (qe_pending e)) = Ok vals
    \<and> q_waits i (efs_stored (en_persisted en)) \<and> x' = snd (signing sign rec_cert e vals x)
    \<and> (res = Ok () \<longrightarrow> (\<exists>d. fst (signing sign rec_cert e vals x) = Ok d
         \<and> map_of (queue_entries (en_state en')) i = Some (e\<lparr>qe_decision := Some d\<rparr>)
         \<and> efs_stored (en_persisted en') = q_decided i d (efs_stored (en_persisted en))))"
  by (rule enrol_fs.approve_sound [OF assms])

lemma approval_signs_waiting_request_witness:
  "\<exists>until. window_until_ms (en_state sample_waiting) = Some until \<and> 5 < until
     \<and> q_waits ''k'' (efs_stored (en_persisted sample_waiting))"
proof -
  let ?app = "approve 5 ''k'' (\<lambda>csr vals. Ok csr) sample_record (\<lambda>b. False) 0 sample_waiting"
  have inv: "enrol_inv fs_enrolment_store efs_stored efs_ok sample_waiting"
    using sample_run_inv [of "[]" "[]"] by (simp add: run_inv_at_def sample_run_waiting)
  have app: "?app = (fst ?app, fst (snd ?app), snd (snd ?app))" by simp
  show ?thesis using approval_signs_waiting_request [OF inv app] sample_approved(1) by blast
qed

section \<open>The queue as an abstract machine\<close>

text \<open>What may happen to the queue, whoever acts.\<close>

inductive queue_step :: "nat \<Rightarrow> persisted_queue \<Rightarrow> persisted_queue \<Rightarrow> bool" for share where
  add: "queue_step share q (q_added r q)" if "q_room now MAX_PENDING share r q" and "pr_decision r = None"
| decide: "queue_step share q (q_decided i d q)" if "q_waits i q"
| withdraw: "queue_step share q (q_without P q)"
| open_until: "queue_step share q (q\<lparr>pq_until_ms := Some until\<rparr>)"
| close: "queue_step share q empty_queue"

abbreviation queue_steps :: "nat \<Rightarrow> persisted_queue \<Rightarrow> persisted_queue \<Rightarrow> bool" where
  "queue_steps share \<equiv> (queue_step share)\<^sup>*\<^sup>*"

lemma decide_steps: "queue_steps share q (q_decided i d q)"
proof (cases "q_waits i q")
  case True
  then show ?thesis by (intro r_into_rtranclp queue_step.decide)
next
  case False
  then have "q_decided i d q = q" by (simp add: q_decided_def q_waits_def not_waiting_decided)
  then show ?thesis by simp
qed

lemma queue_stepI [intro]:
  "q_room now MAX_PENDING share r q \<Longrightarrow> pr_decision r = None \<Longrightarrow> queue_steps share q (q_added r q)"
  "queue_steps share q (q_decided i d q)"
  "queue_steps share q (q_without P q)"
  "queue_steps share q (q\<lparr>pq_until_ms := Some until\<rparr>)"
  "queue_steps share q empty_queue"
  by (intro r_into_rtranclp queue_step.intros decide_steps | assumption)+

definition decided_in :: "persisted_queue \<Rightarrow> string \<Rightarrow> decision \<Rightarrow> bool" where
  "decided_in q i d \<longleftrightarrow> (\<exists>r \<in> set (pq_requests q). pr_id r = i \<and> pr_decision r = Some d)"

lemma decide_first_keeps: "r \<in> set rs \<Longrightarrow> pr_decision r \<noteq> None \<Longrightarrow> r \<in> set (decide_first i d rs)"
  by (induction rs) (auto simp: is_waiting_def)

lemma queue_step_decided: "queue_step share q q' \<Longrightarrow> decided_in q i d \<Longrightarrow> decided_in q' i d \<or> q' = empty_queue"
proof (induction rule: queue_step.induct)
  case (decide j q d')
  then show ?case by (fastforce simp: decided_in_def q_decided_def intro: decide_first_keeps)
qed (auto simp: decided_in_def q_added_def q_without_def)

lemma queue_steps_decided:
  "queue_steps share q q' \<Longrightarrow> decided_in q i d \<Longrightarrow>
   decided_in q' i d \<or> (queue_steps share q empty_queue \<and> queue_steps share empty_queue q')"
proof (induction rule: rtranclp_induct)
  case (step q1 q2)
  then show ?case using queue_step_decided [OF step(2), of i d] by (metis rtranclp.rtrancl_into_rtrancl rtranclp.rtrancl_refl)
qed simp

context enrolment_port
begin

lemma expire_steps:
  assumes inv: "enrol_inv store stored ok en" and ex: "expire now en = (w, en')"
  shows "queue_steps share (stored (en_persisted en)) (stored (en_persisted en'))"
proof (cases "\<exists>u. window_until_ms (en_state en) = Some u \<and> u \<le> now")
  case True
  then obtain u where u: "window_until_ms (en_state en) = Some u" "u \<le> now" by blast
  obtain r s' where r: "es_end_window store u (en_persisted en) = (r, s')" by (cases "es_end_window store u (en_persisted en)")
  then have "en_persisted en' = s'"
    using ex u inv_facts(1) [OF inv] by (auto simp: expire_def Let_def changed_def split: sum.splits if_splits)
  then show ?thesis using end_law [OF inv_facts(2) [OF inv] r] by auto
next
  case False
  then have "en' = en" using ex by (auto simp: expire_def not_le split: option.splits if_splits)
  then show ?thesis by simp
qed

lemma withdrawn_steps:
  assumes "en_store en = Some store" and "ok (en_persisted en)"
  shows "queue_steps share (stored (en_persisted en)) (stored (en_persisted (withdrawn i en)))"
proof -
  have "en_persisted (withdrawn i en) = snd (es_withdraw store [i] (en_persisted en))"
    using assms(1) by (simp add: withdrawn_def on_store_def changed_def split_beta)
  then show ?thesis
    using withdraw_law [OF assms(2) surjective_pairing, of "[i]"] by (metis queue_stepI(3) rtranclp.rtrancl_refl)
qed

lemma submit_steps:
  assumes inv: "enrol_inv store stored ok en" and mx: "max_per_bootstrap en = share"
  shows "queue_steps share (stored (en_persisted en)) (stored (en_persisted (snd (submit now arrived taken rq who en))))"
proof -
  obtain w en1 where ex: "expire now en = (w, en1)" by (cases "expire now en")
  note ex' = expire_inv [OF inv ex]
  let ?r = "entry_persisted (request_entry arrived rq who)"
  have "en_persisted (snd (submit now arrived taken rq who en)) = en_persisted en1
      \<or> en_persisted (snd (submit now arrived taken rq who en))
        = snd (es_take store ?r taken MAX_PENDING share (en_persisted en1))"
    using inv_facts(1) [OF conjunct1 [OF ex']] mx ex'
    by (auto simp: submit_def ex Let_def changed_def put_entry_def split: option.splits prod.splits sum.splits took.splits)
  moreover have "queue_steps share (stored (en_persisted en1))
      (stored (snd (es_take store ?r taken MAX_PENDING share (en_persisted en1))))"
  proof -
    obtain t s' where t: "es_take store ?r taken MAX_PENDING share (en_persisted en1) = (t, s')"
      by (cases "es_take store ?r taken MAX_PENDING share (en_persisted en1)")
    have "pr_decision ?r = None" by (simp add: entry_persisted_def request_entry_def)
    then have "q_room taken MAX_PENDING share ?r (stored (en_persisted en1)) \<Longrightarrow>
        queue_steps share (stored (en_persisted en1)) (q_added ?r (stored (en_persisted en1)))"
      by (intro queue_stepI(1))
    then show ?thesis
      using take_law [OF inv_facts(2) [OF conjunct1 [OF ex']] t] t by (auto split: sum.splits took.splits)
  qed
  ultimately show ?thesis using expire_steps [OF inv ex] by (metis rtranclp_trans)
qed

lemma approve_steps:
  assumes inv0: "enrol_inv store stored ok en0"
  shows "queue_steps share (stored (en_persisted en0))
    (stored (en_persisted (snd (snd (approve now i sign rec_cert revoked x en0)))))"
proof -
  obtain w en where ex: "expire now en0 = (w, en)" by (cases "expire now en0")
  have inv: "enrol_inv store stored ok en" using expire_inv [OF inv0 ex] by blast
  note facts = inv_facts [OF inv]
  let ?out = "snd (snd (approve now i sign rec_cert revoked x en0))"
  consider (none) "?out = en" | (rev) "?out = withdrawn i en"
    | (asked) e vals where "map_of (queue_entries (en_state en)) i = Some e" "qe_decision e = None"
        "carried (pend_requester (qe_pending e)) = Ok vals" "\<not> revoked (bootstrap (pend_requester (qe_pending e)))"
    by (cases "approve now i sign rec_cert revoked x en0")
      (auto simp: approve_def ex Let_def split: option.splits if_splits sum.splits)
  then have "queue_steps share (stored (en_persisted en)) (stored (en_persisted ?out))"
  proof cases
    case none
    then show ?thesis by simp
  next
    case rev
    then show ?thesis using withdrawn_steps [OF facts(1,2)] by simp
  next
    case (asked e vals)
    obtain r x1 s' where r: "es_approve store i (bootstrap (pend_requester (qe_pending e))) (signing sign rec_cert e vals) x
        (en_persisted en) = (r, x1, s')"
      by (metis surj_pair)
    have "en_persisted ?out = s' \<or> ?out = withdrawn i (en\<lparr>en_persisted := s'\<rparr>)"
      using asked r facts(1)
      by (auto simp: approve_def ex changed_def decide_entry_def drop_entries_def split: sum.split approval.split)
    moreover have law: "ok s'" "queue_steps share (stored (en_persisted en)) (stored s')"
      using approve_law [OF facts(2) r] by (auto split: sum.splits approval.splits)
    moreover have "queue_steps share (stored s') (stored (en_persisted (withdrawn i (en\<lparr>en_persisted := s'\<rparr>))))"
      using withdrawn_steps [of "en\<lparr>en_persisted := s'\<rparr>"] law(1) facts(1) by simp
    ultimately show ?thesis by (metis rtranclp_trans)
  qed
  then show ?thesis using expire_steps [OF inv0 ex] by (metis rtranclp_trans)
qed

lemma reject_steps:
  assumes inv0: "enrol_inv store stored ok en0"
  shows "queue_steps share (stored (en_persisted en0)) (stored (en_persisted (snd (reject now i en0))))"
proof -
  obtain w en where ex: "expire now en0 = (w, en)" by (cases "expire now en0")
  have inv: "enrol_inv store stored ok en" using expire_inv [OF inv0 ex] by blast
  obtain r s' where r: "es_decide store i Rejected (en_persisted en) = (r, s')"
    by (cases "es_decide store i Rejected (en_persisted en)")
  have "en_persisted (snd (reject now i en0)) = en_persisted en \<or> en_persisted (snd (reject now i en0)) = s'"
    using r inv_facts(1) [OF inv]
    by (simp add: reject_def ex decided_entry_def changed_def decide_entry_def drop_entries_def
        split: option.split sum.split decided.split)
  moreover have "queue_steps share (stored (en_persisted en)) (stored s')"
    using decide_law [OF inv_facts(2) [OF inv] r] by (auto split: sum.splits decided.splits)
  ultimately show ?thesis using expire_steps [OF inv0 ex] by (metis rtranclp_trans)
qed

lemma store_act_steps:
  assumes inv: "enrol_inv store stored ok en"
  shows "queue_steps share (stored (en_persisted en)) (stored (en_persisted (snd (withdraw revoked en))))"
    and "queue_steps share (stored (en_persisted en)) (stored (en_persisted (snd (withdraw_revoked issuers serial en))))"
    and "queue_steps share (stored (en_persisted en)) (stored (en_persisted (snd (open_window now secs en))))"
    and "queue_steps share (stored (en_persisted en)) (stored (en_persisted (snd (close_window en))))"
proof -
  note store = inv_facts(1) [OF inv] and ok = inv_facts(2) [OF inv]
  have "en_persisted (snd (withdraw revoked en)) \<in> {en_persisted en, snd (es_withdraw store (waiting_ids revoked en) (en_persisted en))}"
    using store by (simp add: withdraw_def Let_def on_store_def changed_def split_beta)
  then show "queue_steps share (stored (en_persisted en)) (stored (en_persisted (snd (withdraw revoked en))))"
    using withdraw_law [OF ok surjective_pairing] by (metis queue_stepI(3) insertE rtranclp.rtrancl_refl singletonD)
  have "en_persisted (snd (withdraw_revoked issuers serial en)) = snd (es_withdraw_bootstrap store issuers serial (en_persisted en))"
    using store by (simp add: withdraw_revoked_def Let_def changed_def split_beta split: sum.split)
  then show "queue_steps share (stored (en_persisted en)) (stored (en_persisted (snd (withdraw_revoked issuers serial en))))"
    using conjunct1 [OF conjunct2 [OF withdraw_bootstrap_law [OF ok surjective_pairing, of issuers serial]]]
    by (elim disjE) (simp_all add: queue_stepI)
  have "en_persisted (snd (open_window now secs en))
      \<in> {en_persisted en, snd (es_open_window store (now + secs * 1000) (en_persisted en))}"
    using store by (simp add: open_window_def Let_def on_store_def changed_def split_beta split: sum.split)
  then show "queue_steps share (stored (en_persisted en)) (stored (en_persisted (snd (open_window now secs en))))"
    using open_law [OF ok surjective_pairing, of "now + secs * 1000"]
    by (metis queue_stepI(4) insertE rtranclp.rtrancl_refl singletonD)
  have "en_persisted (snd (close_window en)) = snd (es_close_window store (en_persisted en))"
    using store by (simp add: close_window_def on_store_def changed_def split_beta)
  then show "queue_steps share (stored (en_persisted en)) (stored (en_persisted (snd (close_window en))))"
    using close_law [OF ok surjective_pairing] by (metis queue_stepI(5) rtranclp.rtrancl_refl)
qed

lemma step_steps:
  assumes "run_inv_at store stored ok share st"
  shows "queue_steps share (stored (en_persisted (snd st))) (stored (en_persisted (snd (enrol_step c st))))"
proof (cases st)
  case (Pair x en)
  then have inv: "enrol_inv store stored ok en" and mx: "max_per_bootstrap en = share"
    using assms by (simp_all add: run_inv_at_def)
  have reload: "en_persisted (snd (enrol_reload en)) = en_persisted en"
    by (simp add: enrol_reload_def changed_def split: option.split sum.split)
  show ?thesis
    using Pair expire_steps [OF inv surjective_pairing] submit_steps [OF inv mx] approve_steps [OF inv] reject_steps [OF inv]
      store_act_steps [OF inv] reload
    by (cases c) (simp_all add: window_def pending_requests_def split_beta)
qed

lemma run_steps:
  "run_inv_at store stored ok share st \<Longrightarrow>
   queue_steps share (stored (en_persisted (snd st))) (stored (en_persisted (snd (fold enrol_step cmds st))))"
proof (induction cmds arbitrary: st)
  case (Cons c cmds)
  show ?case
    using step_steps [OF Cons.prems, of c] Cons.IH [OF step_inv [OF Cons.prems, of c]] by (simp add: rtranclp_trans)
qed simp

end



end
