(* ===== verification/Chains.thy ===== *)
theory Chains
  imports Agent_Rate Subjects "HOL-Library.Product_Lexorder"
begin

text \<open>
  What the Server signed and what it no longer trusts, as data (\<open>fleet-server/src/revocation.rs\<close>): the
  register of certificates, each with the certificate it renewed, the list of revocations, and the
  state a Server keeps of both in memory with the root of every chain, the number of certificates
  below each root and the set of revoked certificates, built once and kept until it changes. The
  walks along a chain are the source's loops, each with its bound; the lemmas show that the bounds
  suffice, also on a damaged register with a cycle, and that what is kept is what the chains say.
\<close>

section \<open>Data\<close>

definition MAX_REVOCATIONS :: nat where
  "MAX_REVOCATIONS = 100000"

definition MAX_DESCENDANTS_PER_ROOT :: nat where
  "MAX_DESCENDANTS_PER_ROOT = 10000"

definition ENROLMENT_RESERVE :: nat where
  "ENROLMENT_RESERVE = 1000"

definition MAX_PER_HOST :: nat where
  "MAX_PER_HOST = 3"

definition MAX_UIDS_PER_HOST :: nat where
  "MAX_UIDS_PER_HOST = 256"

record authority =
  auth_role :: string
  auth_subject :: string
  auth_name :: string

record facts =
  facts_id :: cert_id
  issuer_name :: string
  facts_subject :: string
  key_fingerprint :: string
  not_after_ms :: nat
  facts_host :: "string option"
  facts_values :: subject_values

record host =
  gateway :: bool
  instance_uids :: "string bset"
  host_subject :: subject_values
  approved_ms :: "nat option"
  valid_until_ms :: "nat option"

definition default_host :: host where
  "default_host = \<lparr>gateway = False, instance_uids = [], host_subject = no_values, approved_ms = None,
     valid_until_ms = None\<rparr>"

text \<open>\<open>None\<close> is below every \<open>Some\<close>, as Rust orders an \<open>Option\<close>.\<close>

definition host_extend :: "nat \<Rightarrow> host \<Rightarrow> bool \<times> host" where
  "host_extend until h =
     (case valid_until_ms h of
        Some held \<Rightarrow> if held \<ge> until then (False, h) else (True, h\<lparr>valid_until_ms := Some until\<rparr>)
      | None \<Rightarrow> (True, h\<lparr>valid_until_ms := Some until\<rparr>))"

datatype speaks_for = AnyAgent | TheAgents "string bset"

record issued =
  iss_facts :: facts
  iss_uid :: string
  predecessor :: "cert_id option"
  issued_ms :: nat

abbreviation iss_id :: "issued \<Rightarrow> cert_id" where
  "iss_id i \<equiv> facts_id (iss_facts i)"

datatype revoked = RevokedCertificate (rv_authority: string) (rv_issuers: "string list") (rv_serial: string)

record revocation =
  rev_id :: string
  rev_revoked :: revoked
  revoked_ms :: nat

record ledger =
  l_issued :: "issued list"
  l_revocations :: "revocation list"
  l_hosts :: "(string, host) btree"
  l_version :: "nat option"

record register_bounds =
  bound_size :: nat
  bound_per_root :: nat

text \<open>The two texts of \<open>Registered::Full\<close>, and the store's other answers.\<close>

datatype full_reason = RegisterFull nat | ChainFull

datatype registered = Registered | Full full_reason | ChainRevoked | BootstrapRevoked

datatype added = Added | Present revocation | Widened revocation | ListFull

section \<open>Deciding from what a store holds whole\<close>

type_synonym links = "(cert_id, cert_id option) btree"

definition link_of :: "links \<Rightarrow> cert_id \<Rightarrow> cert_id option" where
  "link_of links at = (case map_of links at of Some (Some p) \<Rightarrow> Some p | _ \<Rightarrow> None)"

text \<open>The chain above a certificate: \<open>n\<close> is how often the loop may still push a predecessor.\<close>

fun chain_up :: "nat \<Rightarrow> links \<Rightarrow> cert_id \<Rightarrow> cert_id list" where
  "chain_up 0 links at = [at]"
| "chain_up (Suc n) links at =
     at # (case link_of links at of Some p \<Rightarrow> chain_up n links p | None \<Rightarrow> [])"

text \<open>One walk to a root: it stops at an entry whose root is known, at the end of the chain, or once
  the path is longer than the register.\<close>

function root_walk ::
  "(cert_id, cert_id) btree \<Rightarrow> links \<Rightarrow> cert_id list \<Rightarrow> cert_id \<Rightarrow> cert_id \<times> cert_id list" where
  "root_walk roots links path at =
     (case map_of roots at of
        Some known \<Rightarrow> (known, path)
      | None \<Rightarrow>
          let path' = path @ [at] in
          case link_of links at of
            Some p \<Rightarrow> if length path' \<le> length links then root_walk roots links path' p else (at, path')
          | None \<Rightarrow> (at, path'))"
  by pat_completeness auto

termination root_walk
  by (relation "measure (\<lambda>(roots, links, path, at). length links - length path)") auto

declare root_walk.simps [simp del]

definition root_step ::
  "links \<Rightarrow> cert_id \<Rightarrow> (cert_id, cert_id) btree \<Rightarrow> (cert_id, cert_id) btree" where
  "root_step links start roots =
     (let (found, path) = root_walk roots links [] start in
      fold (\<lambda>on. bt_insert on found) path roots)"

definition link_roots :: "links \<Rightarrow> (cert_id, cert_id) btree" where
  "link_roots links = fold (root_step links) (map fst links) []"

definition register_into :: "links \<Rightarrow> cert_id bset \<Rightarrow> issued \<Rightarrow> register_bounds \<Rightarrow> registered" where
  "register_into links named i bounds =
     (let held = length links - (if bt_contains links (iss_id i) then 1 else 0) in
      if held \<ge> bound_size bounds then Full (RegisterFull held)
      else case predecessor i of
        None \<Rightarrow> Registered
      | Some p \<Rightarrow>
          let chain = chain_up (Suc (length links)) links p in
          if \<exists>at \<in> set chain. at \<in> set named then ChainRevoked
          else
            let root = last chain;
                roots = link_roots links;
                below = length (filter (\<lambda>at. at \<noteq> iss_id i \<and> map_of roots at = Some root) (map fst links)) in
            if below \<ge> bound_per_root bounds then Full ChainFull else Registered)"

definition entry_names :: "revocation \<Rightarrow> cert_id list" where
  "entry_names e = map (\<lambda>issuer. (issuer, rv_serial (rev_revoked e))) (rv_issuers (rev_revoked e))"

definition named_in :: "revocation list \<Rightarrow> cert_id bset" where
  "named_in revs = bs_collect (concat (map entry_names revs))"

definition widened :: "revocation \<Rightarrow> revocation \<Rightarrow> revocation option" where
  "widened held entry =
     (let issuers = rv_issuers (rev_revoked held);
          more = filter (\<lambda>issuer. issuer \<notin> set issuers) (rv_issuers (rev_revoked entry)) in
      if more = [] then None
      else Some \<lparr>rev_id = rev_id held,
        rev_revoked = RevokedCertificate (rv_authority (rev_revoked held)) (issuers @ more) (rv_serial (rev_revoked held)),
        revoked_ms = revoked_ms held\<rparr>)"

text \<open>\<open>add_to\<close> changes the first entry with the id, or appends one.\<close>

fun add_to :: "revocation list \<Rightarrow> revocation \<Rightarrow> nat \<Rightarrow> nat \<Rightarrow> added \<times> revocation list" where
  "add_to [] entry len bound = (if len \<ge> bound then (ListFull, []) else (Added, [entry]))"
| "add_to (held # revs) entry len bound =
     (if rev_id held = rev_id entry then
        (case widened held entry of
           Some wider \<Rightarrow> (Widened wider, wider # revs)
         | None \<Rightarrow> (Present held, held # revs))
      else let (a, revs') = add_to revs entry len bound in (a, held # revs'))"

definition add_to_list :: "revocation list \<Rightarrow> revocation \<Rightarrow> nat \<Rightarrow> added \<times> revocation list" where
  "add_to_list revs entry bound = add_to revs entry (length revs) bound"

definition remove_from :: "revocation list \<Rightarrow> string \<Rightarrow> bool \<times> revocation list" where
  "remove_from revs i =
     (let revs' = filter (\<lambda>e. rev_id e \<noteq> i) revs in (length revs' \<noteq> length revs, revs'))"

section \<open>The state in memory\<close>

record trust =
  t_issued :: "(cert_id, issued) btree"
  t_revocations :: "revocation list"
  t_roots :: "(cert_id, cert_id) btree"
  t_descendants :: "(cert_id, nat) btree"
  t_earliest_ms :: nat
  t_hosts :: "(string, host) btree"
  t_hosts_version :: nat
  t_list_version :: "nat option"
  t_owners :: "(string, string) btree"
  t_revoked :: "cert_id bset option"
  t_acts :: nat

definition owners_of :: "(string, host) btree \<Rightarrow> (string, string) btree" where
  "owners_of hosts = bt_collect (concat (map (\<lambda>(h, e). map (\<lambda>uid. (uid, h)) (instance_uids e)) hosts))"

definition pred_of :: "(cert_id, issued) btree \<Rightarrow> cert_id \<Rightarrow> cert_id option" where
  "pred_of m at = (case map_of m at of Some i \<Rightarrow> predecessor i | None \<Rightarrow> None)"

fun chain_root :: "nat \<Rightarrow> (cert_id, issued) btree \<Rightarrow> cert_id \<Rightarrow> cert_id" where
  "chain_root 0 m at = at"
| "chain_root (Suc n) m at = (case pred_of m at of None \<Rightarrow> at | Some p \<Rightarrow> chain_root n m p)"

definition count_up :: "cert_id \<Rightarrow> (cert_id, nat) btree \<Rightarrow> (cert_id, nat) btree" where
  "count_up root d = bt_insert root (case map_of d root of None \<Rightarrow> 1 | Some n \<Rightarrow> n + 1) d"

definition count_down :: "cert_id \<Rightarrow> (cert_id, nat) btree \<Rightarrow> (cert_id, nat) btree" where
  "count_down root d =
     (case map_of d root of
        None \<Rightarrow> d
      | Some n \<Rightarrow> if n - 1 = 0 then bt_remove root d else bt_insert root (n - 1) d)"

definition take_up_register :: "issued list \<Rightarrow> trust \<Rightarrow> trust" where
  "take_up_register is t =
     (let m = bt_collect (map (\<lambda>i. (iss_id i, i)) is);
          early = fold (\<lambda>i e. min e (not_after_ms (iss_facts i))) is u64_max;
          early' = fold (\<lambda>h e. min e (case valid_until_ms h of None \<Rightarrow> 0 | Some u \<Rightarrow> u))
                     (filter (\<lambda>h. \<not> gateway h) (map snd (t_hosts t))) early;
          root = chain_root (Suc (length m)) m in
      t\<lparr>t_issued := m, t_earliest_ms := early',
        t_descendants := fold (\<lambda>k. count_up (root k)) (map fst m) [],
        t_roots := fold (\<lambda>k. bt_insert k (root k)) (map fst m) [],
        t_revoked := None\<rparr>)"

definition loaded :: "ledger \<Rightarrow> trust" where
  "loaded l = take_up_register (l_issued l)
     \<lparr>t_issued = [], t_revocations = l_revocations l, t_roots = [], t_descendants = [],
      t_earliest_ms = u64_max, t_hosts = l_hosts l, t_hosts_version = 0, t_list_version = l_version l,
      t_owners = owners_of (l_hosts l), t_revoked = None, t_acts = 0\<rparr>"

text \<open>The version held is what this instance wrote when it follows the one held before, else none.\<close>

definition took_up_own_write :: "nat option \<Rightarrow> trust \<Rightarrow> trust" where
  "took_up_own_write written t =
     t\<lparr>t_list_version := (if written = map_option (\<lambda>held. held + 1) (t_list_version t) then written else None)\<rparr>"

definition acted :: "trust \<Rightarrow> trust" where
  "acted t = t\<lparr>t_acts := t_acts t + 1\<rparr>"

text \<open>One walk of \<open>resolve\<close>: what it found and the certificates it passed.\<close>

fun resolve_walk ::
  "nat \<Rightarrow> cert_id bset \<Rightarrow> (cert_id, bool) btree \<Rightarrow> (cert_id, issued) btree \<Rightarrow> cert_id list \<Rightarrow> cert_id option
   \<Rightarrow> bool \<times> cert_id list" where
  "resolve_walk 0 named answered m path current = (False, path)"
| "resolve_walk (Suc n) named answered m path None = (False, path)"
| "resolve_walk (Suc n) named answered m path (Some at) =
     (case map_of answered at of
        Some known \<Rightarrow> (known, path)
      | None \<Rightarrow> if at \<in> set named then (True, path)
          else resolve_walk n named answered m (path @ [at]) (pred_of m at))"

definition resolve_step ::
  "cert_id bset \<Rightarrow> (cert_id, issued) btree \<Rightarrow> cert_id \<Rightarrow> (cert_id, bool) btree \<Rightarrow> (cert_id, bool) btree" where
  "resolve_step named m start answered =
     (let (found, path) = resolve_walk (Suc (length m)) named answered m [] (Some start) in
      fold (\<lambda>at. bt_insert at found) path answered)"

definition resolve :: "trust \<Rightarrow> cert_id bset" where
  "resolve t =
     (let named = named_in (t_revocations t) in
      if named = [] then []
      else let answered = fold (resolve_step named (t_issued t)) (map fst (t_issued t)) [] in
        fold bs_insert (map fst (filter snd answered)) named)"

definition revoked_set :: "trust \<Rightarrow> cert_id bset \<times> trust" where
  "revoked_set t =
     (let revoked = (case t_revoked t of Some r \<Rightarrow> r | None \<Rightarrow> resolve t) in
      (revoked, t\<lparr>t_revoked := Some revoked\<rparr>))"

definition root_below :: "trust \<Rightarrow> cert_id option \<Rightarrow> cert_id \<Rightarrow> cert_id" where
  "root_below t pre i =
     (case pre of
        None \<Rightarrow> i
      | Some p \<Rightarrow> (case map_of (t_roots t) p of Some r \<Rightarrow> r | None \<Rightarrow> p))"

definition state_remove :: "cert_id \<Rightarrow> trust \<Rightarrow> trust" where
  "state_remove i t =
     (if \<not> bt_contains (t_issued t) i then t
      else t\<lparr>t_issued := bt_remove i (t_issued t), t_revoked := None,
          t_roots := bt_remove i (t_roots t),
          t_descendants := (case map_of (t_roots t) i of
             None \<Rightarrow> t_descendants t | Some root \<Rightarrow> count_down root (t_descendants t))\<rparr>)"

definition state_insert :: "issued \<Rightarrow> trust \<Rightarrow> trust" where
  "state_insert i t0 =
     (let t = state_remove (iss_id i) t0;
          kept = (case (t_revoked t, predecessor i) of
                    (Some r, Some p) \<Rightarrow> if p \<in> set r \<and> iss_id i \<notin> set r then None else t_revoked t
                  | _ \<Rightarrow> t_revoked t);
          root = root_below t (predecessor i) (iss_id i) in
      t\<lparr>t_revoked := kept,
        t_descendants := count_up root (t_descendants t),
        t_roots := bt_insert (iss_id i) root (t_roots t),
        t_earliest_ms := min (t_earliest_ms t) (not_after_ms (iss_facts i)),
        t_issued := bt_insert (iss_id i) i (t_issued t)\<rparr>)"


section \<open>Chains as a relation\<close>

declare split_paired_All [simp del] split_paired_Ex [simp del]

text \<open>
  \<open>above f\<close> holds from a certificate to its predecessor; a register gives the partial function \<open>f\<close>. A
  chain is as long as the register at most, so a certificate reaches whatever it descends from in as
  many steps as there are entries, with or without a cycle.
\<close>

definition above :: "('a \<Rightarrow> 'a option) \<Rightarrow> ('a \<times> 'a) set" where
  "above f = {(a, p). f a = Some p}"

lemma above_iff [simp]: "(a, p) \<in> above f \<longleftrightarrow> f a = Some p"
  by (simp add: above_def)

lemma above_graph: "above f = (\<lambda>a. (a, the (f a))) ` dom f"
  by (force simp: above_def dom_def)

lemma above_steps:
  assumes "finite (dom f)" and "card (dom f) \<le> n" and "(x, y) \<in> (above f)\<^sup>*"
  shows "\<exists>k \<le> n. (x, y) \<in> above f ^^ k"
proof -
  have fin: "finite (above f)" using assms(1) by (simp add: above_graph)
  have "card (above f) \<le> n"
    unfolding above_graph using card_image_le [OF assms(1)] assms(2) le_trans by blast
  moreover obtain k where "k \<le> card (above f)" "(x, y) \<in> above f ^^ k"
    using assms(3) unfolding rtrancl_finite_eq_relpow [OF fin] by blast
  ultimately show ?thesis using le_trans by blast
qed

lemma above_end: "f x = None \<Longrightarrow> (x, y) \<in> (above f)\<^sup>* \<longleftrightarrow> y = x"
  by (auto elim: converse_rtranclE)

lemma above_next: "f x = Some p \<Longrightarrow> (x, y) \<in> (above f)\<^sup>* \<longleftrightarrow> y = x \<or> (p, y) \<in> (above f)\<^sup>*"
  by (auto elim: converse_rtranclE intro: converse_rtrancl_into_rtrancl)

lemma above_relpow_Suc: "(x, y) \<in> above f ^^ Suc k \<longleftrightarrow> (\<exists>p. f x = Some p \<and> (p, y) \<in> above f ^^ k)"
  by (metis above_iff relpow_Suc_D2 relpow_Suc_I2)

text \<open>A certificate is reached by the list when it, or one it descends from, is named.\<close>

definition tainted :: "('a \<Rightarrow> 'a option) \<Rightarrow> 'a set \<Rightarrow> 'a \<Rightarrow> bool" where
  "tainted f named x \<longleftrightarrow> (\<exists>y \<in> named. (x, y) \<in> (above f)\<^sup>*)"

lemma tainted_named: "x \<in> named \<Longrightarrow> tainted f named x"
  by (auto simp: tainted_def)

lemma tainted_step: "tainted f named x \<longleftrightarrow> x \<in> named \<or> (\<exists>p. f x = Some p \<and> tainted f named p)"
proof (cases "f x")
  case None
  then show ?thesis by (auto simp: tainted_def above_end)
next
  case (Some p)
  then show ?thesis by (auto simp: tainted_def above_next)
qed

lemma tainted_below: "(x, z) \<in> (above f)\<^sup>* \<Longrightarrow> tainted f named z \<Longrightarrow> tainted f named x"
  by (auto simp: tainted_def intro: rtrancl_trans)

lemma not_tainted_steps:
  assumes "finite (dom f)" and "card (dom f) \<le> n"
    and "\<And>k y. k \<le> n \<Longrightarrow> (x, y) \<in> above f ^^ k \<Longrightarrow> y \<notin> named"
  shows "\<not> tainted f named x"
  using above_steps [OF assms(1,2)] assms(3) by (fastforce simp: tainted_def)

section \<open>The revoked certificates\<close>

lemma dom_pred_of: "dom (pred_of m) \<subseteq> dom (map_of m)"
  by (auto simp: pred_of_def split: option.splits)

lemma card_dom_map_of: "card (dom (map_of m)) \<le> length m"
  by (metis card_length dom_map_of_conv_image_fst length_map set_map)

lemma finite_pred_of [simp]: "finite (dom (pred_of m))"
  using dom_pred_of finite_dom_map_of finite_subset by blast

lemma card_pred_of: "card (dom (pred_of m)) \<le> length m"
  using card_mono [OF finite_dom_map_of dom_pred_of] card_dom_map_of le_trans by blast

definition answers_ok :: "('a \<Rightarrow> 'a option) \<Rightarrow> 'a set \<Rightarrow> ('a, bool) btree \<Rightarrow> bool" where
  "answers_ok f named answered \<longleftrightarrow> (\<forall>x \<in> dom (map_of answered). map_of answered x = Some (tainted f named x))"

lemma answers_okD: "answers_ok f named answered \<Longrightarrow> map_of answered x = Some b \<Longrightarrow> b = tainted f named x"
  by (force simp: answers_ok_def)

lemma answers_ok_Nil: "answers_ok f named []"
  by (simp add: answers_ok_def)

lemma resolve_walk_none: "resolve_walk n named answered m path None = (False, path)"
  by (cases n) simp_all

lemma resolve_walk_spec:
  assumes "answers_ok (pred_of m) (set named) answered"
    and "resolve_walk n named answered m path (Some x) = (b, path')"
  shows "\<exists>new. path' = path @ new \<and> (\<forall>z \<in> set new. (x, z) \<in> (above (pred_of m))\<^sup>* \<and> (b \<longrightarrow> tainted (pred_of m) (set named) z))
    \<and> (b \<longrightarrow> tainted (pred_of m) (set named) x)
    \<and> (\<not> b \<longrightarrow> (\<forall>k < n. \<forall>y. (x, y) \<in> above (pred_of m) ^^ k \<longrightarrow> y \<notin> set named))
    \<and> (n > 0 \<longrightarrow> x \<in> set new \<or> x \<in> dom (map_of answered) \<or> x \<in> set named)"
  using assms(2)
proof (induction n arbitrary: path x)
  case 0
  then show ?case by simp
next
  case (Suc n)
  let ?f = "pred_of m" and ?N = "set named"
  consider (known) known where "map_of answered x = Some known"
    | (named) "map_of answered x = None" "x \<in> ?N"
    | (none) "map_of answered x = None" "x \<notin> ?N" "?f x = None"
    | (walk) p where "map_of answered x = Some True \<or> map_of answered x = None" "x \<notin> ?N" "?f x = Some p" "map_of answered x = None"
    by (cases "map_of answered x"; cases "?f x") auto
  then show ?case
  proof cases
    case known
    have "known = tainted ?f ?N x" by (rule answers_okD [OF assms(1) known])
    moreover have "y \<notin> ?N" if "\<not> tainted ?f ?N x" "(x, y) \<in> above ?f ^^ k" for y k
      using that relpow_imp_rtrancl by (fastforce simp: tainted_def)
    moreover have "b = known" "path' = path" using Suc.prems known by simp_all
    ultimately show ?thesis using known by (intro exI [of _ "[]"]) (auto simp del: split_paired_All)
  next
    case named
    then have "b = True" "path' = path" using Suc.prems by simp_all
    then show ?thesis using named by (intro exI [of _ "[]"]) (simp add: tainted_named)
  next
    case none
    have "y \<notin> ?N" if "(x, y) \<in> above ?f ^^ k" for y k
      using that none by (cases k) (auto simp: above_relpow_Suc simp del: relpow.simps(2))
    moreover have "b = False" "path' = path @ [x]"
      using Suc.prems none by (simp_all add: resolve_walk_none)
    ultimately show ?thesis by (intro exI [of _ "[x]"]) (simp del: split_paired_All)
  next
    case walk
    then have "resolve_walk n named answered m (path @ [x]) (Some p) = (b, path')"
      using Suc.prems by simp
    from Suc.IH [OF this] obtain new where new: "path' = (path @ [x]) @ new"
      "\<And>z. z \<in> set new \<Longrightarrow> (p, z) \<in> (above ?f)\<^sup>* \<and> (b \<longrightarrow> tainted ?f ?N z)"
      "b \<Longrightarrow> tainted ?f ?N p" "\<And>k y. \<not> b \<Longrightarrow> k < n \<Longrightarrow> (p, y) \<in> above ?f ^^ k \<Longrightarrow> y \<notin> ?N"
      by blast
    have "y \<notin> ?N" if "\<not> b" "k < Suc n" "(x, y) \<in> above ?f ^^ k" for k y
      using that walk new(4) by (cases k) (auto simp: above_relpow_Suc simp del: relpow.simps(2))
    moreover have "b \<longrightarrow> tainted ?f ?N x"
      using new(3) walk(3) tainted_step [of ?f ?N x] by auto
    moreover have "\<forall>z \<in> set (x # new). (x, z) \<in> (above ?f)\<^sup>*"
      using new(2) walk(3) by (auto simp: above_next)
    moreover have "path' = path @ (x # new)" using new(1) by simp
    ultimately show ?thesis using new(2) by (intro exI [of _ "x # new"]) (simp del: split_paired_All)
  qed
qed

lemma map_of_fold_insert:
  "map_of (fold (\<lambda>at. bt_insert at v) path m) x = (if x \<in> set path then Some v else map_of m x)"
  by (induction path arbitrary: m) auto

lemma bt_wf_fold_insert: "bt_wf m \<Longrightarrow> bt_wf (fold (\<lambda>at. bt_insert at (g at)) path m)"
  by (induction path arbitrary: m) auto

lemma resolve_step_ok:
  assumes "answers_ok (pred_of m) (set named) answered" and "bt_wf answered"
  shows "answers_ok (pred_of m) (set named) (resolve_step named m x answered) \<and> bt_wf (resolve_step named m x answered)
    \<and> dom (map_of answered) \<subseteq> dom (map_of (resolve_step named m x answered))
    \<and> (x \<in> dom (map_of (resolve_step named m x answered)) \<or> x \<in> set named)"
proof -
  let ?f = "pred_of m" and ?N = "set named"
  obtain b path where walk: "resolve_walk (Suc (length m)) named answered m [] (Some x) = (b, path)"
    by (cases "resolve_walk (Suc (length m)) named answered m [] (Some x)")
  from resolve_walk_spec [OF assms(1) this] obtain new where
    new: "path = new" "\<And>z. z \<in> set new \<Longrightarrow> (x, z) \<in> (above ?f)\<^sup>* \<and> (b \<longrightarrow> tainted ?f ?N z)"
      "\<And>k y. \<not> b \<Longrightarrow> k < Suc (length m) \<Longrightarrow> (x, y) \<in> above ?f ^^ k \<Longrightarrow> y \<notin> ?N"
      "x \<in> set new \<or> x \<in> dom (map_of answered) \<or> x \<in> ?N"
    by (metis append_Nil zero_less_Suc)
  have "\<not> b \<Longrightarrow> \<not> tainted ?f ?N x"
    by (rule not_tainted_steps [OF finite_pred_of card_pred_of]) (rule new(3), simp_all)
  then have onpath: "b = tainted ?f ?N z" if "z \<in> set path" for z
    using that new(1) new(2) [of z] tainted_below [of x z ?f ?N] by (cases b) auto
  have lookup: "map_of (resolve_step named m x answered) z = (if z \<in> set path then Some b else map_of answered z)" for z
    by (simp add: resolve_step_def walk map_of_fold_insert del: resolve_walk.simps)
  have "answers_ok ?f ?N (resolve_step named m x answered)"
    unfolding answers_ok_def
  proof
    fix z assume "z \<in> dom (map_of (resolve_step named m x answered))"
    then obtain v where v: "map_of (resolve_step named m x answered) z = Some v" by blast
    then have "v = tainted ?f ?N z"
      using onpath [of z] answers_okD [OF assms(1), of z v] by (cases "z \<in> set path") (simp_all add: lookup)
    then show "map_of (resolve_step named m x answered) z = Some (tainted ?f ?N z)" using v by simp
  qed
  moreover have "bt_wf (resolve_step named m x answered)"
    using bt_wf_fold_insert [OF assms(2)] by (simp add: resolve_step_def walk del: resolve_walk.simps)
  moreover have "dom (map_of (resolve_step named m x answered)) = set path \<union> dom (map_of answered)"
    by (rule set_eqI) (simp add: lookup domIff)
  ultimately show ?thesis using new(1,4) by blast
qed

lemma resolve_fold_ok:
  "answers_ok (pred_of m) (set named) answered \<Longrightarrow> bt_wf answered \<Longrightarrow>
   answers_ok (pred_of m) (set named) (fold (resolve_step named m) ks answered)
   \<and> bt_wf (fold (resolve_step named m) ks answered)
   \<and> dom (map_of answered) \<subseteq> dom (map_of (fold (resolve_step named m) ks answered))
   \<and> (\<forall>k \<in> set ks. k \<in> dom (map_of (fold (resolve_step named m) ks answered)) \<or> k \<in> set named)"
proof (induction ks arbitrary: answered)
  case Nil
  then show ?case by simp
next
  case (Cons k ks)
  let ?a = "resolve_step named m k answered"
  have step: "answers_ok (pred_of m) (set named) ?a" "bt_wf ?a" "dom (map_of answered) \<subseteq> dom (map_of ?a)"
    "k \<in> dom (map_of ?a) \<or> k \<in> set named"
    using resolve_step_ok [OF Cons.prems, of k] by blast+
  note rest = Cons.IH [OF step(1,2)]
  have "k \<in> dom (map_of (fold (resolve_step named m) ks ?a)) \<or> k \<in> set named"
    using step(4) rest by blast
  moreover have "dom (map_of answered) \<subseteq> dom (map_of (fold (resolve_step named m) ks ?a))"
    using step(3) rest by blast
  ultimately show ?case using rest by (intro conjI ballI) (simp_all only: fold_simps, auto)
qed

text \<open>What \<open>resolve\<close> builds is every certificate the list reaches.\<close>

lemma set_resolve: "set (resolve t) = {x. tainted (pred_of (t_issued t)) (set (named_in (t_revocations t))) x}"
proof -
  let ?m = "t_issued t" and ?named = "named_in (t_revocations t)"
  let ?f = "pred_of ?m" and ?a = "fold (resolve_step ?named ?m) (map fst ?m) []"
  show ?thesis
  proof (cases "?named = []")
    case True
    then show ?thesis by (simp add: resolve_def tainted_def)
  next
    case False
    have ok: "answers_ok ?f (set ?named) ?a" "bt_wf ?a"
      "\<And>k. k \<in> set (map fst ?m) \<Longrightarrow> k \<in> dom (map_of ?a) \<or> k \<in> set ?named"
      using resolve_fold_ok [OF answers_ok_Nil bt_wf_Nil, of ?m ?named "map fst ?m"] by blast+
    have set: "set (resolve t) = set ?named \<union> {x. map_of ?a x = Some True}"
      using False ok(2) by (force simp: resolve_def Let_def set_bs_fold bt_wf_map_of_iff)
    have "x \<in> set ?named \<or> map_of ?a x = Some True" if t: "tainted ?f (set ?named) x" for x
    proof (cases "x \<in> set ?named")
      case False
      then obtain p where "?f x = Some p" using t tainted_step [of ?f "set ?named" x] by auto
      then have "x \<in> dom (map_of ?m)" using dom_pred_of by blast
      then have "x \<in> set (map fst ?m)" by (simp add: dom_map_of_conv_image_fst)
      then have "x \<in> dom (map_of ?a)" using ok(3) False by blast
      then show ?thesis using ok(1) t by (simp add: answers_ok_def)
    qed simp
    moreover have "tainted ?f (set ?named) x" if "map_of ?a x = Some True" for x
      using answers_okD [OF ok(1) that] by simp
    ultimately show ?thesis unfolding set using tainted_named [of _ "set ?named" ?f] by blast
  qed
qed


section \<open>What the state keeps is what the chains say\<close>

text \<open>
  Every entry is held under its own id, the set of revoked certificates is the one the list reaches
  where it is held, and the counts below the roots are exact.
\<close>

definition register_ok :: "(cert_id, issued) btree \<Rightarrow> bool" where
  "register_ok m \<longleftrightarrow> bt_wf m \<and> (\<forall>(k, i) \<in> set m. iss_id i = k)"

definition reached :: "trust \<Rightarrow> cert_id set" where
  "reached t = {x. tainted (pred_of (t_issued t)) (set (named_in (t_revocations t))) x}"

definition cache_ok :: "trust \<Rightarrow> bool" where
  "cache_ok t \<longleftrightarrow> (\<forall>r. t_revoked t = Some r \<longrightarrow> set r = reached t)"

definition below_root :: "trust \<Rightarrow> cert_id \<Rightarrow> cert_id set" where
  "below_root t r = {k. map_of (t_roots t) k = Some r}"

definition counts_ok :: "trust \<Rightarrow> bool" where
  "counts_ok t \<longleftrightarrow> dom (map_of (t_roots t)) = dom (map_of (t_issued t))
     \<and> (\<forall>r. map_of (t_descendants t) r = (if below_root t r = {} then None else Some (card (below_root t r))))"

definition trust_ok :: "trust \<Rightarrow> bool" where
  "trust_ok t \<longleftrightarrow> register_ok (t_issued t) \<and> cache_ok t \<and> counts_ok t"

lemma set_revoked_set: "cache_ok t \<Longrightarrow> set (fst (revoked_set t)) = reached t"
  by (auto simp: revoked_set_def cache_ok_def reached_def set_resolve Let_def split: option.splits)

lemma reached_cong:
  "t_issued t' = t_issued t \<Longrightarrow> t_revocations t' = t_revocations t \<Longrightarrow> reached t' = reached t"
  by (simp add: reached_def)

lemma revoked_set_keeps:
  "t_issued (snd (revoked_set t)) = t_issued t" "t_revocations (snd (revoked_set t)) = t_revocations t"
  "t_hosts (snd (revoked_set t)) = t_hosts t" "t_owners (snd (revoked_set t)) = t_owners t"
  "t_earliest_ms (snd (revoked_set t)) = t_earliest_ms t" "t_roots (snd (revoked_set t)) = t_roots t"
  "t_descendants (snd (revoked_set t)) = t_descendants t" "t_acts (snd (revoked_set t)) = t_acts t"
  "t_hosts_version (snd (revoked_set t)) = t_hosts_version t"
  "t_list_version (snd (revoked_set t)) = t_list_version t"
  by (simp_all add: revoked_set_def Let_def)

lemma trust_ok_cong:
  assumes "t_issued t' = t_issued t" "t_revocations t' = t_revocations t" "t_roots t' = t_roots t"
    "t_descendants t' = t_descendants t" "t_revoked t' = t_revoked t \<or> t_revoked t' = None"
  shows "trust_ok t \<Longrightarrow> trust_ok t'"
  using assms reached_cong [OF assms(1,2)]
  by (auto simp: trust_ok_def cache_ok_def counts_ok_def below_root_def)

lemma trust_ok_revoked_set: "trust_ok t \<Longrightarrow> trust_ok (snd (revoked_set t))"
  using set_revoked_set [of t] reached_cong [OF revoked_set_keeps(1,2), of t]
  by (simp add: trust_ok_def cache_ok_def counts_ok_def below_root_def revoked_set_keeps)
    (simp add: revoked_set_def Let_def)

text \<open>A change of the list drops the set, and keeps everything else.\<close>

lemma trust_ok_list: "trust_ok t \<Longrightarrow> trust_ok (t\<lparr>t_revocations := l, t_revoked := None\<rparr>)"
  by (simp add: trust_ok_def cache_ok_def counts_ok_def below_root_def)

lemma register_ok_lookup: "register_ok m \<Longrightarrow> map_of m k = Some i \<Longrightarrow> iss_id i = k"
  by (auto simp: register_ok_def dest: map_of_SomeD)

lemma register_ok_insert: "register_ok m \<Longrightarrow> register_ok (bt_insert (iss_id i) i m)"
  using set_bt_insert_subset [of "iss_id i" i m] by (auto simp: register_ok_def)

lemma register_ok_remove: "register_ok m \<Longrightarrow> register_ok (bt_remove k m)"
  using set_bt_remove_subset [of k m] by (auto simp: register_ok_def)

lemma finite_below_root [simp]: "finite (below_root t r)"
  by (rule finite_subset [OF _ finite_dom_map_of [of "t_roots t"]]) (auto simp: below_root_def)

lemma below_root_remove:
  "t_roots t' = bt_remove i (t_roots t) \<Longrightarrow> below_root t' r = below_root t r - {i}"
  by (rule set_eqI) (simp add: below_root_def)

lemma below_root_insert:
  "t_roots t' = bt_insert i root (t_roots t) \<Longrightarrow>
   below_root t' r = (if r = root then insert i (below_root t r) else below_root t r - {i})"
  by (rule set_eqI) (simp add: below_root_def)

lemma counts_ok_remove:
  assumes "counts_ok t" and "i \<in> dom (map_of (t_issued t))"
  shows "counts_ok (state_remove i t)"
proof -
  let ?t = "state_remove i t"
  have "i \<in> dom (map_of (t_roots t))" using assms by (simp only: counts_ok_def)
  then obtain root where root: "map_of (t_roots t) i = Some root" by blast
  have roots: "t_roots ?t = bt_remove i (t_roots t)" "t_issued ?t = bt_remove i (t_issued t)"
    "t_descendants ?t = count_down root (t_descendants t)"
    using assms(2) root by (simp_all add: state_remove_def)
  have iroot: "i \<in> below_root t r \<longleftrightarrow> r = root" for r
    using root by (auto simp: below_root_def)
  have dom: "dom (map_of (t_roots ?t)) = dom (map_of (t_issued ?t))"
    using assms(1) by (simp add: roots counts_ok_def)
  have held: "map_of (t_descendants t) r = (if below_root t r = {} then None else Some (card (below_root t r)))" for r
    using assms(1) by (simp add: counts_ok_def)
  have "map_of (t_descendants ?t) r = (if below_root ?t r = {} then None else Some (card (below_root ?t r)))" for r
  proof (cases "r = root")
    case True
    have "below_root t root \<noteq> {}" using iroot by blast
    then have now: "map_of (t_descendants t) root = Some (card (below_root t root))"
      using held by simp
    have sub: "card (below_root ?t root) = card (below_root t root) - 1"
      using iroot by (simp add: below_root_remove [OF roots(1)] card_Diff_singleton)
    have "below_root ?t root = {} \<longleftrightarrow> card (below_root t root) - 1 = 0"
      unfolding sub [symmetric] by simp
    then show ?thesis using True now sub by (simp add: roots(3) count_down_def)
  next
    case False
    then have "map_of (t_descendants ?t) r = map_of (t_descendants t) r"
      by (simp add: roots(3) count_down_def split: option.split)
    moreover have "below_root ?t r = below_root t r"
      using False iroot [of r] by (simp add: below_root_remove [OF roots(1)])
    ultimately show ?thesis using held by simp
  qed
  with dom show ?thesis by (simp add: counts_ok_def)
qed

lemma trust_ok_remove: "trust_ok t \<Longrightarrow> trust_ok (state_remove i t)"
proof (cases "i \<in> dom (map_of (t_issued t))")
  case True
  assume t: "trust_ok t"
  have "register_ok (t_issued (state_remove i t))" "t_revoked (state_remove i t) = None"
    using t True by (simp_all add: state_remove_def trust_ok_def register_ok_remove)
  then show ?thesis using t True counts_ok_remove [of t i] by (simp add: trust_ok_def cache_ok_def)
qed (simp add: state_remove_def)

lemma tainted_new_link:
  assumes "f x = None" and "\<not> tainted f named p \<or> tainted f named x"
  shows "tainted (f(x \<mapsto> p)) named z \<longleftrightarrow> tainted f named z"
proof
  assume "tainted (f(x \<mapsto> p)) named z"
  then obtain y where y: "y \<in> named" "(z, y) \<in> (above (f(x \<mapsto> p)))\<^sup>*" by (auto simp: tainted_def)
  from y(2) show "tainted f named z"
  proof (induction rule: converse_rtrancl_induct)
    case base
    then show ?case using y(1) by (rule tainted_named)
  next
    case (step z z')
    then show ?case using assms(2) tainted_step [of f named z] by (cases "z = x") auto
  qed
next
  have "above f \<subseteq> above (f(x \<mapsto> p))" using assms(1) by (auto split: if_splits)
  then show "tainted f named z \<Longrightarrow> tainted (f(x \<mapsto> p)) named z"
    unfolding tainted_def using rtrancl_mono by blast
qed

lemma counts_ok_added:
  assumes "counts_ok t" and "i \<notin> dom (map_of (t_issued t))"
    and "t_roots t' = bt_insert i root (t_roots t)" "t_issued t' = bt_insert i v (t_issued t)"
    "t_descendants t' = count_up root (t_descendants t)"
  shows "counts_ok t'"
proof -
  have held: "map_of (t_descendants t) r = (if below_root t r = {} then None else Some (card (below_root t r)))" for r
    using assms(1) by (simp add: counts_ok_def)
  have "i \<notin> dom (map_of (t_roots t))" using assms(1,2) by (simp add: counts_ok_def)
  then have fresh: "i \<notin> below_root t r" for r by (auto simp: below_root_def)
  have "map_of (t_descendants t') r = (if below_root t' r = {} then None else Some (card (below_root t' r)))" for r
  proof (cases "r = root")
    case True
    then show ?thesis
      using held [of root] fresh [of root]
      by (cases "below_root t root = {}") (simp_all add: assms(5) count_up_def below_root_insert [OF assms(3)])
  next
    case False
    then show ?thesis
      using held [of r] fresh [of r] by (simp add: assms(5) count_up_def below_root_insert [OF assms(3)])
  qed
  moreover have "dom (map_of (t_roots t')) = dom (map_of (t_issued t'))"
    using assms(1) by (simp add: assms(3,4) counts_ok_def)
  ultimately show ?thesis by (simp add: counts_ok_def)
qed

lemma pred_of_insert: "pred_of (bt_insert k i m) = (pred_of m)(k := predecessor i)"
  by (rule ext) (simp add: pred_of_def)

lemma state_remove_gone: "iss_id i \<notin> dom (map_of (t_issued (state_remove (iss_id i) t)))"
  by (simp add: state_remove_def)

lemma state_insert_fields:
  "t_issued (state_insert i t) = bt_insert (iss_id i) i (t_issued (state_remove (iss_id i) t))"
  "t_revocations (state_insert i t) = t_revocations t"
  "t_hosts (state_insert i t) = t_hosts t" "t_owners (state_insert i t) = t_owners t"
  "t_acts (state_insert i t) = t_acts t" "t_hosts_version (state_insert i t) = t_hosts_version t"
  by (simp_all add: state_insert_def Let_def state_remove_def)

lemma state_insert_revoked:
  "t_revoked (state_insert i t) = None \<or> (t_revoked (state_insert i t) = t_revoked (state_remove (iss_id i) t)
     \<and> (\<forall>r p. t_revoked (state_remove (iss_id i) t) = Some r \<and> predecessor i = Some p \<longrightarrow> p \<notin> set r \<or> iss_id i \<in> set r))"
  by (cases "t_revoked (state_remove (iss_id i) t)"; cases "predecessor i") (simp_all add: state_insert_def Let_def)

lemma cache_ok_insert:
  assumes "trust_ok t"
  shows "cache_ok (state_insert i t)"
  unfolding cache_ok_def
proof (intro allI impI)
  let ?t = "state_remove (iss_id i) t"
  let ?f = "pred_of (t_issued ?t)" and ?N = "set (named_in (t_revocations t))"
  fix r assume r: "t_revoked (state_insert i t) = Some r"
  have held: "t_revoked ?t = Some r" "\<And>p. predecessor i = Some p \<Longrightarrow> p \<notin> set r \<or> iss_id i \<in> set r"
    using r state_insert_revoked [of i t] by auto
  have revs: "t_revocations ?t = t_revocations t" by (simp add: state_remove_def)
  have set: "set r = reached ?t"
    using trust_ok_remove [OF assms, of "iss_id i"] held(1) by (simp add: trust_ok_def cache_ok_def)
  have none: "?f (iss_id i) = None"
    using state_remove_gone [of i t] by (simp add: pred_of_def domIff)
  have "tainted (?f(iss_id i := predecessor i)) ?N z = tainted ?f ?N z" for z
  proof (cases "predecessor i")
    case None
    then show ?thesis using none by (simp add: fun_upd_idem)
  next
    case (Some p)
    then show ?thesis
      using held(2) tainted_new_link [of ?f "iss_id i" ?N p z] none set by (simp add: reached_def revs)
  qed
  then show "set r = reached (state_insert i t)"
    by (simp add: set reached_def state_insert_fields revs pred_of_insert)
qed

lemma trust_ok_insert: "trust_ok t \<Longrightarrow> trust_ok (state_insert i t)"
proof -
  assume t: "trust_ok t"
  let ?t = "state_remove (iss_id i) t"
  have ok: "trust_ok ?t" by (rule trust_ok_remove [OF t])
  have "register_ok (t_issued (state_insert i t))"
    using ok by (simp add: state_insert_fields trust_ok_def register_ok_insert)
  moreover have "counts_ok (state_insert i t)"
    by (rule counts_ok_added [where t = ?t and i = "iss_id i"])
      (use ok state_remove_gone [of i t] in \<open>simp_all add: trust_ok_def state_insert_def Let_def\<close>)
  ultimately show ?thesis using cache_ok_insert [OF t] by (simp add: trust_ok_def)
qed

text \<open>A state loaded from a ledger is well formed whatever the ledger holds.\<close>

lemma fold_roots:
  fixes m :: "(cert_id, cert_id) btree"
  assumes "distinct ks" and "\<And>k. k \<in> set ks \<Longrightarrow> map_of m k = None"
    and "\<And>r. map_of d r = (let s = {k. map_of m k = Some r} in if s = {} then None else Some (card s))"
  shows "map_of (fold (\<lambda>k. bt_insert k (root k)) ks m) k = (if k \<in> set ks then Some (root k) else map_of m k)"
    and "map_of (fold (\<lambda>k. count_up (root k)) ks d) r
      = (let s = {k. map_of (fold (\<lambda>k. bt_insert k (root k)) ks m) k = Some r} in if s = {} then None else Some (card s))"
proof -
  show "map_of (fold (\<lambda>k. bt_insert k (root k)) ks m) k = (if k \<in> set ks then Some (root k) else map_of m k)"
    using assms(1) by (induction ks arbitrary: m) auto
  show "map_of (fold (\<lambda>k. count_up (root k)) ks d) r
      = (let s = {k. map_of (fold (\<lambda>k. bt_insert k (root k)) ks m) k = Some r} in if s = {} then None else Some (card s))"
    using assms
  proof (induction ks arbitrary: m d)
    case Nil
    then show ?case by simp
  next
    case (Cons x ks)
    have fin: "finite {k. map_of m k = Some r}" for r
      by (rule finite_subset [OF _ finite_dom_map_of [of m]]) auto
    have x: "x \<notin> {k. map_of m k = Some r}" for r using Cons.prems(2) [of x] by simp
    have grown: "{k. map_of (bt_insert x (root x) m) k = Some r}
        = (if r = root x then insert x {k. map_of m k = Some r} else {k. map_of m k = Some r})" for r
      using Cons.prems(2) [of x] by (intro set_eqI) auto
    have "map_of (count_up (root x) d) r
        = (let s = {k. map_of (bt_insert x (root x) m) k = Some r} in if s = {} then None else Some (card s))" for r
      using Cons.prems(3) [of r] fin [of r] x [of r] unfolding grown
      by (cases "r = root x"; cases "{k. map_of m k = Some r} = {}") (simp_all add: count_up_def Let_def)
    then have "map_of (fold (\<lambda>k. count_up (root k)) ks (count_up (root x) d)) r
      = (let s = {k. map_of (fold (\<lambda>k. bt_insert k (root k)) ks (bt_insert x (root x) m)) k = Some r}
         in if s = {} then None else Some (card s))"
      using Cons.prems by (intro Cons.IH) auto
    then show ?case by simp
  qed
qed

lemma register_ok_collect: "register_ok (bt_collect (map (\<lambda>i. (iss_id i, i)) is))"
proof -
  have "register_ok (fold (\<lambda>e. bt_insert (fst e) (snd e)) (map (\<lambda>i. (iss_id i, i)) is) m)" if "register_ok m" for m
    using that by (induction "is" arbitrary: m) (simp_all add: register_ok_insert)
  from this [of "[]"] show ?thesis by (simp add: bt_collect_def register_ok_def)
qed

lemma trust_ok_loaded: "trust_ok (loaded l)"
proof -
  let ?m = "bt_collect (map (\<lambda>i. (iss_id i, i)) (l_issued l))"
  let ?root = "chain_root (Suc (length ?m)) ?m"
  have d: "distinct (map fst ?m)" by (rule bt_wf_distinct) simp
  have issued: "t_issued (loaded l) = ?m" "t_revoked (loaded l) = None"
    "t_roots (loaded l) = fold (\<lambda>k. bt_insert k (?root k)) (map fst ?m) []"
    "t_descendants (loaded l) = fold (\<lambda>k. count_up (?root k)) (map fst ?m) []"
    by (simp_all add: loaded_def take_up_register_def Let_def del: chain_root.simps)
  have "dom (map_of (t_roots (loaded l))) = dom (map_of ?m)"
    unfolding issued dom_map_of_conv_image_fst [of ?m]
    by (rule set_eqI) (simp add: domIff fold_roots(1) [OF d, where m = "[]" and d = "[]"] del: chain_root.simps)
  moreover have "map_of (t_descendants (loaded l)) r
      = (if below_root (loaded l) r = {} then None else Some (card (below_root (loaded l) r)))" for r
    unfolding below_root_def issued
    by (simp add: fold_roots(2) [OF d, where m = "[]" and d = "[]"] Let_def del: chain_root.simps)
  ultimately show ?thesis
    using register_ok_collect by (simp add: trust_ok_def cache_ok_def counts_ok_def issued(1,2))
qed


section \<open>Deciding a registration\<close>

text \<open>
  The root of a chain is where it ends. A register without a cycle gives every certificate one, and the
  walks of \<open>register_into\<close>, which stop where a root is known, find it.
\<close>

definition root_of :: "('a \<Rightarrow> 'a option) \<Rightarrow> 'a \<Rightarrow> 'a \<Rightarrow> bool" where
  "root_of f a r \<longleftrightarrow> (a, r) \<in> (above f)\<^sup>* \<and> f r = None"

lemma single_valued_above: "single_valued (above f)"
  by (rule single_valuedI) simp

lemma above_relpow_det: "(x, y) \<in> above f ^^ k \<Longrightarrow> (x, z) \<in> above f ^^ k \<Longrightarrow> y = z"
  using single_valued_relpow [OF single_valued_above, of k f] by (auto dest: single_valuedD)

lemma root_of_unique: "root_of f a r \<Longrightarrow> root_of f a r' \<Longrightarrow> r = r'"
  using single_valued_confluent [OF single_valued_above, of a r f r'] by (auto simp: root_of_def above_end)

lemma root_of_above:
  assumes "root_of f a r" and "(a, z) \<in> (above f)\<^sup>*"
  shows "root_of f z r"
proof -
  have "(z, r) \<in> (above f)\<^sup>* \<or> (r, z) \<in> (above f)\<^sup>*"
    using single_valued_confluent [OF single_valued_above, of a z f r] assms by (auto simp: root_of_def)
  then show ?thesis using assms(1) by (auto simp: root_of_def above_end)
qed

lemma root_of_below: "(a, z) \<in> (above f)\<^sup>* \<Longrightarrow> root_of f z r \<Longrightarrow> root_of f a r"
  by (auto simp: root_of_def intro: rtrancl_trans)

lemma acyclic_steps:
  assumes "acyclic (above f)" and "finite (dom f)" and "card (dom f) \<le> n" and "(x, z) \<in> above f ^^ k"
  shows "k \<le> n"
proof (rule ccontr)
  assume "\<not> k \<le> n"
  obtain j where j: "j \<le> n" "(x, z) \<in> above f ^^ j"
    using above_steps [OF assms(2,3)] relpow_imp_rtrancl [OF assms(4)] by blast
  then obtain d where d: "k = j + Suc d" using \<open>\<not> k \<le> n\<close> less_natE [of j k] by auto
  then obtain w where w: "(x, w) \<in> above f ^^ j" "(w, z) \<in> above f ^^ Suc d"
    using assms(4) by (auto simp: relpow_add)
  have "w = z" by (rule above_relpow_det [OF w(1) j(2)])
  then have "(z, z) \<in> (above f)\<^sup>+" using w(2) by (metis trancl_power zero_less_Suc)
  then show False using assms(1) by (auto simp: acyclic_def)
qed

lemma dom_link_of: "dom (link_of links) \<subseteq> dom (map_of links)"
  by (auto simp: link_of_def split: option.splits)

lemma finite_link_of [simp]: "finite (dom (link_of links))"
  using dom_link_of finite_dom_map_of finite_subset by blast

lemma card_link_of: "card (dom (link_of links)) \<le> length links"
  using card_mono [OF finite_dom_map_of dom_link_of] card_dom_map_of le_trans by blast

lemma set_chain_up: "set (chain_up n links p) = {y. \<exists>k \<le> n. (p, y) \<in> above (link_of links) ^^ k}"
proof (induction n arbitrary: p)
  case 0
  then show ?case by auto
next
  case (Suc n)
  have "(\<exists>k \<le> Suc n. (p, y) \<in> above (link_of links) ^^ k)
      \<longleftrightarrow> y = p \<or> (\<exists>q. link_of links p = Some q \<and> (\<exists>k \<le> n. (q, y) \<in> above (link_of links) ^^ k))" for y
  proof -
    have "(\<exists>k \<le> Suc n. (p, y) \<in> above (link_of links) ^^ k)
        \<longleftrightarrow> (p, y) \<in> above (link_of links) ^^ 0 \<or> (\<exists>k \<le> n. (p, y) \<in> above (link_of links) ^^ Suc k)"
      by (metis Suc_le_mono le0 not0_implies_Suc)
    also have "\<dots> \<longleftrightarrow> y = p \<or> (\<exists>k \<le> n. \<exists>q. link_of links p = Some q \<and> (q, y) \<in> above (link_of links) ^^ k)"
      by (auto simp: above_relpow_Suc simp del: relpow.simps(2))
    finally show ?thesis by blast
  qed
  note steps = this
  have "y \<in> set (chain_up (Suc n) links p) \<longleftrightarrow> y = p \<or> (\<exists>q. link_of links p = Some q \<and> y \<in> set (chain_up n links q))" for y
    by (cases "link_of links p") simp_all
  then have "y \<in> set (chain_up (Suc n) links p) \<longleftrightarrow> (\<exists>k \<le> Suc n. (p, y) \<in> above (link_of links) ^^ k)" for y
    unfolding steps Suc.IH mem_Collect_eq .
  then show ?case by blast
qed

lemma chain_up_tainted:
  "(\<exists>at \<in> set (chain_up (Suc (length links)) links p). at \<in> named) \<longleftrightarrow> tainted (link_of links) named p"
proof
  assume "\<exists>at \<in> set (chain_up (Suc (length links)) links p). at \<in> named"
  then show "tainted (link_of links) named p"
    unfolding set_chain_up tainted_def using relpow_imp_rtrancl by fastforce
next
  assume "tainted (link_of links) named p"
  then obtain y where "y \<in> named" "(p, y) \<in> (above (link_of links))\<^sup>*" by (auto simp: tainted_def)
  moreover from this(2) obtain k where "k \<le> length links" "(p, y) \<in> above (link_of links) ^^ k"
    using above_steps [OF finite_link_of card_link_of] by blast
  ultimately show "\<exists>at \<in> set (chain_up (Suc (length links)) links p). at \<in> named"
    unfolding set_chain_up using le_Suc_eq by blast
qed

lemma chain_up_nonempty [simp]: "chain_up n links p \<noteq> []"
  by (cases n) simp_all

lemma last_chain_up:
  "link_of links (last (chain_up n links p)) = None \<or> (p, last (chain_up n links p)) \<in> above (link_of links) ^^ n"
proof (induction n arbitrary: p)
  case 0
  then show ?case by simp
next
  case (Suc n)
  then show ?case
    by (cases "link_of links p") (auto simp: above_relpow_Suc simp del: relpow.simps(2))
qed

lemma chain_up_root:
  assumes "acyclic (above (link_of links))"
  shows "root_of (link_of links) p (last (chain_up (Suc (length links)) links p))"
proof -
  let ?r = "last (chain_up (Suc (length links)) links p)"
  have "(p, ?r) \<notin> above (link_of links) ^^ Suc (length links)"
    using acyclic_steps [OF assms finite_link_of card_link_of] Suc_n_not_le_n by blast
  then have "link_of links ?r = None" using last_chain_up by blast
  moreover have "?r \<in> set (chain_up (Suc (length links)) links p)"
    by (rule last_in_set [OF chain_up_nonempty])
  then have "(p, ?r) \<in> (above (link_of links))\<^sup>*"
    unfolding set_chain_up using relpow_imp_rtrancl by blast
  ultimately show ?thesis by (simp add: root_of_def)
qed

abbreviation roots_known :: "links \<Rightarrow> (cert_id, cert_id) btree \<Rightarrow> bool" where
  "roots_known links roots \<equiv> (\<forall>x r. map_of roots x = Some r \<longrightarrow> root_of (link_of links) x r)"

lemma root_walk_spec:
  assumes "acyclic (above (link_of links))" and "roots_known links roots"
    and "(start, at) \<in> above (link_of links) ^^ length path"
    and "root_walk roots links path at = (found, path')"
  shows "root_of (link_of links) at found
    \<and> (\<exists>new. path' = path @ new \<and> (\<forall>z \<in> set new. (at, z) \<in> (above (link_of links))\<^sup>*)
        \<and> (at \<in> set new \<or> at \<in> dom (map_of roots)))"
  using assms
proof (induction roots links path at rule: root_walk.induct)
  case (1 roots links path at)
  let ?f = "link_of links"
  show ?case
  proof (cases "map_of roots at")
    case (Some known)
    then show ?thesis using "1.prems"(2,4) by (auto simp: root_walk.simps [of roots links path at])
  next
    case None
    show ?thesis
    proof (cases "?f at")
      case last: None
      then have "found = at" "path' = path @ [at]"
        using "1.prems"(4) None by (auto simp: root_walk.simps [of roots links path at] Let_def)
      then show ?thesis using last by (auto simp: root_of_def)
    next
      case (Some p)
      have steps: "(start, p) \<in> above ?f ^^ length (path @ [at])"
        using "1.prems"(3) Some by auto
      then have len: "length (path @ [at]) \<le> length links"
        using acyclic_steps [OF "1.prems"(1) finite_link_of card_link_of] by blast
      then have walk: "root_walk roots links (path @ [at]) p = (found, path')"
        using "1.prems"(4) None Some by (simp add: root_walk.simps [of roots links path at] Let_def)
      have "root_of ?f p found \<and> (\<exists>new. path' = (path @ [at]) @ new \<and> (\<forall>z \<in> set new. (p, z) \<in> (above ?f)\<^sup>*)
          \<and> (p \<in> set new \<or> p \<in> dom (map_of roots)))"
        by (rule "1.IH" [OF None refl Some len "1.prems"(1,2) steps walk])
      then obtain new where new: "root_of ?f p found" "path' = path @ (at # new)" "\<forall>z \<in> set new. (p, z) \<in> (above ?f)\<^sup>*"
        by auto
      have "root_of ?f at found" using new(1) Some by (auto simp: root_of_def above_next)
      moreover have "\<forall>z \<in> set (at # new). (at, z) \<in> (above ?f)\<^sup>*"
        using new(3) Some by (auto simp: above_next)
      ultimately show ?thesis using new(2) by (intro conjI exI [of _ "at # new"]) simp_all
    qed
  qed
qed

lemma root_step_known:
  assumes "acyclic (above (link_of links))" and "roots_known links roots"
  shows "roots_known links (root_step links x roots) \<and> dom (map_of roots) \<subseteq> dom (map_of (root_step links x roots))
    \<and> x \<in> dom (map_of (root_step links x roots))"
proof -
  let ?f = "link_of links"
  obtain found path where walk: "root_walk roots links [] x = (found, path)"
    by (cases "root_walk roots links [] x")
  have spec: "root_of ?f x found" "\<And>z. z \<in> set path \<Longrightarrow> (x, z) \<in> (above ?f)\<^sup>*" "x \<in> set path \<or> x \<in> dom (map_of roots)"
    using root_walk_spec [OF assms, of x x "[]" found path] walk by auto
  have lookup: "map_of (root_step links x roots) z = (if z \<in> set path then Some found else map_of roots z)" for z
    by (simp add: root_step_def walk map_of_fold_insert)
  have "root_of ?f z found" if "z \<in> set path" for z
    by (rule root_of_above [OF spec(1) spec(2) [OF that]])
  then have "roots_known links (root_step links x roots)"
    using assms(2) by (auto simp: lookup split: if_splits)
  moreover have "dom (map_of (root_step links x roots)) = set path \<union> dom (map_of roots)"
    by (rule set_eqI) (simp add: lookup domIff)
  ultimately show ?thesis using spec(3) by blast
qed

lemma link_roots_spec:
  assumes "acyclic (above (link_of links))" and "x \<in> dom (map_of links)"
  shows "map_of (link_roots links) x = Some r \<longleftrightarrow> root_of (link_of links) x r"
proof -
  have "roots_known links (fold (root_step links) ks roots) \<and> dom (map_of roots) \<subseteq> dom (map_of (fold (root_step links) ks roots))
      \<and> set ks \<subseteq> dom (map_of (fold (root_step links) ks roots))" if "roots_known links roots" for ks roots
    using that
  proof (induction ks arbitrary: roots)
    case Nil
    then show ?case by simp
  next
    case (Cons k ks)
    have step: "roots_known links (root_step links k roots)" "dom (map_of roots) \<subseteq> dom (map_of (root_step links k roots))"
      "k \<in> dom (map_of (root_step links k roots))"
      using root_step_known [OF assms(1) Cons.prems, of k] by blast+
    note rest = Cons.IH [OF step(1)]
    have "dom (map_of roots) \<subseteq> dom (map_of (fold (root_step links) (k # ks) roots))"
      "set (k # ks) \<subseteq> dom (map_of (fold (root_step links) (k # ks) roots))"
      using rest step(2,3) unfolding fold_simps list.set by blast+
    then show ?case using rest by simp
  qed
  from this [of "[]" "map fst links"] have known: "roots_known links (link_roots links)"
    "set (map fst links) \<subseteq> dom (map_of (link_roots links))" by (simp_all add: link_roots_def)
  have "x \<in> set (map fst links)" using assms(2) by (simp add: dom_map_of_conv_image_fst)
  then obtain s where "map_of (link_roots links) x = Some s" using known(2) by blast
  then show ?thesis using known(1) root_of_unique by (metis option.inject)
qed

lemma register_into_spec:
  assumes "bt_wf links" and "acyclic (above (link_of links))"
  shows "register_into links named i bounds =
     (let others = dom (map_of links) - {iss_id i} in
      if card others \<ge> bound_size bounds then Full (RegisterFull (card others))
      else case predecessor i of
        None \<Rightarrow> Registered
      | Some p \<Rightarrow>
          if tainted (link_of links) (set named) p then ChainRevoked
          else if card {at \<in> others. \<exists>r. root_of (link_of links) at r \<and> root_of (link_of links) p r} \<ge> bound_per_root bounds
          then Full ChainFull else Registered)"
proof -
  let ?f = "link_of links" and ?others = "dom (map_of links) - {iss_id i}"
  have d: "distinct (map fst links)" by (rule bt_wf_distinct [OF assms(1)])
  have dom: "dom (map_of links) = set (map fst links)" by (simp add: dom_map_of_conv_image_fst)
  have "card (dom (map_of links)) = length links" unfolding dom using distinct_card [OF d] by simp
  then have held: "length links - (if bt_contains links (iss_id i) then 1 else 0) = card ?others"
    by (cases "iss_id i \<in> dom (map_of links)") (simp_all only: bt_contains_dom card_Diff_singleton Diff_insert0 Diff_empty if_True if_False diff_zero simp_thms)
  have below: "length (filter (\<lambda>at. at \<noteq> iss_id i \<and> map_of (link_roots links) at = Some (last (chain_up (Suc (length links)) links p))) (map fst links))
      = card {at \<in> ?others. \<exists>r. root_of ?f at r \<and> root_of ?f p r}" for p
  proof -
    let ?r = "last (chain_up (Suc (length links)) links p)"
    have r: "root_of ?f p ?r" by (rule chain_up_root [OF assms(2)])
    then have same: "(\<exists>r. root_of ?f x r \<and> root_of ?f p r) \<longleftrightarrow> root_of ?f x ?r" for x
      by (auto dest: root_of_unique [OF r])
    have "{at \<in> ?others. \<exists>r. root_of ?f at r \<and> root_of ?f p r}
        = {at. at \<noteq> iss_id i \<and> map_of (link_roots links) at = Some ?r} \<inter> set (map fst links)"
      unfolding same by (rule set_eqI) (use link_roots_spec [OF assms(2)] dom in blast)
    then show ?thesis using distinct_length_filter [OF d] by (simp del: chain_up.simps)
  qed
  show ?thesis
    unfolding register_into_def Let_def held chain_up_tainted below by (rule refl)
qed

end
