(* ===== verification/Ledger.thy ===== *)
theory Ledger
  imports Chains
begin

text \<open>
  Where the ledger is kept (\<open>LedgerStore\<close> of \<open>fleet-server/src/revocation.rs\<close>, and its filesystem
  adapter \<open>fleet-server/src/fs/revocation.rs\<close>): the port as a record of functions over the adapter's
  state, with the trait's default methods as definitions, and the adapter over a disk with the
  directories \<open>certificates/\<close> and \<open>hosts/\<close> and the file \<open>revocations.json\<close>. A JSON file is the value
  serde reads from it, \<open>None\<close> where it cannot.
\<close>

section \<open>The port\<close>

datatype bound = Bound | Taken string | GatewayHost

datatype host_act = Seen string host | Extended "(string \<times> nat) list" | GatewayAct string bool
  | Forgotten "string list" nat

record 's ledger_store =
  ls_load :: "'s \<Rightarrow> (unit + ledger) \<times> 's"
  ls_remove_issued :: "cert_id \<Rightarrow> 's \<Rightarrow> (unit + unit) \<times> 's"
  ls_register_minting ::
    "issued \<Rightarrow> register_bounds \<Rightarrow> (string \<times> host) option \<Rightarrow> cert_id option \<Rightarrow> 's \<Rightarrow> (unit + registered) \<times> 's"
  ls_add_revocation :: "revocation \<Rightarrow> nat \<Rightarrow> 's \<Rightarrow> (unit + added) \<times> 's"
  ls_list_version :: "'s \<Rightarrow> nat option"
  ls_remove_revocation :: "string \<Rightarrow> 's \<Rightarrow> (unit + bool) \<times> 's"
  ls_bind :: "string \<Rightarrow> string \<Rightarrow> 's \<Rightarrow> (unit + bound) \<times> 's"
  ls_bind_seen :: "string \<Rightarrow> string \<Rightarrow> host \<Rightarrow> 's \<Rightarrow> (unit + bound) \<times> 's"
  ls_unbind :: "string \<Rightarrow> 's \<Rightarrow> (unit + string option) \<times> 's"
  ls_rebind :: "string \<Rightarrow> string \<Rightarrow> 's \<Rightarrow> (unit + (string \<times> bound) option) \<times> 's"
  ls_unbind_host :: "string \<Rightarrow> 's \<Rightarrow> (unit + unit) \<times> 's"
  ls_writes_by_act :: bool
  ls_write_host_act :: "host_act \<Rightarrow> 's \<Rightarrow> (unit + unit) \<times> 's"
  ls_save_hosts :: "(string, host) btree \<Rightarrow> 's \<Rightarrow> (unit + unit) \<times> 's"

text \<open>The default methods, over the methods an adapter gives.\<close>

definition default_register_issued ::
  "(issued \<Rightarrow> 's \<Rightarrow> (unit + unit) \<times> 's) \<Rightarrow> issued \<Rightarrow> register_bounds \<Rightarrow> 's \<Rightarrow> (unit + registered) \<times> 's" where
  "default_register_issued put i bounds s =
     (case put i s of (Inl e, s') \<Rightarrow> (Err e, s') | (Inr _, s') \<Rightarrow> (Ok Registered, s'))"

definition default_register_minting ::
  "(issued \<Rightarrow> register_bounds \<Rightarrow> 's \<Rightarrow> (unit + registered) \<times> 's)
   \<Rightarrow> issued \<Rightarrow> register_bounds \<Rightarrow> (string \<times> host) option \<Rightarrow> cert_id option \<Rightarrow> 's \<Rightarrow> (unit + registered) \<times> 's" where
  "default_register_minting register i bounds mint bootstrap s = register i bounds s"

definition default_bind_seen ::
  "(string \<Rightarrow> string \<Rightarrow> 's \<Rightarrow> (unit + bound) \<times> 's) \<Rightarrow> string \<Rightarrow> string \<Rightarrow> host \<Rightarrow> 's \<Rightarrow> (unit + bound) \<times> 's" where
  "default_bind_seen bnd uid h row s = bnd uid h s"

definition default_rebind ::
  "(string \<Rightarrow> 's \<Rightarrow> (unit + string option) \<times> 's) \<Rightarrow> (string \<Rightarrow> string \<Rightarrow> 's \<Rightarrow> (unit + bound) \<times> 's)
   \<Rightarrow> string \<Rightarrow> string \<Rightarrow> 's \<Rightarrow> (unit + (string \<times> bound) option) \<times> 's" where
  "default_rebind unbind bnd old new s =
     (case unbind old s of
        (Inl e, s') \<Rightarrow> (Err e, s')
      | (Inr None, s') \<Rightarrow> (Ok None, s')
      | (Inr (Some h), s') \<Rightarrow>
          (case bnd new h s' of
             (Inl e, s'') \<Rightarrow> (Err e, s'')
           | (Inr b, s'') \<Rightarrow> (Ok (Some (h, b)), s'')))"

section \<open>The files\<close>

datatype list_entry = CredentialEntry | CertificateEntry revocation | OddEntry

datatype list_file = NoList | UnreadableList | ListEntries "list_entry list"

record ledger_dir =
  d_certificates :: "(string, issued option) btree"
  d_list :: list_file
  d_hosts :: "(string, (string \<times> host) option) btree"

record fs_ledger =
  fl_disk :: "ledger_dir disk"
  fl_written :: "(string, host) btree"
  fl_links :: "links option"

definition cert_file_stem :: "cert_id \<Rightarrow> string" where
  "cert_file_stem i = take 16 (fst i) @ ''-'' @ snd i"

definition upper_hex :: "nat \<Rightarrow> char" where
  "upper_hex n = ''0123456789ABCDEF'' ! n"

fun escape_from :: "nat \<Rightarrow> string \<Rightarrow> string" where
  "escape_from i [] = []"
| "escape_from i (c # cs) =
     (if is_ascii_alphanumeric c \<or> c = CHR ''-'' \<or> c = CHR ''_'' \<or> (c = CHR ''.'' \<and> i > 0) then [c]
      else [CHR 0x25, upper_hex (byte c div 16), upper_hex (byte c mod 16)]) @ escape_from (Suc i) cs"

definition host_file_stem :: "string \<Rightarrow> string" where
  "host_file_stem h = escape_from 0 h"

definition fl_open :: "ledger_dir disk \<Rightarrow> fs_ledger" where
  "fl_open d = \<lparr>fl_disk = d, fl_written = [], fl_links = None\<rparr>"

definition fl_replace :: "(ledger_dir \<Rightarrow> ledger_dir) \<Rightarrow> fs_ledger \<Rightarrow> (unit + unit) \<times> fs_ledger" where
  "fl_replace f s =
     (let (ok, d) = replace_doc f (fl_disk s) in (if ok then Ok () else Err (), s\<lparr>fl_disk := d\<rparr>))"

definition fl_delete :: "(ledger_dir \<Rightarrow> ledger_dir) \<Rightarrow> fs_ledger \<Rightarrow> (unit + unit) \<times> fs_ledger" where
  "fl_delete f s =
     (let (ok, d) = step_doc f (fl_disk s) in (if ok then Ok () else Err (), s\<lparr>fl_disk := d\<rparr>))"

definition write_revocations :: "revocation list \<Rightarrow> fs_ledger \<Rightarrow> (unit + unit) \<times> fs_ledger" where
  "write_revocations revs = fl_replace (\<lambda>d. d\<lparr>d_list := ListEntries (map CertificateEntry revs)\<rparr>)"

text \<open>The list without the credential entries an older release wrote; the first other entry that is
  no certificate's fails it.\<close>

fun parse_entries :: "list_entry list \<Rightarrow> revocation list option" where
  "parse_entries [] = Some []"
| "parse_entries (CredentialEntry # es) = parse_entries es"
| "parse_entries (OddEntry # es) = None"
| "parse_entries (CertificateEntry r # es) = map_option (\<lambda>rs. r # rs) (parse_entries es)"

definition certificate_revocations :: "list_entry list \<Rightarrow> fs_ledger \<Rightarrow> (unit + revocation list) \<times> fs_ledger" where
  "certificate_revocations es s =
     (case parse_entries es of
        None \<Rightarrow> (Err (), s)
      | Some revs \<Rightarrow>
          if CredentialEntry \<in> set es then
            (case write_revocations revs s of
               (Inl e, s') \<Rightarrow> (Err e, s') | (Inr _, s') \<Rightarrow> (Ok revs, s'))
          else (Ok revs, s))"

definition read_revocations :: "fs_ledger \<Rightarrow> (unit + revocation list) \<times> fs_ledger" where
  "read_revocations s =
     (case d_list (disk_content (fl_disk s)) of
        NoList \<Rightarrow> (Ok [], s)
      | UnreadableList \<Rightarrow> (Err (), s)
      | ListEntries es \<Rightarrow> certificate_revocations es s)"

fun load_certificates :: "(string \<times> issued option) list \<Rightarrow> issued list option" where
  "load_certificates [] = Some []"
| "load_certificates ((stem, file) # fs) =
     (case file of
        None \<Rightarrow> None
      | Some i \<Rightarrow> if cert_file_stem (iss_id i) \<noteq> stem then None
          else map_option (\<lambda>is. i # is) (load_certificates fs))"

fun load_hosts :: "(string \<times> (string \<times> host) option) list \<Rightarrow> (string \<times> host) list option" where
  "load_hosts [] = Some []"
| "load_hosts ((stem, file) # fs) =
     (case file of
        None \<Rightarrow> None
      | Some (h, e) \<Rightarrow> if host_file_stem h \<noteq> stem then None
          else map_option (\<lambda>hs. (h, e) # hs) (load_hosts fs))"

definition links_of :: "issued list \<Rightarrow> links" where
  "links_of is = bt_collect (map (\<lambda>i. (iss_id i, predecessor i)) is)"

definition fl_load :: "fs_ledger \<Rightarrow> (unit + ledger) \<times> fs_ledger" where
  "fl_load s =
     (case load_certificates (d_certificates (disk_content (fl_disk s))) of
        None \<Rightarrow> (Err (), s)
      | Some is \<Rightarrow>
          (case read_revocations s of
             (Inl e, s') \<Rightarrow> (Err e, s')
           | (Inr revs, s') \<Rightarrow>
               (case load_hosts (d_hosts (disk_content (fl_disk s'))) of
                  None \<Rightarrow> (Err (), s')
                | Some hs \<Rightarrow>
                    let hosts = bt_collect hs in
                    (Ok \<lparr>l_issued = is, l_revocations = revs, l_hosts = hosts, l_version = None\<rparr>,
                     s'\<lparr>fl_written := hosts, fl_links := Some (links_of is)\<rparr>))))"

definition put_issued :: "issued \<Rightarrow> fs_ledger \<Rightarrow> (unit + unit) \<times> fs_ledger" where
  "put_issued i s =
     (case fl_replace (\<lambda>d. d\<lparr>d_certificates := bt_insert (cert_file_stem (iss_id i)) (Some i) (d_certificates d)\<rparr>) s of
        (Inl e, s') \<Rightarrow> (Err e, s')
      | (Inr _, s') \<Rightarrow> (Ok (), s'\<lparr>fl_links := map_option (bt_insert (iss_id i) (predecessor i)) (fl_links s')\<rparr>))"

definition remove_issued :: "cert_id \<Rightarrow> fs_ledger \<Rightarrow> (unit + unit) \<times> fs_ledger" where
  "remove_issued i s =
     (case fl_delete (\<lambda>d. d\<lparr>d_certificates := bt_remove (cert_file_stem i) (d_certificates d)\<rparr>) s of
        (Inl e, s') \<Rightarrow> (Err e, s')
      | (Inr _, s') \<Rightarrow> (Ok (), s'\<lparr>fl_links := map_option (bt_remove i) (fl_links s')\<rparr>))"

definition register_issued :: "issued \<Rightarrow> register_bounds \<Rightarrow> fs_ledger \<Rightarrow> (unit + registered) \<times> fs_ledger" where
  "register_issued i bounds s =
     (let (read, s0) =
            (if fl_links s = None
             then (case fl_load s of (Inl e, s1) \<Rightarrow> (Err e, s1) | (Inr _, s1) \<Rightarrow> (Ok (), s1))
             else (Ok (), s)) in
      case read of
        Inl e \<Rightarrow> (Err e, s0)
      | Inr _ \<Rightarrow>
          (case read_revocations s0 of
             (Inl e, s') \<Rightarrow> (Err e, s')
           | (Inr revs, s') \<Rightarrow>
               let decided = register_into (the (fl_links s')) (named_in revs) i bounds in
               if decided = Registered then
                 (case put_issued i s' of
                    (Inl e, s'') \<Rightarrow> (Err e, s'') | (Inr _, s'') \<Rightarrow> (Ok decided, s''))
               else (Ok decided, s')))"

definition fl_bind :: "string \<Rightarrow> string \<Rightarrow> fs_ledger \<Rightarrow> (unit + bound) \<times> fs_ledger" where
  "fl_bind uid h s =
     (Ok (case find (\<lambda>(nm, e). nm \<noteq> h \<and> \<not> gateway e \<and> uid \<in> set (instance_uids e)) (fl_written s) of
            None \<Rightarrow> Bound | Some (holder, _) \<Rightarrow> Taken holder), s)"

definition fl_unbind :: "string \<Rightarrow> fs_ledger \<Rightarrow> (unit + string option) \<times> fs_ledger" where
  "fl_unbind uid s =
     (Ok (map_option fst (find (\<lambda>(_, e). \<not> gateway e \<and> uid \<in> set (instance_uids e)) (fl_written s))), s)"

fun write_host_files :: "(string \<times> host) list \<Rightarrow> fs_ledger \<Rightarrow> (unit + unit) \<times> fs_ledger" where
  "write_host_files [] s = (Ok (), s)"
| "write_host_files ((h, e) # hs) s =
     (if map_of (fl_written s) h = Some e then write_host_files hs s
      else case fl_replace (\<lambda>d. d\<lparr>d_hosts := bt_insert (host_file_stem h) (Some (h, e)) (d_hosts d)\<rparr>) s of
          (Inl err, s') \<Rightarrow> (Err err, s')
        | (Inr _, s') \<Rightarrow> write_host_files hs (s'\<lparr>fl_written := bt_insert h e (fl_written s')\<rparr>))"

fun remove_host_files :: "string list \<Rightarrow> fs_ledger \<Rightarrow> (unit + unit) \<times> fs_ledger" where
  "remove_host_files [] s = (Ok (), s)"
| "remove_host_files (h # hs) s =
     (case fl_delete (\<lambda>d. d\<lparr>d_hosts := bt_remove (host_file_stem h) (d_hosts d)\<rparr>) s of
        (Inl err, s') \<Rightarrow> (Err err, s')
      | (Inr _, s') \<Rightarrow> remove_host_files hs (s'\<lparr>fl_written := bt_remove h (fl_written s')\<rparr>))"

definition fl_save_hosts :: "(string, host) btree \<Rightarrow> fs_ledger \<Rightarrow> (unit + unit) \<times> fs_ledger" where
  "fl_save_hosts hosts s =
     (case write_host_files hosts s of
        (Inl e, s') \<Rightarrow> (Err e, s')
      | (Inr _, s') \<Rightarrow>
          remove_host_files (filter (\<lambda>h. \<not> bt_contains hosts h) (map fst (fl_written s'))) s')"

definition fl_add_revocation :: "revocation \<Rightarrow> nat \<Rightarrow> fs_ledger \<Rightarrow> (unit + added) \<times> fs_ledger" where
  "fl_add_revocation entry bnd s =
     (case read_revocations s of
        (Inl e, s') \<Rightarrow> (Err e, s')
      | (Inr revs, s') \<Rightarrow>
          let (a, revs') = add_to_list revs entry bnd in
          (case a of
             Present _ \<Rightarrow> (Ok a, s')
           | ListFull \<Rightarrow> (Ok a, s')
           | _ \<Rightarrow> (case write_revocations revs' s' of
                 (Inl e, s'') \<Rightarrow> (Err e, s'') | (Inr _, s'') \<Rightarrow> (Ok a, s''))))"

definition fl_remove_revocation :: "string \<Rightarrow> fs_ledger \<Rightarrow> (unit + bool) \<times> fs_ledger" where
  "fl_remove_revocation i s =
     (case read_revocations s of
        (Inl e, s') \<Rightarrow> (Err e, s')
      | (Inr revs, s') \<Rightarrow>
          let (held, revs') = remove_from revs i in
          if \<not> held then (Ok False, s')
          else case write_revocations revs' s' of
              (Inl e, s'') \<Rightarrow> (Err e, s'') | (Inr _, s'') \<Rightarrow> (Ok True, s''))"

definition fs_ledger_store :: "fs_ledger ledger_store" where
  "fs_ledger_store =
     \<lparr>ls_load = fl_load, ls_remove_issued = remove_issued,
      ls_register_minting = default_register_minting register_issued,
      ls_add_revocation = fl_add_revocation, ls_list_version = (\<lambda>_. None),
      ls_remove_revocation = fl_remove_revocation, ls_bind = fl_bind,
      ls_bind_seen = default_bind_seen fl_bind, ls_unbind = fl_unbind,
      ls_rebind = default_rebind fl_unbind fl_bind, ls_unbind_host = (\<lambda>_ s. (Ok (), s)),
      ls_writes_by_act = False, ls_write_host_act = (\<lambda>_ s. (Ok (), s)), ls_save_hosts = fl_save_hosts\<rparr>"

section \<open>What each operation does to the files\<close>

abbreviation dir :: "fs_ledger \<Rightarrow> ledger_dir" where
  "dir s \<equiv> disk_content (fl_disk s)"

definition file_list :: "ledger_dir \<Rightarrow> revocation list option" where
  "file_list d = (case d_list d of NoList \<Rightarrow> Some [] | UnreadableList \<Rightarrow> None | ListEntries es \<Rightarrow> parse_entries es)"

lemma parse_written [simp]: "parse_entries (map CertificateEntry revs) = Some revs"
  by (induction revs) simp_all

lemma fl_replace_cases:
  assumes "fl_replace f s = (r, s')"
  shows "dir s' = f (dir s) \<or> (r = Err () \<and> dir s' = dir s)" "fl_links s' = fl_links s" "fl_written s' = fl_written s"
proof -
  obtain ok d where doc: "replace_doc f (fl_disk s) = (ok, d)" by (cases "replace_doc f (fl_disk s)")
  have s': "r = (if ok then Ok () else Err ())" "s' = s\<lparr>fl_disk := d\<rparr>"
    using assms doc by (auto simp: fl_replace_def)
  then show "dir s' = f (dir s) \<or> (r = Err () \<and> dir s' = dir s)"
    using replace_doc_cases [OF doc] by auto
  show "fl_links s' = fl_links s" "fl_written s' = fl_written s" using s' by simp_all
qed

lemma fl_delete_cases:
  assumes "fl_delete f s = (r, s')"
  shows "(r = Ok () \<and> dir s' = f (dir s)) \<or> (r = Err () \<and> dir s' = dir s)" "fl_links s' = fl_links s" "fl_written s' = fl_written s"
proof -
  obtain ok d where doc: "step_doc f (fl_disk s) = (ok, d)" by (cases "step_doc f (fl_disk s)")
  have s': "r = (if ok then Ok () else Err ())" "s' = s\<lparr>fl_disk := d\<rparr>"
    using assms doc by (auto simp: fl_delete_def)
  then show "(r = Ok () \<and> dir s' = f (dir s)) \<or> (r = Err () \<and> dir s' = dir s)"
    using step_doc_ok [of f "fl_disk s" d] step_doc_err [of f "fl_disk s" d] doc by (cases ok) auto
  show "fl_links s' = fl_links s" "fl_written s' = fl_written s" using s' by simp_all
qed

lemma write_revocations_cases:
  assumes "write_revocations revs s = (r, s')"
  shows "d_certificates (dir s') = d_certificates (dir s)" "d_hosts (dir s') = d_hosts (dir s)"
    "file_list (dir s') = Some revs \<or> (r = Err () \<and> file_list (dir s') = file_list (dir s))"
    "fl_links s' = fl_links s" "fl_written s' = fl_written s"
  using fl_replace_cases [OF assms [unfolded write_revocations_def]] by (auto simp: file_list_def)

text \<open>Reading the list may write it back without the entries of an older release; what it says stays.\<close>

lemma read_revocations_cases:
  assumes "read_revocations s = (r, s')"
  shows "d_certificates (dir s') = d_certificates (dir s)" "d_hosts (dir s') = d_hosts (dir s)"
    "file_list (dir s') = file_list (dir s)" "r = Ok revs \<Longrightarrow> file_list (dir s) = Some revs"
    "fl_links s' = fl_links s" "fl_written s' = fl_written s"
proof -
  have "d_certificates (dir s') = d_certificates (dir s) \<and> d_hosts (dir s') = d_hosts (dir s)
    \<and> file_list (dir s') = file_list (dir s) \<and> (\<forall>revs. r = Ok revs \<longrightarrow> file_list (dir s) = Some revs)
    \<and> fl_links s' = fl_links s \<and> fl_written s' = fl_written s"
  proof (cases "d_list (dir s)")
    case (ListEntries es)
    show ?thesis
    proof (cases "parse_entries es")
      case None
      then show ?thesis using assms ListEntries by (auto simp: read_revocations_def certificate_revocations_def)
    next
      case (Some l)
      obtain w s1 where w: "write_revocations l s = (w, s1)" by (cases "write_revocations l s")
      have "file_list (dir s) = Some l" using ListEntries Some by (simp add: file_list_def)
      then show ?thesis
        using assms ListEntries Some w write_revocations_cases [OF w]
        by (auto simp: read_revocations_def certificate_revocations_def split: if_splits sum.splits)
    qed
  qed (use assms in \<open>auto simp: read_revocations_def file_list_def\<close>)
  then show "d_certificates (dir s') = d_certificates (dir s)" "d_hosts (dir s') = d_hosts (dir s)"
    "file_list (dir s') = file_list (dir s)" "r = Ok revs \<Longrightarrow> file_list (dir s) = Some revs"
    "fl_links s' = fl_links s" "fl_written s' = fl_written s"
    by auto
qed

lemma put_issued_cases:
  assumes "put_issued i s = (r, s')"
  shows "d_certificates (dir s') = bt_insert (cert_file_stem (iss_id i)) (Some i) (d_certificates (dir s))
      \<or> (r = Err () \<and> d_certificates (dir s') = d_certificates (dir s))"
    "d_list (dir s') = d_list (dir s)" "d_hosts (dir s') = d_hosts (dir s)" "fl_written s' = fl_written s"
proof -
  obtain w s1 where w: "fl_replace (\<lambda>d. d\<lparr>d_certificates := bt_insert (cert_file_stem (iss_id i)) (Some i) (d_certificates d)\<rparr>) s = (w, s1)"
    by (cases "fl_replace (\<lambda>d. d\<lparr>d_certificates := bt_insert (cert_file_stem (iss_id i)) (Some i) (d_certificates d)\<rparr>) s")
  show "d_certificates (dir s') = bt_insert (cert_file_stem (iss_id i)) (Some i) (d_certificates (dir s))
      \<or> (r = Err () \<and> d_certificates (dir s') = d_certificates (dir s))"
    "d_list (dir s') = d_list (dir s)" "d_hosts (dir s') = d_hosts (dir s)" "fl_written s' = fl_written s"
    using assms w fl_replace_cases [OF w] by (auto simp: put_issued_def split: sum.splits)
qed

lemma remove_issued_cases:
  assumes "remove_issued i s = (r, s')"
  shows "(r = Ok () \<and> d_certificates (dir s') = bt_remove (cert_file_stem i) (d_certificates (dir s)))
      \<or> (r = Err () \<and> d_certificates (dir s') = d_certificates (dir s))"
    "d_list (dir s') = d_list (dir s)" "d_hosts (dir s') = d_hosts (dir s)" "fl_written s' = fl_written s"
proof -
  obtain w s1 where w: "fl_delete (\<lambda>d. d\<lparr>d_certificates := bt_remove (cert_file_stem i) (d_certificates d)\<rparr>) s = (w, s1)"
    by (cases "fl_delete (\<lambda>d. d\<lparr>d_certificates := bt_remove (cert_file_stem i) (d_certificates d)\<rparr>) s")
  show "(r = Ok () \<and> d_certificates (dir s') = bt_remove (cert_file_stem i) (d_certificates (dir s)))
      \<or> (r = Err () \<and> d_certificates (dir s') = d_certificates (dir s))"
    "d_list (dir s') = d_list (dir s)" "d_hosts (dir s') = d_hosts (dir s)" "fl_written s' = fl_written s"
    using assms w fl_delete_cases [OF w] by (auto simp: remove_issued_def split: sum.splits)
qed

lemma fl_load_cases:
  assumes "fl_load s = (r, s')"
  shows "d_certificates (dir s') = d_certificates (dir s)" "d_hosts (dir s') = d_hosts (dir s)"
    "file_list (dir s') = file_list (dir s)"
    "r = Ok l \<Longrightarrow> load_certificates (d_certificates (dir s)) = Some (l_issued l) \<and> file_list (dir s) = Some (l_revocations l)
       \<and> (\<exists>hs. load_hosts (d_hosts (dir s)) = Some hs \<and> l_hosts l = bt_collect hs) \<and> fl_written s' = l_hosts l"
proof -
  obtain rr s1 where rr: "read_revocations s = (rr, s1)" by (cases "read_revocations s")
  note read = read_revocations_cases [OF rr]
  have "d_certificates (dir s') = d_certificates (dir s) \<and> d_hosts (dir s') = d_hosts (dir s) \<and> file_list (dir s') = file_list (dir s)
     \<and> (r = Ok l \<longrightarrow> load_certificates (d_certificates (dir s)) = Some (l_issued l) \<and> file_list (dir s) = Some (l_revocations l)
       \<and> (\<exists>hs. load_hosts (d_hosts (dir s)) = Some hs \<and> l_hosts l = bt_collect hs) \<and> fl_written s' = l_hosts l)"
  proof (cases "load_certificates (d_certificates (dir s))")
    case None
    then show ?thesis using assms by (auto simp: fl_load_def)
  next
    case (Some "is")
    show ?thesis
    proof (cases rr)
      case (Inl e)
      then show ?thesis using assms Some rr read by (auto simp: fl_load_def)
    next
      case (Inr revs)
      then show ?thesis
        using assms Some rr read(1-3) read(4) [OF Inr]
        by (cases "load_hosts (d_hosts (dir s1))") (auto simp: fl_load_def Let_def)
    qed
  qed
  then show "d_certificates (dir s') = d_certificates (dir s)" "d_hosts (dir s') = d_hosts (dir s)"
    "file_list (dir s') = file_list (dir s)"
    "r = Ok l \<Longrightarrow> load_certificates (d_certificates (dir s)) = Some (l_issued l) \<and> file_list (dir s) = Some (l_revocations l)
       \<and> (\<exists>hs. load_hosts (d_hosts (dir s)) = Some hs \<and> l_hosts l = bt_collect hs) \<and> fl_written s' = l_hosts l"
    by auto
qed

lemma register_issued_cases:
  assumes "register_issued i bounds s = (r, s')"
  shows "d_certificates (dir s') = bt_insert (cert_file_stem (iss_id i)) (Some i) (d_certificates (dir s))
      \<or> (r \<noteq> Ok Registered \<and> d_certificates (dir s') = d_certificates (dir s))"
    "file_list (dir s') = file_list (dir s)" "d_hosts (dir s') = d_hosts (dir s)"
proof -
  define first where "first = (if fl_links s = None
      then (case fl_load s of (Inl e, s1) \<Rightarrow> (Err e, s1) | (Inr _, s1) \<Rightarrow> (Ok (), s1)) else (Ok (), s))"
  obtain f s0 where f: "first = (f, s0)" by (cases first)
  have s0: "d_certificates (dir s0) = d_certificates (dir s) \<and> d_hosts (dir s0) = d_hosts (dir s) \<and> file_list (dir s0) = file_list (dir s)"
  proof (cases "fl_links s = None")
    case True
    obtain l s1 where l: "fl_load s = (l, s1)" by (cases "fl_load s")
    then have "s0 = s1" using f True by (auto simp: first_def split: sum.splits)
    then show ?thesis using fl_load_cases(1-3) [OF l] by simp
  next
    case False
    then show ?thesis using f by (simp add: first_def del: not_None_eq)
  qed
  have "(d_certificates (dir s') = bt_insert (cert_file_stem (iss_id i)) (Some i) (d_certificates (dir s))
      \<or> (r \<noteq> Ok Registered \<and> d_certificates (dir s') = d_certificates (dir s)))
    \<and> file_list (dir s') = file_list (dir s) \<and> d_hosts (dir s') = d_hosts (dir s)"
  proof (cases f)
    case (Inl e)
    then show ?thesis using assms f s0 by (auto simp: register_issued_def first_def [symmetric])
  next
    case (Inr u)
    obtain rr s1 where rr: "read_revocations s0 = (rr, s1)" by (cases "read_revocations s0")
    note read = read_revocations_cases [OF rr]
    show ?thesis
    proof (cases rr)
      case (Inl e)
      then show ?thesis using assms f Inr s0 rr read by (auto simp: register_issued_def first_def [symmetric])
    next
      case revs: (Inr revs)
      obtain p s2 where p: "put_issued i s1 = (p, s2)" by (cases "put_issued i s1")
      note put = put_issued_cases [OF p]
      have "file_list (dir s2) = file_list (dir s1)" using put(2) by (simp add: file_list_def)
      then show ?thesis
        using assms f Inr s0 rr revs read p put
        by (auto simp: register_issued_def first_def [symmetric] Let_def split: if_splits sum.splits)
    qed
  qed
  then show "d_certificates (dir s') = bt_insert (cert_file_stem (iss_id i)) (Some i) (d_certificates (dir s))
      \<or> (r \<noteq> Ok Registered \<and> d_certificates (dir s') = d_certificates (dir s))"
    "file_list (dir s') = file_list (dir s)" "d_hosts (dir s') = d_hosts (dir s)"
    by auto
qed

lemma write_host_files_keeps:
  "write_host_files hs s = (r, s') \<Longrightarrow> d_certificates (dir s') = d_certificates (dir s) \<and> d_list (dir s') = d_list (dir s)"
proof (induction hs arbitrary: s)
  case (Cons e hs)
  obtain h v where e: "e = (h, v)" by (cases e)
  let ?f = "\<lambda>d. d\<lparr>d_hosts := bt_insert (host_file_stem h) (Some (h, v)) (d_hosts d)\<rparr>"
  obtain w s1 where w: "fl_replace ?f s = (w, s1)" by (cases "fl_replace ?f s")
  have "d_certificates (dir s1) = d_certificates (dir s) \<and> d_list (dir s1) = d_list (dir s)"
    using fl_replace_cases(1) [OF w] by auto
  then show ?case
    using Cons.prems Cons.IH [of s] Cons.IH [of "s1\<lparr>fl_written := bt_insert h v (fl_written s1)\<rparr>"] w e
    by (auto split: if_splits sum.splits)
qed simp

lemma remove_host_files_keeps:
  "remove_host_files hs s = (r, s') \<Longrightarrow> d_certificates (dir s') = d_certificates (dir s) \<and> d_list (dir s') = d_list (dir s)"
proof (induction hs arbitrary: s)
  case (Cons h hs)
  let ?f = "\<lambda>d. d\<lparr>d_hosts := bt_remove (host_file_stem h) (d_hosts d)\<rparr>"
  obtain w s1 where w: "fl_delete ?f s = (w, s1)" by (cases "fl_delete ?f s")
  have "d_certificates (dir s1) = d_certificates (dir s) \<and> d_list (dir s1) = d_list (dir s)"
    using fl_delete_cases(1) [OF w] by auto
  then show ?case
    using Cons.prems Cons.IH [of "s1\<lparr>fl_written := bt_remove h (fl_written s1)\<rparr>"] w
    by (auto split: sum.splits)
qed simp

lemma fl_save_hosts_keeps:
  assumes "fl_save_hosts hosts s = (r, s')"
  shows "d_certificates (dir s') = d_certificates (dir s)" "file_list (dir s') = file_list (dir s)"
proof -
  obtain w s1 where w: "write_host_files hosts s = (w, s1)" by (cases "write_host_files hosts s")
  have "d_certificates (dir s') = d_certificates (dir s) \<and> d_list (dir s') = d_list (dir s)"
    using assms w write_host_files_keeps [OF w] remove_host_files_keeps [of _ s1 r s']
    by (auto simp: fl_save_hosts_def split: sum.splits)
  then show "d_certificates (dir s') = d_certificates (dir s)" "file_list (dir s') = file_list (dir s)"
    by (simp_all add: file_list_def)
qed

lemma fl_add_revocation_cases:
  assumes "fl_add_revocation e bnd s = (r, s')"
  shows "d_certificates (dir s') = d_certificates (dir s)"
    "file_list (dir s') = file_list (dir s) \<or> (\<exists>revs. file_list (dir s) = Some revs \<and> file_list (dir s') = Some (snd (add_to_list revs e bnd)))"
    "r = Ok a \<Longrightarrow> \<exists>revs. file_list (dir s) = Some revs \<and> a = fst (add_to_list revs e bnd)
       \<and> (a \<noteq> ListFull \<longrightarrow> file_list (dir s') = Some (snd (add_to_list revs e bnd)))"
proof -
  obtain rr s1 where rr: "read_revocations s = (rr, s1)" by (cases "read_revocations s")
  note read = read_revocations_cases [OF rr]
  have present: "snd (add_to l e n bnd) = l" if "fst (add_to l e n bnd) = Present x" for l n x
    using that by (induction l) (auto simp: Let_def split: if_splits option.splits prod.splits)
  have "d_certificates (dir s') = d_certificates (dir s)
    \<and> (file_list (dir s') = file_list (dir s) \<or> (\<exists>revs. file_list (dir s) = Some revs \<and> file_list (dir s') = Some (snd (add_to_list revs e bnd))))
    \<and> (r = Ok a \<longrightarrow> (\<exists>revs. file_list (dir s) = Some revs \<and> a = fst (add_to_list revs e bnd)
       \<and> (a \<noteq> ListFull \<longrightarrow> file_list (dir s') = Some (snd (add_to_list revs e bnd)))))"
  proof (cases rr)
    case (Inl x)
    then show ?thesis using assms rr read by (auto simp: fl_add_revocation_def)
  next
    case (Inr revs)
    obtain b revs' where add: "add_to_list revs e bnd = (b, revs')" by (cases "add_to_list revs e bnd")
    obtain w s2 where w: "write_revocations revs' s1 = (w, s2)" by (cases "write_revocations revs' s1")
    have same: "revs' = revs" if "b = Present x" for x
      using that present [of revs "length revs" x] add by (simp add: add_to_list_def)
    show ?thesis
      using assms rr Inr add w read(1-3) read(4) [OF Inr] write_revocations_cases [OF w] same
      by (auto simp: fl_add_revocation_def split: added.splits sum.splits)
  qed
  then show "d_certificates (dir s') = d_certificates (dir s)"
    "file_list (dir s') = file_list (dir s) \<or> (\<exists>revs. file_list (dir s) = Some revs \<and> file_list (dir s') = Some (snd (add_to_list revs e bnd)))"
    "r = Ok a \<Longrightarrow> \<exists>revs. file_list (dir s) = Some revs \<and> a = fst (add_to_list revs e bnd)
       \<and> (a \<noteq> ListFull \<longrightarrow> file_list (dir s') = Some (snd (add_to_list revs e bnd)))"
    by auto
qed

lemma fl_remove_revocation_cases:
  assumes "fl_remove_revocation i s = (r, s')"
  shows "d_certificates (dir s') = d_certificates (dir s)"
    "file_list (dir s') = file_list (dir s) \<or> (\<exists>revs. file_list (dir s) = Some revs \<and> file_list (dir s') = Some (filter (\<lambda>e. rev_id e \<noteq> i) revs))"
proof -
  obtain rr s1 where rr: "read_revocations s = (rr, s1)" by (cases "read_revocations s")
  note read = read_revocations_cases [OF rr]
  have "d_certificates (dir s') = d_certificates (dir s)
    \<and> (file_list (dir s') = file_list (dir s) \<or> (\<exists>revs. file_list (dir s) = Some revs \<and> file_list (dir s') = Some (filter (\<lambda>e. rev_id e \<noteq> i) revs)))"
  proof (cases rr)
    case (Inl x)
    then show ?thesis using assms rr read by (auto simp: fl_remove_revocation_def)
  next
    case (Inr revs)
    let ?revs = "filter (\<lambda>e. rev_id e \<noteq> i) revs"
    obtain w s2 where w: "write_revocations ?revs s1 = (w, s2)" by (cases "write_revocations ?revs s1")
    show ?thesis
      using assms rr Inr w read(1-3) read(4) [OF Inr] write_revocations_cases [OF w]
      by (auto simp: fl_remove_revocation_def remove_from_def Let_def split: if_splits sum.splits)
  qed
  then show "d_certificates (dir s') = d_certificates (dir s)"
    "file_list (dir s') = file_list (dir s) \<or> (\<exists>revs. file_list (dir s) = Some revs \<and> file_list (dir s') = Some (filter (\<lambda>e. rev_id e \<noteq> i) revs))"
    by auto
qed

lemma fs_ledger_store_sel [simp]:
  "ls_load fs_ledger_store = fl_load" "ls_remove_issued fs_ledger_store = remove_issued"
  "ls_register_minting fs_ledger_store i bounds mint b s = register_issued i bounds s"
  "ls_add_revocation fs_ledger_store = fl_add_revocation" "ls_list_version fs_ledger_store s = None"
  "ls_remove_revocation fs_ledger_store = fl_remove_revocation" "ls_bind fs_ledger_store = fl_bind"
  "ls_bind_seen fs_ledger_store uid h row s = fl_bind uid h s" "ls_unbind fs_ledger_store = fl_unbind"
  "ls_rebind fs_ledger_store = default_rebind fl_unbind fl_bind" "ls_unbind_host fs_ledger_store h s = (Ok (), s)"
  "ls_writes_by_act fs_ledger_store = False" "ls_save_hosts fs_ledger_store = fl_save_hosts"
  by (simp_all add: fs_ledger_store_def default_register_minting_def default_bind_seen_def)

end
