(* ===== verification/Revocation.thy ===== *)
theory Revocation
  imports Ledger
begin

text \<open>
  The register, the revocation list and the Hosts as a Server keeps them (\<open>Revocations\<close> of
  \<open>fleet-server/src/revocation.rs\<close>): every operation as a function of the state in memory and the store
  behind the port. Taking a lock, acting and releasing it is one step; the clock's reading is the
  argument \<open>now\<close>, one for each operation; \<open>rv_changes\<close> counts what the watch channel announces. The
  reload of a shared store, which reads it outside the lock, takes what this instance does meanwhile
  as its argument.
\<close>

declare split_paired_All [simp del] split_paired_Ex [simp del]

section \<open>The state\<close>

record 's revocations =
  rv_ops :: "'s ledger_store"
  rv_store :: 's
  rv_authorities :: "authority list"
  rv_state :: trust
  rv_hosts_written :: nat
  rv_changes :: nat

datatype record_error = RecordFull full_reason | HostFull | RenewsRevoked | BootstrapIsRevoked | RecordStore

datatype revoke_error = NoAuthority | NotHex | SerialTooLong | RevocationsFull | RevokeStore

datatype report_error = OtherHost | TooManyAgents | BoundElsewhere string string | ReportStore

definition RELOAD_SWAPS_REFUSED :: nat where
  "RELOAD_SWAPS_REFUSED = 3"

definition MAX_SERIAL_HEX :: nat where
  "MAX_SERIAL_HEX = 40"

section \<open>Writing the Hosts\<close>

type_synonym hosts_version = "nat \<times> (string, host) btree"

definition hosts_changed :: "trust \<Rightarrow> hosts_version \<times> trust" where
  "hosts_changed t =
     (let v = t_hosts_version t + 1 in ((v, t_hosts t), t\<lparr>t_hosts_version := v\<rparr>))"

definition write_hosts :: "hosts_version \<Rightarrow> 's revocations \<Rightarrow> (unit + unit) \<times> 's revocations" where
  "write_hosts hv rv =
     (if rv_hosts_written rv \<ge> fst hv then (Ok (), rv)
      else case ls_save_hosts (rv_ops rv) (snd hv) (rv_store rv) of
          (Inl e, s) \<Rightarrow> (Err e, rv\<lparr>rv_store := s\<rparr>)
        | (Inr _, s) \<Rightarrow> (Ok (), rv\<lparr>rv_store := s, rv_hosts_written := fst hv\<rparr>))"

definition write_forgotten :: "hosts_version option \<Rightarrow> 's revocations \<Rightarrow> 's revocations" where
  "write_forgotten forgotten rv = (case forgotten of None \<Rightarrow> rv | Some hv \<Rightarrow> snd (write_hosts hv rv))"

definition save_hosts :: "'s revocations \<Rightarrow> (unit + unit) \<times> 's revocations" where
  "save_hosts rv = (let (hv, t) = hosts_changed (rv_state rv) in write_hosts hv (rv\<lparr>rv_state := t\<rparr>))"

definition write_act_logged :: "'s ledger_store \<Rightarrow> host_act \<Rightarrow> 's \<Rightarrow> 's" where
  "write_act_logged ops act s = snd (ls_write_host_act ops act s)"

section \<open>Forgetting what has expired\<close>

fun needed_walk :: "nat \<Rightarrow> (cert_id, issued) btree \<Rightarrow> cert_id option \<Rightarrow> cert_id bset \<Rightarrow> cert_id bset" where
  "needed_walk 0 m current needed = needed"
| "needed_walk (Suc n) m None needed = needed"
| "needed_walk (Suc n) m (Some i) needed =
     (if i \<in> set needed then needed else needed_walk n m (pred_of m i) (bs_insert i needed))"

definition needed_at :: "nat \<Rightarrow> (cert_id, issued) btree \<Rightarrow> cert_id bset" where
  "needed_at now m =
     fold (\<lambda>i needed. if not_after_ms (iss_facts i) \<le> now then needed
                      else needed_walk (Suc (length m)) m (Some (iss_id i)) needed)
       (map snd m) []"

definition latest_ends :: "(cert_id, issued) btree \<Rightarrow> (string, nat) btree" where
  "latest_ends m =
     fold (\<lambda>i latest. case facts_host (iss_facts i) of
               None \<Rightarrow> latest
             | Some h \<Rightarrow> bt_insert h (max (case map_of latest h of None \<Rightarrow> 0 | Some u \<Rightarrow> u) (not_after_ms (iss_facts i))) latest)
       (map snd m) []"

text \<open>The loop over the Hosts: what it leaves of each, and the ends it moved.\<close>

fun extend_hosts :: "(string, nat) btree \<Rightarrow> (string \<times> host) list \<Rightarrow> (string \<times> nat) list \<times> (string \<times> host) list" where
  "extend_hosts latest [] = ([], [])"
| "extend_hosts latest ((h, e) # hs) =
     (let (moved, hs') = extend_hosts latest hs in
      case map_of latest h of
        None \<Rightarrow> (moved, (h, e) # hs')
      | Some u \<Rightarrow> (case host_extend u e of
            (True, e') \<Rightarrow> ((h, u) # moved, (h, e') # hs')
          | (False, e') \<Rightarrow> (moved, (h, e') # hs')))"

definition host_ended :: "nat \<Rightarrow> host \<Rightarrow> bool" where
  "host_ended now e \<longleftrightarrow> \<not> gateway e \<and> (case valid_until_ms e of None \<Rightarrow> False | Some u \<Rightarrow> u \<le> now)"

definition earliest_after :: "nat \<Rightarrow> trust \<Rightarrow> nat" where
  "earliest_after now t =
     (case filter (\<lambda>u. u > now)
             (map (\<lambda>i. not_after_ms (iss_facts i)) (map snd (t_issued t))
              @ List.map_filter valid_until_ms (filter (\<lambda>e. \<not> gateway e) (map snd (t_hosts t)))) of
        [] \<Rightarrow> u64_max
      | u # us \<Rightarrow> fold min us u)"

fun remove_gone :: "'s ledger_store \<Rightarrow> cert_id list \<Rightarrow> trust \<Rightarrow> 's \<Rightarrow> (unit + unit) \<times> trust \<times> 's" where
  "remove_gone ops [] t s = (Ok (), t, s)"
| "remove_gone ops (i # is) t s =
     (case ls_remove_issued ops i s of
        (Inl e, s') \<Rightarrow> (Err e, t, s')
      | (Inr _, s') \<Rightarrow> remove_gone ops is (state_remove i t) s')"

fun remove_dropped :: "'s ledger_store \<Rightarrow> string list \<Rightarrow> trust \<Rightarrow> 's \<Rightarrow> (unit + unit) \<times> trust \<times> 's" where
  "remove_dropped ops [] t s = (Ok (), t, s)"
| "remove_dropped ops (i # is) t s =
     (case ls_remove_revocation ops i s of
        (Inl e, s') \<Rightarrow> (Err e, t, s')
      | (Inr held, s') \<Rightarrow>
          let t' = (if held then took_up_own_write (ls_list_version ops s') t else t) in
          remove_dropped ops is
            (t'\<lparr>t_revocations := filter (\<lambda>e. rev_id e \<noteq> i) (t_revocations t'), t_revoked := None\<rparr>) s')"

text \<open>The revocations a prune drops: those that name a certificate that is gone.\<close>

definition drops :: "cert_id list \<Rightarrow> revocation \<Rightarrow> bool" where
  "drops gone e \<longleftrightarrow> (\<exists>i \<in> set gone. snd i = rv_serial (rev_revoked e) \<and> fst i \<in> set (rv_issuers (rev_revoked e)))"

text \<open>What a prune does to the Hosts: those whose valid until has passed end with their bindings.\<close>

definition prune_hosts :: "nat \<Rightarrow> 's ledger_store \<Rightarrow> trust \<Rightarrow> 's \<Rightarrow> hosts_version option \<times> trust \<times> 's" where
  "prune_hosts now ops t s =
     (let (moved, hosts) = extend_hosts (latest_ends (t_issued t)) (t_hosts t);
          ended = map fst (filter (\<lambda>(_, e). host_ended now e) hosts);
          t1 = (if ended \<noteq> [] then
                  t\<lparr>t_hosts := bt_retain (\<lambda>h _. h \<notin> set ended) hosts,
                    t_owners := bt_retain (\<lambda>_ owner. owner \<notin> set ended) (t_owners t)\<rparr>
                else t\<lparr>t_hosts := hosts\<rparr>);
          (forgotten, t2, s1) =
            (if ls_writes_by_act ops then
               (None, t1,
                (let s' = (if moved \<noteq> [] then write_act_logged ops (Extended moved) s else s) in
                 if ended \<noteq> [] then write_act_logged ops (Forgotten ended now) s' else s'))
             else if moved \<noteq> [] \<or> ended \<noteq> [] then
               (let (hv, t') = hosts_changed t1 in (Some hv, t', s))
             else (None, t1, s)) in
      (forgotten, t2\<lparr>t_earliest_ms := earliest_after now t2\<rparr>, s1))"

definition gone_at :: "nat \<Rightarrow> trust \<Rightarrow> cert_id list" where
  "gone_at now t = filter (\<lambda>i. i \<notin> set (needed_at now (t_issued t))) (map fst (t_issued t))"

definition prune ::
  "nat \<Rightarrow> 's ledger_store \<Rightarrow> trust \<Rightarrow> 's \<Rightarrow> (unit + hosts_version option) \<times> trust \<times> 's" where
  "prune now ops t s =
     (if now < t_earliest_ms t then (Ok None, t, s)
      else
        let gone = gone_at now t;
            (forgotten, t1, s1) = prune_hosts now ops t s in
        if gone = [] then (Ok forgotten, t1, s1)
        else case remove_gone ops gone t1 s1 of
            (Inl e, t2, s2) \<Rightarrow> (Err e, t2, s2)
          | (Inr _, t2, s2) \<Rightarrow>
              (case remove_dropped ops (map rev_id (filter (drops gone) (t_revocations t2))) t2 s2 of
                 (Inl e, t3, s3) \<Rightarrow> (Err e, t3, s3)
               | (Inr _, t3, s3) \<Rightarrow> (Ok forgotten, t3, s3)))"

definition rv_open :: "nat \<Rightarrow> 's ledger_store \<Rightarrow> authority list \<Rightarrow> 's \<Rightarrow> (unit + 's revocations) \<times> 's" where
  "rv_open now ops auths s =
     (case ls_load ops s of
        (Inl e, s') \<Rightarrow> (Err e, s')
      | (Inr l, s') \<Rightarrow>
          (case prune now ops (loaded l) s' of
             (Inl e, t, s'') \<Rightarrow> (Err e, s'')
           | (Inr forgotten, t, s'') \<Rightarrow>
               let rv = write_forgotten forgotten
                     \<lparr>rv_ops = ops, rv_store = s'', rv_authorities = auths, rv_state = t,
                      rv_hosts_written = 0, rv_changes = 0\<rparr> in
               (Ok rv, rv_store rv)))"

section \<open>Recording a certificate\<close>

definition live_of :: "nat \<Rightarrow> string \<Rightarrow> (cert_id, issued) btree \<Rightarrow> nat" where
  "live_of now h m =
     length (filter (\<lambda>i. facts_host (iss_facts i) = Some h \<and> not_after_ms (iss_facts i) > now) (map snd m))"

definition admit_record ::
  "nat \<Rightarrow> 's ledger_store \<Rightarrow> facts \<Rightarrow> string \<Rightarrow> cert_id option \<Rightarrow> (string \<times> host) option \<Rightarrow> cert_id option
   \<Rightarrow> trust \<Rightarrow> 's \<Rightarrow> (record_error + unit) \<times> trust \<times> 's" where
  "admit_record now ops f uid pre mint bootstrap t s =
     (let limit = (if pre \<noteq> None then MAX_ISSUED - ENROLMENT_RESERVE else MAX_ISSUED);
          root = root_below t pre (facts_id f) in
      if length (t_issued t) \<ge> limit then (Err (RecordFull (RegisterFull (length (t_issued t)))), t, s)
      else if (case map_of (t_descendants t) root of None \<Rightarrow> 0 | Some n \<Rightarrow> n) \<ge> MAX_DESCENDANTS_PER_ROOT
      then (Err (RecordFull ChainFull), t, s)
      else if (case facts_host f of None \<Rightarrow> False | Some h \<Rightarrow> live_of now h (t_issued t) \<ge> MAX_PER_HOST)
      then (Err HostFull, t, s)
      else
        let i = \<lparr>iss_facts = f, iss_uid = hex_encode uid, predecessor = pre, issued_ms = now\<rparr>;
            bounds = \<lparr>bound_size = limit, bound_per_root = MAX_DESCENDANTS_PER_ROOT\<rparr> in
        case ls_register_minting ops i bounds mint bootstrap s of
          (Inl _, s') \<Rightarrow> (Err RecordStore, t, s')
        | (Inr Registered, s') \<Rightarrow> (Ok (), state_insert i t, s')
        | (Inr (Full why), s') \<Rightarrow> (Err (RecordFull why), t, s')
        | (Inr ChainRevoked, s') \<Rightarrow> (Err RenewsRevoked, t, s')
        | (Inr BootstrapRevoked, s') \<Rightarrow> (Err BootstrapIsRevoked, t, s'))"

text \<open>The Host an approval mints, and what the issuance does to the Hosts.\<close>

definition minted :: "nat \<Rightarrow> trust \<Rightarrow> facts \<Rightarrow> cert_id option \<Rightarrow> (string \<times> host) option" where
  "minted now t f pre =
     (case (pre, facts_host f) of
        (None, Some h) \<Rightarrow>
          if bt_contains (t_hosts t) h then None
          else Some (h, default_host\<lparr>host_subject := facts_values f, approved_ms := Some now,
                 valid_until_ms := Some (not_after_ms f)\<rparr>)
      | _ \<Rightarrow> None)"

definition issuance_act ::
  "bool \<Rightarrow> record_error + unit \<Rightarrow> (string \<times> host) option \<Rightarrow> facts \<Rightarrow> trust \<Rightarrow> host_act option \<times> trust" where
  "issuance_act by_act recorded mint f t =
     (case (recorded, mint, facts_host f) of
        (Inr _, Some (h, e), _) \<Rightarrow>
          (if by_act then None else Some (Seen h e), t\<lparr>t_hosts := bt_insert h e (t_hosts t)\<rparr>)
      | (Inr _, None, Some h) \<Rightarrow>
          (case map_of (t_hosts t) h of
             None \<Rightarrow> (None, t)
           | Some e \<Rightarrow>
               (case host_extend (not_after_ms f) e of
                  (True, e') \<Rightarrow> (Some (Extended [(h, not_after_ms f)]), t\<lparr>t_hosts := bt_adjust h (\<lambda>_. e') (t_hosts t)\<rparr>)
                | (False, _) \<Rightarrow> (None, t)))
      | _ \<Rightarrow> (None, t))"

definition record_with ::
  "nat \<Rightarrow> facts \<Rightarrow> string \<Rightarrow> cert_id option \<Rightarrow> cert_id option \<Rightarrow> 's revocations \<Rightarrow> (record_error + unit) \<times> 's revocations" where
  "record_with now f uid pre bootstrap rv =
     (let ops = rv_ops rv;
          t0 = acted (rv_state rv);
          (refused, t1) =
            (case bootstrap of
               None \<Rightarrow> (False, t0)
             | Some b \<Rightarrow> (let (revoked, t') = revoked_set t0 in (b \<in> set revoked, t'))) in
      if refused then (Err BootstrapIsRevoked, rv\<lparr>rv_state := t1\<rparr>)
      else case prune now ops t1 (rv_store rv) of
          (Inl _, t2, s) \<Rightarrow> (Err RecordStore, rv\<lparr>rv_state := t2, rv_store := s\<rparr>)
        | (Inr forgotten, t2, s) \<Rightarrow>
            let mint = minted now t2 f pre;
                (recorded, t3, s') = admit_record now ops f uid pre mint bootstrap t2 s;
                (act, t4) = issuance_act (ls_writes_by_act ops) recorded mint f t3 in
            if ls_writes_by_act ops then
              (recorded,
               rv\<lparr>rv_state := t4,
                  rv_store := (case act of None \<Rightarrow> s' | Some a \<Rightarrow> write_act_logged ops a s')\<rparr>)
            else
              let (hosts, t5) =
                    (if act \<noteq> None then (let (hv, t) = hosts_changed t4 in (Some hv, t)) else (forgotten, t4)) in
              (recorded, write_forgotten hosts (rv\<lparr>rv_state := t5, rv_store := s'\<rparr>)))"

definition record_cert ::
  "nat \<Rightarrow> facts \<Rightarrow> string \<Rightarrow> cert_id option \<Rightarrow> 's revocations \<Rightarrow> (record_error + unit) \<times> 's revocations" where
  "record_cert now f uid pre = record_with now f uid pre None"

definition record_approved ::
  "nat \<Rightarrow> facts \<Rightarrow> string \<Rightarrow> cert_id \<Rightarrow> 's revocations \<Rightarrow> (record_error + unit) \<times> 's revocations" where
  "record_approved now f uid bootstrap = record_with now f uid None (Some bootstrap)"

section \<open>Which host speaks for which Agent\<close>

definition is_gateway_host :: "trust \<Rightarrow> string \<Rightarrow> bool" where
  "is_gateway_host t h \<longleftrightarrow> (case map_of (t_hosts t) h of None \<Rightarrow> False | Some e \<Rightarrow> gateway e)"

definition admits :: "trust \<Rightarrow> string \<Rightarrow> string \<Rightarrow> report_error + bool" where
  "admits t h uid =
     (let bindable =
        (if (case map_of (t_hosts t) h of None \<Rightarrow> False | Some e \<Rightarrow> length (instance_uids e) \<ge> MAX_UIDS_PER_HOST)
         then Err TooManyAgents else Ok True) in
      if is_gateway_host t h then Ok False
      else case map_of (t_owners t) uid of
          None \<Rightarrow> bindable
        | Some owner \<Rightarrow>
            if owner = h then Ok False
            else if \<not> is_gateway_host t owner then Err OtherHost
            else bindable)"

definition may_report :: "string \<Rightarrow> string \<Rightarrow> 's revocations \<Rightarrow> report_error + unit" where
  "may_report h uid rv = (case admits (rv_state rv) h (hex_encode uid) of Inl e \<Rightarrow> Err e | Inr _ \<Rightarrow> Ok ())"

definition take_up :: "trust \<Rightarrow> string \<Rightarrow> string \<Rightarrow> bound \<Rightarrow> (report_error + bool) \<times> trust" where
  "take_up t uid h b =
     (case b of
        Bound \<Rightarrow> (Ok True, t\<lparr>t_owners := bt_insert uid h (t_owners t)\<rparr>)
      | Taken holder \<Rightarrow>
          (Err (BoundElsewhere uid holder),
           t\<lparr>t_hosts := bt_adjust holder (\<lambda>e. e\<lparr>instance_uids := bs_insert uid (instance_uids e)\<rparr>) (t_hosts t),
             t_owners := bt_insert uid holder (t_owners t)\<rparr>)
      | GatewayHost \<Rightarrow>
          (Ok False,
           t\<lparr>t_hosts := bt_adjust h (\<lambda>e. e\<lparr>gateway := True, instance_uids := []\<rparr>) (t_hosts t),
             t_owners := bt_retain (\<lambda>_ owner. owner \<noteq> h) (t_owners t)\<rparr>))"

definition bind_uid ::
  "'s ledger_store \<Rightarrow> string \<Rightarrow> string \<Rightarrow> host \<Rightarrow> trust \<Rightarrow> 's \<Rightarrow> (report_error + bool) \<times> trust \<times> 's" where
  "bind_uid ops uid h row t s =
     (let t' = acted t in
      case ls_bind_seen ops uid h row s of
        (Inl _, s') \<Rightarrow> (Err ReportStore, t', s')
      | (Inr b, s') \<Rightarrow> (let (r, t'') = take_up t' uid h b in (r, t'', s')))"

definition stored :: "(unit + unit) \<times> 's revocations \<Rightarrow> (report_error + unit) \<times> 's revocations" where
  "stored r = (case r of (Inl _, rv) \<Rightarrow> (Err ReportStore, rv) | (Inr _, rv) \<Rightarrow> (Ok (), rv))"

text \<open>\<open>admits(..)? && bind(..)?\<close> of a report, and what an admitted report leaves in memory.\<close>

definition report_binds ::
  "'s ledger_store \<Rightarrow> string \<Rightarrow> string \<Rightarrow> host \<Rightarrow> trust \<Rightarrow> 's \<Rightarrow> (report_error + bool) \<times> trust \<times> 's" where
  "report_binds ops uid h row t s =
     (case admits t h uid of
        Inl e \<Rightarrow> (Err e, t, s)
      | Inr b \<Rightarrow> if b then bind_uid ops uid h row t s else (Ok False, t, s))"

definition note_report :: "bool \<Rightarrow> string \<Rightarrow> string \<Rightarrow> subject_values \<Rightarrow> nat \<Rightarrow> trust \<Rightarrow> bool \<times> trust" where
  "note_report binds uid h subj until t =
     (let hosts =
            (if binds then
               bt_adjust h (\<lambda>e. e\<lparr>instance_uids := bs_insert uid (instance_uids e)\<rparr>)
                 (if bt_contains (t_hosts t) h then t_hosts t
                  else bt_insert h (default_host\<lparr>host_subject := subj\<rparr>) (t_hosts t))
             else t_hosts t) in
      case map_of hosts h of
        None \<Rightarrow> (False, t\<lparr>t_hosts := hosts\<rparr>)
      | Some e \<Rightarrow>
          (case host_extend until e of
             (moved, e') \<Rightarrow>
               if moved
               then (True, acted (t\<lparr>t_hosts := bt_adjust h (\<lambda>_. e') hosts, t_earliest_ms := min (t_earliest_ms t) until\<rparr>))
               else (False, t\<lparr>t_hosts := hosts\<rparr>)))"

definition write_seen :: "string \<Rightarrow> 's revocations \<Rightarrow> (report_error + unit) \<times> 's revocations" where
  "write_seen h rv =
     (case map_of (t_hosts (rv_state rv)) h of
        None \<Rightarrow> (Ok (), rv)
      | Some e \<Rightarrow>
          (case ls_write_host_act (rv_ops rv) (Seen h e) (rv_store rv) of
             (Inl _, s) \<Rightarrow> (Err ReportStore, rv\<lparr>rv_store := s\<rparr>)
           | (Inr _, s) \<Rightarrow> (Ok (), rv\<lparr>rv_store := s\<rparr>)))"

definition check_report ::
  "string \<Rightarrow> subject_values \<Rightarrow> nat \<Rightarrow> string \<Rightarrow> 's revocations \<Rightarrow> (report_error + unit) \<times> 's revocations" where
  "check_report h subj until uid rv =
     (let row = default_host\<lparr>host_subject := subj, valid_until_ms := Some until\<rparr> in
      case report_binds (rv_ops rv) (hex_encode uid) h row (rv_state rv) (rv_store rv) of
        (Inl e, t, s) \<Rightarrow> (Err e, rv\<lparr>rv_state := t, rv_store := s\<rparr>)
      | (Inr binds, t, s) \<Rightarrow>
          (case note_report binds (hex_encode uid) h subj until t of
             (moved, t') \<Rightarrow>
               let rv' = rv\<lparr>rv_state := t', rv_store := s\<rparr> in
               if \<not> (binds \<or> moved) then (Ok (), rv')
               else if ls_writes_by_act (rv_ops rv) then write_seen h rv'
               else stored (save_hosts rv')))"

definition without_uid :: "string \<Rightarrow> string \<Rightarrow> (string, host) btree \<Rightarrow> (string, host) btree" where
  "without_uid uid h hosts = bt_adjust h (\<lambda>e. e\<lparr>instance_uids := bs_remove uid (instance_uids e)\<rparr>) hosts"

definition release :: "string \<Rightarrow> 's revocations \<Rightarrow> (report_error + unit) \<times> 's revocations" where
  "release uid0 rv =
     (let ops = rv_ops rv; uid = hex_encode uid0; t = acted (rv_state rv) in
      case ls_unbind ops uid (rv_store rv) of
        (Inl _, s) \<Rightarrow> (Err ReportStore, rv\<lparr>rv_state := t, rv_store := s\<rparr>)
      | (Inr in_store, s) \<Rightarrow>
          let held = map_of (t_owners t) uid;
              hosts = fold (without_uid uid) (case in_store of None \<Rightarrow> [] | Some h \<Rightarrow> [h]) (t_hosts t);
              hosts' = fold (without_uid uid) (case held of None \<Rightarrow> [] | Some h \<Rightarrow> [h]) hosts;
              rv' = rv\<lparr>rv_state := t\<lparr>t_owners := bt_remove uid (t_owners t), t_hosts := hosts'\<rparr>, rv_store := s\<rparr> in
          if ls_writes_by_act ops then (Ok (), rv') else stored (save_hosts rv'))"

definition bound_host :: "string \<Rightarrow> 's revocations \<Rightarrow> string option" where
  "bound_host uid rv = map_of (t_owners (rv_state rv)) (hex_encode uid)"

definition speaks_for :: "string \<Rightarrow> 's revocations \<Rightarrow> speaks_for" where
  "speaks_for h rv =
     (case map_of (t_hosts (rv_state rv)) h of
        Some e \<Rightarrow> if gateway e then AnyAgent else TheAgents (instance_uids e)
      | None \<Rightarrow> TheAgents [])"

text \<open>What a re-key moves: the binding the store holds, or the one this instance holds where the store
  is written whole.\<close>

definition rebind_in_store ::
  "'s ledger_store \<Rightarrow> string \<Rightarrow> string \<Rightarrow> string option \<Rightarrow> 's \<Rightarrow> (unit + (string \<times> bound) option) \<times> 's" where
  "rebind_in_store ops old new held s =
     (case ls_rebind ops old new s of
        (Inl e, s') \<Rightarrow> (Err e, s')
      | (Inr (Some hb), s') \<Rightarrow> (Ok (Some hb), s')
      | (Inr None, s') \<Rightarrow>
          (case held of
             Some h \<Rightarrow>
               if ls_writes_by_act ops then (Ok None, s')
               else (case ls_bind ops new h s' of (Inl e, s'') \<Rightarrow> (Err e, s'') | (Inr b, s'') \<Rightarrow> (Ok (Some (h, b)), s''))
           | None \<Rightarrow> (Ok None, s')))"

definition rebind_taken :: "string \<Rightarrow> string \<Rightarrow> string \<Rightarrow> bound \<Rightarrow> trust \<Rightarrow> (report_error + unit) \<times> trust" where
  "rebind_taken old new h b t =
     (case take_up (t\<lparr>t_hosts := without_uid old h (t_hosts t)\<rparr>) new h b of
        (Inl e, t') \<Rightarrow> (Err e, t')
      | (Inr binds, t') \<Rightarrow>
          (Ok (), if binds
                  then t'\<lparr>t_hosts := bt_adjust h (\<lambda>e. e\<lparr>instance_uids := bs_insert new (instance_uids e)\<rparr>) (t_hosts t')\<rparr>
                  else t'))"

definition rebind :: "string \<Rightarrow> string \<Rightarrow> 's revocations \<Rightarrow> (report_error + unit) \<times> 's revocations" where
  "rebind old0 new0 rv =
     (let old = hex_encode old0; new = hex_encode new0; t = acted (rv_state rv);
          held = map_of (t_owners t) old;
          t1 = t\<lparr>t_owners := bt_remove old (t_owners t),
                 t_hosts := (case held of None \<Rightarrow> t_hosts t | Some h \<Rightarrow> without_uid old h (t_hosts t))\<rparr> in
      case rebind_in_store (rv_ops rv) old new held (rv_store rv) of
        (Inl _, s) \<Rightarrow> (Err ReportStore, rv\<lparr>rv_state := t1, rv_store := s\<rparr>)
      | (Inr None, s) \<Rightarrow> (Ok (), rv\<lparr>rv_state := t1, rv_store := s\<rparr>)
      | (Inr (Some (h, b)), s) \<Rightarrow>
          (case rebind_taken old new h b t1 of
             (Inl e, t2) \<Rightarrow> (Err e, rv\<lparr>rv_state := t2, rv_store := s\<rparr>)
           | (Inr _, t2) \<Rightarrow>
               let rv' = rv\<lparr>rv_state := t2, rv_store := s\<rparr> in
               if ls_writes_by_act (rv_ops rv) then (Ok (), rv') else stored (save_hosts rv')))"

definition knows_host :: "trust \<Rightarrow> string \<Rightarrow> bool" where
  "knows_host t h \<longleftrightarrow> bt_contains (t_hosts t) h \<or> (\<exists>i \<in> set (map snd (t_issued t)). facts_host (iss_facts i) = Some h)"

definition mark_gateway :: "string \<Rightarrow> bool \<Rightarrow> trust \<Rightarrow> trust" where
  "mark_gateway h gw t =
     (let t1 = (if gw then
                  t\<lparr>t_owners := bt_retain (\<lambda>_ owner. owner \<noteq> h) (t_owners t),
                    t_hosts := bt_adjust h (\<lambda>e. e\<lparr>instance_uids := []\<rparr>) (t_hosts t)\<rparr>
                else t);
          hosts = (if bt_contains (t_hosts t1) h then t_hosts t1 else bt_insert h default_host (t_hosts t1));
          until = (case map_of hosts h of None \<Rightarrow> 0 | Some e \<Rightarrow> (case valid_until_ms e of None \<Rightarrow> 0 | Some u \<Rightarrow> u));
          t2 = t1\<lparr>t_hosts := bt_adjust h (\<lambda>e. e\<lparr>gateway := gw\<rparr>) hosts\<rparr> in
      if gw then t2 else t2\<lparr>t_earliest_ms := min (t_earliest_ms t2) until\<rparr>)"

definition set_gateway :: "string \<Rightarrow> bool \<Rightarrow> 's revocations \<Rightarrow> (unit + bool) \<times> 's revocations" where
  "set_gateway h gw rv =
     (let ops = rv_ops rv; t = acted (rv_state rv) in
      if \<not> knows_host (rv_state rv) h then (Ok False, rv)
      else
        case (if ls_writes_by_act ops then ls_write_host_act ops (GatewayAct h gw) (rv_store rv)
              else if gw then ls_unbind_host ops h (rv_store rv) else (Ok (), rv_store rv)) of
          (Inl e, s) \<Rightarrow> (Err e, rv\<lparr>rv_state := t, rv_store := s\<rparr>)
        | (Inr _, s) \<Rightarrow>
            let rv' = rv\<lparr>rv_state := mark_gateway h gw t, rv_store := s\<rparr> in
            if ls_writes_by_act ops then (Ok True, rv')
            else case save_hosts rv' of (Inl e, rv'') \<Rightarrow> (Err e, rv'') | (Inr _, rv'') \<Rightarrow> (Ok True, rv''))"

definition rv_hosts :: "nat \<Rightarrow> 's revocations \<Rightarrow> (string \<times> host \<times> nat) list" where
  "rv_hosts now rv =
     (let t = rv_state rv;
          names = fold bs_insert (List.map_filter (\<lambda>i. facts_host (iss_facts i)) (map snd (t_issued t)))
                    (bs_collect (map fst (t_hosts t))) in
      map (\<lambda>nm. (nm, case map_of (t_hosts t) nm of None \<Rightarrow> default_host | Some e \<Rightarrow> e, live_of now nm (t_issued t))) names)"

definition authority_of :: "string \<Rightarrow> 's revocations \<Rightarrow> authority option" where
  "authority_of issuer rv = find (\<lambda>a. auth_subject a = issuer) (rv_authorities rv)"

definition issued_entry :: "cert_id \<Rightarrow> 's revocations \<Rightarrow> issued option" where
  "issued_entry i rv = map_of (t_issued (rv_state rv)) i"

definition issued_list :: "'s revocations \<Rightarrow> issued list" where
  "issued_list rv = sort_key issued_ms (map snd (t_issued (rv_state rv)))"

definition placement :: "string \<Rightarrow> 's revocations \<Rightarrow> bool \<times> subject_values" where
  "placement h rv =
     (case map_of (t_hosts (rv_state rv)) h of None \<Rightarrow> (False, no_values) | Some e \<Rightarrow> (gateway e, host_subject e))"

definition is_gateway :: "string \<Rightarrow> 's revocations \<Rightarrow> bool" where
  "is_gateway h rv = is_gateway_host (rv_state rv) h"

section \<open>The list\<close>

text \<open>A stable id: the first eight bytes of a digest, with SHA-256 as the parameter \<open>digest\<close>.\<close>

definition entry_id :: "(string \<Rightarrow> string) \<Rightarrow> revoked \<Rightarrow> string" where
  "entry_id digest r =
     hex_encode (take 8 (digest (''certificate'' @ [newline] @ rv_authority r @ [newline] @ rv_serial r)))"

definition issuers_of :: "authority list \<Rightarrow> string \<Rightarrow> string list" where
  "issuers_of auths role = map auth_subject (filter (\<lambda>a. auth_role a = role) auths)"

text \<open>What memory does with the entry the store answered: nothing, when it holds it already.\<close>

fun hold_entry :: "revocation \<Rightarrow> revocation list \<Rightarrow> revocation list" where
  "hold_entry e [] = [e]"
| "hold_entry e (r # rs) = (if rev_id r = rev_id e then e # rs else r # hold_entry e rs)"

definition rv_add :: "nat \<Rightarrow> (string \<Rightarrow> string) \<Rightarrow> revoked \<Rightarrow> 's revocations \<Rightarrow> (revoke_error + revocation) \<times> 's revocations" where
  "rv_add now digest r rv =
     (let ops = rv_ops rv; t = acted (rv_state rv);
          entry = \<lparr>rev_id = entry_id digest r, rev_revoked = r, revoked_ms = now\<rparr> in
      case ls_add_revocation ops entry MAX_REVOCATIONS (rv_store rv) of
        (Inl _, s) \<Rightarrow> (Err RevokeStore, rv\<lparr>rv_state := t, rv_store := s\<rparr>)
      | (Inr ListFull, s) \<Rightarrow> (Err RevocationsFull, rv\<lparr>rv_state := t, rv_store := s\<rparr>)
      | (Inr a, s) \<Rightarrow>
          let (e, written) = (case a of Present existing \<Rightarrow> (existing, False) | Widened wider \<Rightarrow> (wider, True) | _ \<Rightarrow> (entry, True));
              t1 = (if written then took_up_own_write (ls_list_version ops s) t else t) in
          if find (\<lambda>held. rev_id held = rev_id e) (t_revocations t1) = Some e
          then (Ok e, rv\<lparr>rv_state := t1, rv_store := s\<rparr>)
          else (Ok e, rv\<lparr>rv_state := t1\<lparr>t_revocations := hold_entry e (t_revocations t1), t_revoked := None\<rparr>,
                         rv_store := s, rv_changes := rv_changes rv + 1\<rparr>))"

definition revoke_certificate ::
  "nat \<Rightarrow> (string \<Rightarrow> string) \<Rightarrow> string \<Rightarrow> string \<Rightarrow> 's revocations \<Rightarrow> (revoke_error + revocation) \<times> 's revocations" where
  "revoke_certificate now digest authority serial rv =
     (let issuers = issuers_of (rv_authorities rv) authority;
          text = normalize_serial serial in
      if issuers = [] then (Err NoAuthority, rv)
      else if str_trim serial = [] \<or> \<not> list_all is_ascii_hexdigit text then (Err NotHex, rv)
      else if length text > MAX_SERIAL_HEX then (Err SerialTooLong, rv)
      else rv_add now digest (RevokedCertificate authority issuers text) rv)"

definition lift :: "string \<Rightarrow> 's revocations \<Rightarrow> (unit + bool) \<times> 's revocations" where
  "lift i rv =
     (let ops = rv_ops rv; t = acted (rv_state rv) in
      case ls_remove_revocation ops i (rv_store rv) of
        (Inl e, s) \<Rightarrow> (Err e, rv\<lparr>rv_state := t, rv_store := s\<rparr>)
      | (Inr lifted, s) \<Rightarrow>
          let t1 = (if lifted then took_up_own_write (ls_list_version ops s) t else t);
              revs = filter (\<lambda>e. rev_id e \<noteq> i) (t_revocations t1);
              t2 = (if length revs \<noteq> length (t_revocations t1) then t1\<lparr>t_revocations := revs, t_revoked := None\<rparr> else t1) in
          (Ok lifted, rv\<lparr>rv_state := t2, rv_store := s\<rparr>))"

definition is_certificate_revoked :: "cert_id \<Rightarrow> 's revocations \<Rightarrow> bool \<times> 's revocations" where
  "is_certificate_revoked c rv =
     (let (revoked, t) = revoked_set (rv_state rv) in (c \<in> set revoked, rv\<lparr>rv_state := t\<rparr>))"

definition revoked_certificates_at :: "string \<Rightarrow> 's revocations \<Rightarrow> (cert_id bset \<times> nat option) \<times> 's revocations" where
  "revoked_certificates_at role rv =
     (let issuers = issuers_of (rv_authorities rv) role;
          version = t_list_version (rv_state rv);
          (revoked, t) = revoked_set (rv_state rv) in
      ((filter (\<lambda>i. fst i \<in> set issuers) revoked, version), rv\<lparr>rv_state := t\<rparr>))"

definition revoked_certificates :: "string \<Rightarrow> 's revocations \<Rightarrow> cert_id bset \<times> 's revocations" where
  "revoked_certificates role rv =
     (let ((revoked, _), rv') = revoked_certificates_at role rv in (revoked, rv'))"

section \<open>Reading a shared store again\<close>

definition read_ledger :: "'s ledger_store \<Rightarrow> 's \<Rightarrow> (unit + trust) \<times> 's" where
  "read_ledger ops s =
     (case ls_load ops s of
        (Inl e, s') \<Rightarrow> (Err e, s')
      | (Inr l, s') \<Rightarrow> (Ok (snd (revoked_set (loaded l))), s'))"

definition later :: "nat option \<Rightarrow> nat option \<Rightarrow> nat option" where
  "later a b = (case (a, b) of (None, _) \<Rightarrow> b | (_, None) \<Rightarrow> a | (Some x, Some y) \<Rightarrow> Some (max x y))"

definition swap_in :: "trust \<Rightarrow> 's revocations \<Rightarrow> 's revocations" where
  "swap_in newer rv =
     (let t = rv_state rv in
      rv\<lparr>rv_state := newer\<lparr>t_hosts_version := t_hosts_version t, t_acts := t_acts t,
                          t_list_version := later (t_list_version newer) (t_list_version t)\<rparr>,
         rv_changes := rv_changes rv + (if t_revocations t \<noteq> t_revocations newer then 1 else 0)\<rparr>)"

text \<open>
  Each attempt reads the store outside the lock: \<open>before\<close> is what happens between the moment the acts
  are counted and the read, \<open>after\<close> what happens between the read and the lock. When no attempt is
  left the store is read under the lock.
\<close>

fun reload_loop ::
  "(('s revocations \<Rightarrow> 's revocations) \<times> ('s revocations \<Rightarrow> 's revocations)) list \<Rightarrow> 's revocations
   \<Rightarrow> (unit + unit) \<times> 's revocations" where
  "reload_loop [] rv =
     (case read_ledger (rv_ops rv) (rv_store rv) of
        (Inl e, s) \<Rightarrow> (Err e, rv\<lparr>rv_store := s\<rparr>)
      | (Inr newer, s) \<Rightarrow> (Ok (), swap_in newer (rv\<lparr>rv_store := s\<rparr>)))"
| "reload_loop ((before, after) # tries) rv =
     (let began = t_acts (rv_state rv);
          rv1 = before rv in
      case read_ledger (rv_ops rv1) (rv_store rv1) of
        (Inl e, s) \<Rightarrow> (Err e, rv1\<lparr>rv_store := s\<rparr>)
      | (Inr newer, s) \<Rightarrow>
          let rv2 = after (rv1\<lparr>rv_store := s\<rparr>) in
          if t_acts (rv_state rv2) = began then (Ok (), swap_in newer rv2) else reload_loop tries rv2)"

definition reload_ledger ::
  "(nat \<Rightarrow> 's revocations \<Rightarrow> 's revocations) \<Rightarrow> (nat \<Rightarrow> 's revocations \<Rightarrow> 's revocations) \<Rightarrow> 's revocations
   \<Rightarrow> (unit + unit) \<times> 's revocations" where
  "reload_ledger before after rv = reload_loop (map (\<lambda>k. (before k, after k)) [0..<RELOAD_SWAPS_REFUSED]) rv"


section \<open>The set of revoked certificates is always the one the list reaches\<close>

text \<open>Every operation, over any store, keeps the state well formed.\<close>

lemma trust_ok_upd [simp]:
  "trust_ok (t\<lparr>t_hosts := a\<rparr>) = trust_ok t" "trust_ok (t\<lparr>t_owners := b\<rparr>) = trust_ok t"
  "trust_ok (t\<lparr>t_earliest_ms := c\<rparr>) = trust_ok t" "trust_ok (t\<lparr>t_hosts_version := d\<rparr>) = trust_ok t"
  "trust_ok (t\<lparr>t_list_version := e\<rparr>) = trust_ok t" "trust_ok (t\<lparr>t_acts := n\<rparr>) = trust_ok t"
  by (simp_all add: trust_ok_def cache_ok_def counts_ok_def below_root_def reached_def)

lemma trust_ok_acted [simp]: "trust_ok (acted t) = trust_ok t"
  by (simp add: acted_def)

lemma trust_ok_took_up [simp]: "trust_ok (took_up_own_write w t) = trust_ok t"
  by (simp add: took_up_own_write_def)

lemma trust_ok_hosts_changed: "hosts_changed t = (hv, t') \<Longrightarrow> trust_ok t' = trust_ok t"
  by (auto simp: hosts_changed_def Let_def)

lemma take_up_trust: "take_up t uid h b = (r, t') \<Longrightarrow> trust_ok t' = trust_ok t"
  by (auto simp: take_up_def split: bound.splits)

lemma prune_hosts_fields:
  assumes "prune_hosts now ops t s = (forgotten, t', s')"
  shows "t_issued t' = t_issued t" "t_revocations t' = t_revocations t" "t_roots t' = t_roots t"
    "t_descendants t' = t_descendants t" "t_revoked t' = t_revoked t" "t_acts t' = t_acts t"
    "\<not> ls_writes_by_act ops \<Longrightarrow> s' = s"
  using assms by (auto simp: prune_hosts_def hosts_changed_def Let_def split: prod.splits if_splits)

lemma remove_gone_trust: "remove_gone ops is t s = (r, t', s') \<Longrightarrow> trust_ok t \<Longrightarrow> trust_ok t'"
  by (induction "is" arbitrary: t s) (auto split: prod.splits sum.splits intro: trust_ok_remove)

lemma remove_dropped_trust: "remove_dropped ops is t s = (r, t', s') \<Longrightarrow> trust_ok t \<Longrightarrow> trust_ok t'"
proof (induction "is" arbitrary: t s)
  case (Cons i "is")
  show ?case
  proof (cases "ls_remove_revocation ops i s")
    case (Pair res s1)
    show ?thesis
    proof (cases res)
      case (Inl e)
      then show ?thesis using Cons.prems Pair by simp
    next
      case (Inr held)
      let ?t = "if held then took_up_own_write (ls_list_version ops s1) t else t"
      have "trust_ok (?t\<lparr>t_revocations := filter (\<lambda>e. rev_id e \<noteq> i) (t_revocations ?t), t_revoked := None\<rparr>)"
        using Cons.prems(2) by (intro trust_ok_list) simp
      then show ?thesis using Cons.IH Cons.prems(1) Pair Inr by (simp only: remove_dropped.simps Let_def prod.case sum.case)
    qed
  qed
qed simp

lemma prune_trust:
  assumes "prune now ops t s = (r, t', s')" and "trust_ok t"
  shows "trust_ok t'"
proof (cases "now < t_earliest_ms t")
  case True
  then show ?thesis using assms by (simp add: prune_def)
next
  case False
  obtain forgotten t1 s1 where hosts: "prune_hosts now ops t s = (forgotten, t1, s1)"
    by (cases "prune_hosts now ops t s")
  have t1: "trust_ok t1"
    using trust_ok_cong [OF prune_hosts_fields(1-4) [OF hosts]] prune_hosts_fields(5) [OF hosts] assms(2) by blast
  obtain res t2 s2 where gone: "remove_gone ops (gone_at now t) t1 s1 = (res, t2, s2)"
    by (cases "remove_gone ops (gone_at now t) t1 s1")
  have t2: "trust_ok t2" by (rule remove_gone_trust [OF gone t1])
  obtain res' t3 s3 where
    dropped: "remove_dropped ops (map rev_id (filter (drops (gone_at now t)) (t_revocations t2))) t2 s2 = (res', t3, s3)"
    by (cases "remove_dropped ops (map rev_id (filter (drops (gone_at now t)) (t_revocations t2))) t2 s2")
  have t3: "trust_ok t3" by (rule remove_dropped_trust [OF dropped t2])
  show ?thesis
    using assms(1) False t1 t2 t3
    by (auto simp: prune_def Let_def hosts gone dropped split: if_splits sum.splits)
qed

lemma admit_record_trust:
  "admit_record now ops f uid pre mint bootstrap t s = (r, t', s') \<Longrightarrow> trust_ok t \<Longrightarrow> trust_ok t'"
  by (auto simp: admit_record_def Let_def trust_ok_insert split: if_splits prod.splits sum.splits registered.splits)

lemma issuance_act_fields:
  assumes "issuance_act by_act recorded mint f t = (act, t')"
  shows "t_issued t' = t_issued t" "t_revocations t' = t_revocations t" "t_owners t' = t_owners t"
    "t_acts t' = t_acts t" "trust_ok t' = trust_ok t"
  using assms by (auto simp: issuance_act_def split: sum.splits option.splits prod.splits bool.splits)

lemma write_hosts_fields [simp]:
  "rv_state (snd (write_hosts hv rv)) = rv_state rv" "rv_ops (snd (write_hosts hv rv)) = rv_ops rv"
  "rv_authorities (snd (write_hosts hv rv)) = rv_authorities rv" "rv_changes (snd (write_hosts hv rv)) = rv_changes rv"
  by (auto simp: write_hosts_def split: prod.splits sum.splits)

lemma write_forgotten_fields [simp]:
  "rv_state (write_forgotten hv rv) = rv_state rv" "rv_ops (write_forgotten hv rv) = rv_ops rv"
  "rv_authorities (write_forgotten hv rv) = rv_authorities rv"
  by (auto simp: write_forgotten_def split: option.splits)

lemma save_hosts_fields [simp]:
  "rv_state (snd (save_hosts rv)) = (rv_state rv)\<lparr>t_hosts_version := t_hosts_version (rv_state rv) + 1\<rparr>"
  "rv_ops (snd (save_hosts rv)) = rv_ops rv" "rv_authorities (snd (save_hosts rv)) = rv_authorities rv"
  by (auto simp: save_hosts_def hosts_changed_def Let_def)

lemma stored_fields [simp]: "snd (stored r) = snd r"
  by (auto simp: stored_def split: prod.splits sum.splits)

lemma record_with_trust:
  assumes "record_with now f uid pre bootstrap rv = (r, rv')" and "trust_ok (rv_state rv)"
  shows "trust_ok (rv_state rv')"
proof -
  let ?ops = "rv_ops rv" and ?t0 = "acted (rv_state rv)"
  obtain refused t1 where asked: "(case bootstrap of None \<Rightarrow> (False, ?t0)
      | Some b \<Rightarrow> (let (revoked, t') = revoked_set ?t0 in (b \<in> set revoked, t'))) = (refused, t1)"
    by (cases "case bootstrap of None \<Rightarrow> (False, ?t0)
      | Some b \<Rightarrow> (let (revoked, t') = revoked_set ?t0 in (b \<in> set revoked, t'))")
  have t1: "trust_ok t1"
    using asked assms(2) trust_ok_revoked_set [of ?t0] by (auto split: option.splits prod.splits)
  obtain res t2 s where pruned: "prune now ?ops t1 (rv_store rv) = (res, t2, s)"
    by (cases "prune now ?ops t1 (rv_store rv)")
  have t2: "trust_ok t2" by (rule prune_trust [OF pruned t1])
  obtain rec t3 s' where admitted: "admit_record now ?ops f uid pre (minted now t2 f pre) bootstrap t2 s = (rec, t3, s')"
    by (cases "admit_record now ?ops f uid pre (minted now t2 f pre) bootstrap t2 s")
  have t3: "trust_ok t3" by (rule admit_record_trust [OF admitted t2])
  obtain act t4 where act: "issuance_act (ls_writes_by_act ?ops) rec (minted now t2 f pre) f t3 = (act, t4)"
    by (cases "issuance_act (ls_writes_by_act ?ops) rec (minted now t2 f pre) f t3")
  have t4: "trust_ok t4" using issuance_act_fields(5) [OF act] t3 by simp
  show ?thesis
    using assms(1) t1 t2 t4
    by (auto simp: record_with_def asked pruned admitted act Let_def hosts_changed_def split: if_splits sum.splits)
qed

lemma bind_uid_trust: "bind_uid ops uid h row t s = (r, t', s') \<Longrightarrow> trust_ok t' = trust_ok t"
  by (auto simp: bind_uid_def Let_def dest: take_up_trust split: prod.splits sum.splits)

lemma report_binds_trust:
  assumes "report_binds ops uid h row t s = (r, t', s')"
  shows "trust_ok t' = trust_ok t"
  using assms bind_uid_trust [of ops uid h row t s r t' s']
  by (cases "admits t h uid") (auto simp: report_binds_def split: if_splits)

lemma note_report_trust: "note_report binds uid h subj until t = (m, t') \<Longrightarrow> trust_ok t' = trust_ok t"
  by (auto simp: note_report_def Let_def split: option.splits prod.splits if_splits)

lemma write_seen_fields [simp]:
  "rv_state (snd (write_seen h rv)) = rv_state rv" "rv_ops (snd (write_seen h rv)) = rv_ops rv"
  "rv_authorities (snd (write_seen h rv)) = rv_authorities rv"
  by (auto simp: write_seen_def split: option.splits prod.splits sum.splits)

lemma check_report_trust:
  assumes "trust_ok (rv_state rv)"
  shows "trust_ok (rv_state (snd (check_report h subj until uid rv)))"
proof -
  let ?row = "default_host\<lparr>host_subject := subj, valid_until_ms := Some until\<rparr>"
  obtain r t s where binds: "report_binds (rv_ops rv) (hex_encode uid) h ?row (rv_state rv) (rv_store rv) = (r, t, s)"
    by (rule prod_cases3)
  have t: "trust_ok t" using report_binds_trust [OF binds] assms by simp
  show ?thesis
  proof (cases r)
    case (Inl e)
    then show ?thesis using t by (simp add: check_report_def binds)
  next
    case (Inr b)
    obtain m t' where noted: "note_report b (hex_encode uid) h subj until t = (m, t')"
      by (cases "note_report b (hex_encode uid) h subj until t")
    have "trust_ok t'" using note_report_trust [OF noted] t by simp
    then show ?thesis by (simp add: check_report_def binds Inr noted Let_def)
  qed
qed

lemma release_trust: "trust_ok (rv_state rv) \<Longrightarrow> trust_ok (rv_state (snd (release uid rv)))"
  by (simp add: release_def Let_def split: prod.split sum.split)

lemma rebind_taken_trust: "rebind_taken old new h b t = (r, t') \<Longrightarrow> trust_ok t' = trust_ok t"
  by (auto simp: rebind_taken_def dest: take_up_trust split: prod.splits sum.splits if_splits)

lemma rebind_trust:
  assumes "trust_ok (rv_state rv)"
  shows "trust_ok (rv_state (snd (rebind old new rv)))"
proof -
  have taken: "rebind_taken o' n h b t = (r, t') \<Longrightarrow> trust_ok t \<Longrightarrow> trust_ok t'" for o' n h b t r t'
    using rebind_taken_trust by simp
  show ?thesis
    using assms by (auto simp: rebind_def Let_def dest!: taken split: prod.split sum.split option.split)
qed

lemma mark_gateway_trust [simp]: "trust_ok (mark_gateway h gw t) = trust_ok t"
  by (simp add: mark_gateway_def Let_def)

lemma set_gateway_trust:
  assumes "trust_ok (rv_state rv)"
  shows "trust_ok (rv_state (snd (set_gateway h gw rv)))"
proof -
  have saved: "save_hosts rv' = (r, rv'') \<Longrightarrow> trust_ok (rv_state rv') \<Longrightarrow> trust_ok (rv_state rv'')" for rv' rv'' :: "'a revocations" and r
    using save_hosts_fields(1) [of rv'] by simp
  show ?thesis
    using assms by (auto simp: set_gateway_def Let_def dest!: saved split: prod.split sum.split)
qed


lemma rv_add_trust:
  assumes "trust_ok (rv_state rv)"
  shows "trust_ok (rv_state (snd (rv_add now digest r rv)))"
  using assms by (auto simp: rv_add_def Let_def trust_ok_list split: prod.split sum.split added.split)

lemma revoke_certificate_trust:
  "trust_ok (rv_state rv) \<Longrightarrow> trust_ok (rv_state (snd (revoke_certificate now digest a serial rv)))"
  by (simp add: revoke_certificate_def Let_def rv_add_trust)

lemma lift_trust: "trust_ok (rv_state rv) \<Longrightarrow> trust_ok (rv_state (snd (lift i rv)))"
  by (auto simp: lift_def Let_def trust_ok_list split: prod.split sum.split)

lemma is_certificate_revoked_trust:
  "trust_ok (rv_state rv) \<Longrightarrow> trust_ok (rv_state (snd (is_certificate_revoked c rv)))"
  using trust_ok_revoked_set [of "rv_state rv"] by (simp add: is_certificate_revoked_def split_beta)

lemma revoked_certificates_trust:
  "trust_ok (rv_state rv) \<Longrightarrow> trust_ok (rv_state (snd (revoked_certificates role rv)))"
  using trust_ok_revoked_set [of "rv_state rv"]
  by (simp add: revoked_certificates_def revoked_certificates_at_def Let_def split_beta)

lemma rv_open_trust: "fst (rv_open now ops auths s) = Ok rv \<Longrightarrow> trust_ok (rv_state rv)"
  by (auto simp: rv_open_def Let_def dest: prune_trust [OF _ trust_ok_loaded] split: prod.splits sum.splits)

section \<open>Sequences of acts\<close>

datatype rv_act =
    Record nat facts string "cert_id option"
  | RecordApproved nat facts string cert_id
  | Report string subject_values nat string
  | Release string
  | Rebind string string
  | SetGateway string bool
  | Revoke nat string string
  | Lift string
  | Ask cert_id
  | AskRole string

fun rv_step :: "(string \<Rightarrow> string) \<Rightarrow> rv_act \<Rightarrow> 's revocations \<Rightarrow> 's revocations" where
  "rv_step digest (Record now f uid pre) rv = snd (record_cert now f uid pre rv)"
| "rv_step digest (RecordApproved now f uid b) rv = snd (record_approved now f uid b rv)"
| "rv_step digest (Report h subj until uid) rv = snd (check_report h subj until uid rv)"
| "rv_step digest (Release uid) rv = snd (release uid rv)"
| "rv_step digest (Rebind old new) rv = snd (rebind old new rv)"
| "rv_step digest (SetGateway h gw) rv = snd (set_gateway h gw rv)"
| "rv_step digest (Revoke now a serial) rv = snd (revoke_certificate now digest a serial rv)"
| "rv_step digest (Lift i) rv = snd (lift i rv)"
| "rv_step digest (Ask c) rv = snd (is_certificate_revoked c rv)"
| "rv_step digest (AskRole role) rv = snd (revoked_certificates role rv)"

lemma rv_step_trust: "trust_ok (rv_state rv) \<Longrightarrow> trust_ok (rv_state (rv_step digest a rv))"
  by (cases a)
    (simp_all add: record_cert_def record_approved_def record_with_trust [OF surjective_pairing] check_report_trust
      release_trust rebind_trust set_gateway_trust revoke_certificate_trust lift_trust is_certificate_revoked_trust
      revoked_certificates_trust)

interpretation trust_run: machine "\<lambda>rv. \<exists>now ops auths s. fst (rv_open now ops auths s) = Ok rv"
    "rv_step digest" "\<lambda>rv. trust_ok (rv_state rv)"
  by unfold_locales (auto intro: rv_open_trust rv_step_trust)

text \<open>C1: However a Server came to its state - whatever ledger it loaded, damaged or not, over whatever
  store, and after any acts - a certificate is answered as revoked exactly when the list names it or
  one it descends from by the register's links, and a Gateway's list holds exactly those of them its
  role's CAs issued. The set a Server keeps between the acts, and the walks that stop at what is known
  or at the bound, never change an answer.\<close>

theorem revoked_exactly_descendants:
  assumes "fst (rv_open now ops auths s) = Ok rv0"
  shows "let rv = fold (rv_step digest) as rv0; t = rv_state rv;
      renewed = {(a, p). \<exists>i. map_of (t_issued t) a = Some i \<and> predecessor i = Some p};
      listed = {(issuer, serial). \<exists>e \<in> set (t_revocations t). issuer \<in> set (rv_issuers (rev_revoked e)) \<and> serial = rv_serial (rev_revoked e)} in
    (fst (is_certificate_revoked c rv) \<longleftrightarrow> (\<exists>y \<in> listed. (c, y) \<in> renewed\<^sup>*))
    \<and> (c \<in> set (fst (revoked_certificates role rv)) \<longleftrightarrow>
         fst c \<in> set (issuers_of (rv_authorities rv) role) \<and> (\<exists>y \<in> listed. (c, y) \<in> renewed\<^sup>*))"
proof -
  let ?rv = "fold (rv_step digest) as rv0"
  let ?t = "rv_state ?rv"
  have "trust_ok ?t" using assms by (intro trust_run.reach_inv) blast
  then have set: "set (fst (revoked_set ?t)) = reached ?t"
    by (simp add: trust_ok_def set_revoked_set)
  have links: "{(a, p). \<exists>i. map_of (t_issued ?t) a = Some i \<and> predecessor i = Some p} = above (pred_of (t_issued ?t))"
    by (auto simp: above_def pred_of_def split: option.splits)
  have listed: "{(issuer, serial). \<exists>e \<in> set (t_revocations ?t). issuer \<in> set (rv_issuers (rev_revoked e)) \<and> serial = rv_serial (rev_revoked e)}
      = set (named_in (t_revocations ?t))"
    by (auto simp: named_in_def entry_names_def)
  show ?thesis
    unfolding Let_def links listed
    by (auto simp: is_certificate_revoked_def revoked_certificates_def revoked_certificates_at_def split_beta Let_def
        set reached_def tainted_def)
qed

section \<open>What a prune keeps\<close>

lemma needed_walk_none: "needed_walk n m None needed = needed"
  by (cases n) simp_all

lemma needed_walk_spec:
  assumes "card (dom (map_of m) - set needed) < n"
    and "\<forall>z \<in> set needed. \<forall>p. pred_of m z = Some p \<longrightarrow> p \<in> set needed \<or> current = Some p"
  shows "set needed \<subseteq> set (needed_walk n m current needed)
    \<and> (\<forall>x. current = Some x \<longrightarrow> x \<in> set (needed_walk n m current needed))
    \<and> (\<forall>z p. z \<in> set (needed_walk n m current needed) \<longrightarrow> pred_of m z = Some p \<longrightarrow> p \<in> set (needed_walk n m current needed))
    \<and> (\<forall>z \<in> set (needed_walk n m current needed). z \<in> set needed \<or> (\<exists>x. current = Some x \<and> (x, z) \<in> (above (pred_of m))\<^sup>*))"
  using assms
proof (induction n arbitrary: current needed)
  case 0
  then show ?case by simp
next
  case (Suc n)
  show ?case
  proof (cases "\<exists>x. current = Some x \<and> x \<notin> set needed")
    case False
    then have "needed_walk (Suc n) m current needed = needed" by (cases current) auto
    then show ?thesis using False Suc.prems(2) by (simp only:) blast
  next
    case True
    then obtain x where x: "current = Some x" "x \<notin> set needed" by blast
    let ?needed = "bs_insert x needed"
    have walk: "needed_walk (Suc n) m current needed = needed_walk n m (pred_of m x) ?needed"
      using x by simp
    show ?thesis
    proof (cases "pred_of m x")
      case None
      then have "needed_walk (Suc n) m current needed = ?needed" using walk by (simp add: needed_walk_none)
      then show ?thesis using x None Suc.prems(2) by (simp only: set_bs_insert) (metis insert_iff option.distinct(1) option.inject rtrancl.rtrancl_refl subset_insertI)
    next
      case (Some p)
      then have "x \<in> dom (map_of m)" using dom_pred_of by blast
      then have "dom (map_of m) - set ?needed \<subset> dom (map_of m) - set needed" using x(2) by auto
      then have "card (dom (map_of m) - set ?needed) < card (dom (map_of m) - set needed)"
        by (rule psubset_card_mono [OF finite_Diff [OF finite_dom_map_of]])
      then have card: "card (dom (map_of m) - set ?needed) < n"
        using Suc.prems(1) by linarith
      have half: "\<forall>z \<in> set ?needed. \<forall>q. pred_of m z = Some q \<longrightarrow> q \<in> set ?needed \<or> pred_of m x = Some q"
        using Suc.prems(2) x(1) by (simp only: set_bs_insert) blast
      note ih = Suc.IH [OF card half]
      let ?R = "set (needed_walk n m (pred_of m x) ?needed)"
      have sub: "set ?needed \<subseteq> ?R" by (rule conjunct1 [OF ih])
      have closed: "\<forall>z p. z \<in> ?R \<longrightarrow> pred_of m z = Some p \<longrightarrow> p \<in> ?R"
        by (rule conjunct1 [OF conjunct2 [OF conjunct2 [OF ih]]])
      have "z \<in> set needed \<or> (x, z) \<in> (above (pred_of m))\<^sup>*" if "z \<in> ?R" for z
        using bspec [OF conjunct2 [OF conjunct2 [OF conjunct2 [OF ih]]] that] Some above_next [of "pred_of m" x p z] by auto
      then show ?thesis using sub closed x(1) unfolding walk by simp
    qed
  qed
qed

text \<open>What a prune needs is every valid entry and all it descends from.\<close>

lemma needed_at_spec:
  assumes "register_ok m"
  shows "set (needed_at now m)
    = {z. \<exists>a i. map_of m a = Some i \<and> now < not_after_ms (iss_facts i) \<and> (a, z) \<in> (above (pred_of m))\<^sup>*}"
proof -
  let ?f = "\<lambda>i needed. if not_after_ms (iss_facts i) \<le> now then needed
      else needed_walk (Suc (length m)) m (Some (iss_id i)) needed"
  define live where "live is = {z. \<exists>i \<in> set is. now < not_after_ms (iss_facts i) \<and> (iss_id i, z) \<in> (above (pred_of m))\<^sup>*}" for "is"
  define closed where "closed N \<longleftrightarrow> (\<forall>z p. z \<in> set N \<longrightarrow> pred_of m z = Some p \<longrightarrow> p \<in> set N)" for N
  have card: "card (dom (map_of m) - S) < Suc (length m)" for S
    using card_mono [OF finite_dom_map_of Diff_subset, of m S] card_dom_map_of [of m] by linarith
  have walk: "set (?f i N) = set N \<union> live [i] \<and> closed (?f i N)" if closed: "closed N" for i N
  proof (cases "not_after_ms (iss_facts i) \<le> now")
    case True
    then show ?thesis using closed by (auto simp: live_def)
  next
    case False
    let ?R = "set (needed_walk (Suc (length m)) m (Some (iss_id i)) N)"
    have spec: "set N \<subseteq> ?R" "iss_id i \<in> ?R" "\<And>z p. z \<in> ?R \<Longrightarrow> pred_of m z = Some p \<Longrightarrow> p \<in> ?R"
      "\<And>z. z \<in> ?R \<Longrightarrow> z \<in> set N \<or> (iss_id i, z) \<in> (above (pred_of m))\<^sup>*"
      using needed_walk_spec [of m N "Suc (length m)" "Some (iss_id i)", OF card] closed unfolding closed_def by blast+
    have "z \<in> ?R" if "(iss_id i, z) \<in> (above (pred_of m))\<^sup>*" for z
      using that
    proof (induction rule: rtrancl_induct)
      case base
      show ?case by (rule spec(2))
    next
      case (step y z)
      then have "pred_of m y = Some z" by simp
      then show ?case by (rule spec(3) [OF step.IH])
    qed
    moreover have "live [i] = {z. (iss_id i, z) \<in> (above (pred_of m))\<^sup>*}" using False by (simp add: live_def not_le)
    ultimately have "?R = set N \<union> live [i]" using spec(1,4) by blast
    moreover have "closed (needed_walk (Suc (length m)) m (Some (iss_id i)) N)"
      unfolding closed_def using spec(3) by blast
    ultimately show ?thesis using False by (simp del: needed_walk.simps)
  qed
  have "set (fold ?f is N) = set N \<union> live is" if "closed N" for "is" N
    using that
  proof (induction "is" arbitrary: N)
    case Nil
    then show ?case by (simp add: live_def)
  next
    case (Cons i "is")
    note step = walk [of N i, OF Cons.prems]
    have "set (fold ?f is (?f i N)) = set (?f i N) \<union> live is"
      by (rule Cons.IH) (rule conjunct2 [OF step])
    moreover have "live (i # is) = live [i] \<union> live is" by (auto simp: live_def)
    ultimately show ?case using conjunct1 [OF step] by (simp only: fold_simps Un_assoc)
  qed
  from this [of "[]" "map snd m"] have "set (needed_at now m) = live (map snd m)"
    unfolding needed_at_def by (simp add: closed_def del: needed_walk.simps)
  also have "\<dots> = {z. \<exists>a i. map_of m a = Some i \<and> now < not_after_ms (iss_facts i) \<and> (a, z) \<in> (above (pred_of m))\<^sup>*}"
  proof -
    have members: "i \<in> set (map snd m) \<longleftrightarrow> (\<exists>a. map_of m a = Some i)" for i
      using assms bt_wf_map_of_iff [of m _ i] by (simp add: register_ok_def image_iff Bex_def split_paired_Ex)
    have "(\<exists>a. map_of m a = Some i) \<and> (iss_id i, z) \<in> R \<longleftrightarrow> (\<exists>a. map_of m a = Some i \<and> (a, z) \<in> R)" for i z and R :: "cert_id rel"
      using register_ok_lookup [OF assms, of _ i] by auto
    then show ?thesis unfolding live_def members Bex_def by (intro Collect_cong) metis
  qed
  finally show ?thesis .
qed

lemma set_gone_at:
  assumes "register_ok (t_issued t)"
  shows "set (gone_at now t) = {z \<in> dom (map_of (t_issued t)).
     \<forall>a i. map_of (t_issued t) a = Some i \<and> (a, z) \<in> (above (pred_of (t_issued t)))\<^sup>* \<longrightarrow> not_after_ms (iss_facts i) \<le> now}"
proof -
  have "z \<notin> set (needed_at now (t_issued t)) \<longleftrightarrow>
      (\<forall>a i. map_of (t_issued t) a = Some i \<and> (a, z) \<in> (above (pred_of (t_issued t)))\<^sup>* \<longrightarrow> not_after_ms (iss_facts i) \<le> now)" for z
    unfolding needed_at_spec [OF assms] by (simp only: mem_Collect_eq not_ex de_Morgan_conj not_less) blast
  then show ?thesis by (simp add: gone_at_def dom_map_of_conv_image_fst)
qed

section \<open>A small ledger\<close>

definition sample_issued :: "string \<Rightarrow> cert_id option \<Rightarrow> issued" where
  "sample_issued serial pre =
     \<lparr>iss_facts = \<lparr>facts_id = (''ca'', serial), issuer_name = ''CN=ca'', facts_subject = ''CN=edge'', key_fingerprint = ''k'',
        not_after_ms = 100, facts_host = Some ''h'', facts_values = no_values\<rparr>,
      iss_uid = ''00'', predecessor = pre, issued_ms = 1\<rparr>"

definition sample_revocation :: revocation where
  "sample_revocation = \<lparr>rev_id = ''x'', rev_revoked = RevokedCertificate ''client'' [''ca''] ''1'', revoked_ms = 2\<rparr>"

definition sample_disk :: "ledger_dir disk" where
  "sample_disk =
     \<lparr>disk_content =
        \<lparr>d_certificates = [(''ca-1'', Some (sample_issued ''1'' None)), (''ca-2'', Some (sample_issued ''2'' (Some (''ca'', ''1''))))],
         d_list = ListEntries [CredentialEntry, CertificateEntry sample_revocation], d_hosts = []\<rparr>,
      disk_outcomes = []\<rparr>"

definition sample_rv :: "fs_ledger revocations" where
  "sample_rv = projr (fst (rv_open 10 fs_ledger_store [] (fl_open sample_disk)))"

lemmas fs_eval_simps = rv_open_def fs_ledger_store_def fl_load_def fl_open_def read_revocations_def certificate_revocations_def
  write_revocations_def fl_replace_def replace_doc_def next_io_def cert_file_stem_def links_of_def bt_collect_def
  prune_def loaded_def take_up_register_def write_forgotten_def u64_max_def owners_of_def Let_def

lemma sample_loads: "fl_load (fl_open sample_disk) =
   (Ok \<lparr>l_issued = [sample_issued ''1'' None, sample_issued ''2'' (Some (''ca'', ''1''))], l_revocations = [sample_revocation],
      l_hosts = [], l_version = None\<rparr>,
    snd (fl_load (fl_open sample_disk)))"
  by (simp add: fs_eval_simps sample_disk_def sample_issued_def)

lemma sample_opens: "fst (rv_open 10 fs_ledger_store [] (fl_open sample_disk)) = Ok sample_rv"
proof -
  have "\<not> isl (fst (rv_open 10 fs_ledger_store [] (fl_open sample_disk)))"
    by (subst rv_open_def, subst fs_ledger_store_def, simp, subst sample_loads)
      (simp add: prune_def loaded_def take_up_register_def write_forgotten_def u64_max_def Let_def sample_issued_def)
  then show ?thesis by (simp add: sample_rv_def)
qed

lemma sample_state:
  "t_issued (rv_state sample_rv) = [((''ca'', ''1''), sample_issued ''1'' None), ((''ca'', ''2''), sample_issued ''2'' (Some (''ca'', ''1'')))]"
  "t_revocations (rv_state sample_rv) = [sample_revocation]"
proof -
  obtain s where load: "fl_load (fl_open sample_disk) =
     (Ok \<lparr>l_issued = [sample_issued ''1'' None, sample_issued ''2'' (Some (''ca'', ''1''))], l_revocations = [sample_revocation],
      l_hosts = [], l_version = None\<rparr>, s)"
    using sample_loads by blast
  have "rv_state sample_rv = loaded \<lparr>l_issued = [sample_issued ''1'' None, sample_issued ''2'' (Some (''ca'', ''1''))],
      l_revocations = [sample_revocation], l_hosts = [], l_version = None\<rparr>"
    by (simp add: sample_rv_def rv_open_def fs_ledger_store_def load prune_def write_forgotten_def Let_def)
      (simp add: loaded_def take_up_register_def u64_max_def sample_issued_def Let_def)
  then show "t_issued (rv_state sample_rv) = [((''ca'', ''1''), sample_issued ''1'' None), ((''ca'', ''2''), sample_issued ''2'' (Some (''ca'', ''1'')))]"
    "t_revocations (rv_state sample_rv) = [sample_revocation]"
    by (simp_all add: loaded_def take_up_register_def bt_collect_def Let_def sample_issued_def)
qed

theorem revoked_exactly_descendants_witness:
  "fst (rv_open 10 fs_ledger_store [] (fl_open sample_disk)) = Ok sample_rv
   \<and> fst (is_certificate_revoked (''ca'', ''2'') sample_rv) \<and> \<not> fst (is_certificate_revoked (''ca'', ''3'') sample_rv)"
proof -
  let ?renewed = "{(a, p). \<exists>i. map_of (t_issued (rv_state sample_rv)) a = Some i \<and> predecessor i = Some p}"
  have "((''ca'', ''2''), (''ca'', ''1'')) \<in> ?renewed" by (simp add: sample_state sample_issued_def)
  then have "((''ca'', ''2''), (''ca'', ''1'')) \<in> ?renewed\<^sup>*" by (rule r_into_rtrancl)
  moreover have "((''ca'', ''3''), y) \<in> ?renewed\<^sup>* \<longleftrightarrow> y = (''ca'', ''3'')" for y
    by (auto simp: sample_state elim: converse_rtranclE)
  ultimately show ?thesis
    using revoked_exactly_descendants [OF sample_opens, of "\<lambda>x. x" "[]" "(''ca'', ''2'')" "''client''"]
      revoked_exactly_descendants [OF sample_opens, of "\<lambda>x. x" "[]" "(''ca'', ''3'')" "''client''"] sample_opens
    by (auto simp: Let_def sample_state(2) sample_revocation_def)
qed

end
