(* ===== verification/Revocation_Held.thy ===== *)
theory Revocation_Held
  imports Revocation
begin

text \<open>
  What the acts on the ledger keep, over the filesystem adapter: the files agree with the memory, and
  a watched part of the register and a watched entry of the list stay, whichever write fails, while a
  certificate still valid needs them and nobody lifts the entry. Theory Revocation_Lasting runs a
  Server through acts and restarts on these lemmas.
\<close>

declare split_paired_All [simp del] split_paired_Ex [simp del]

section \<open>Acts that touch neither the register nor the list\<close>

definition quiet :: "fs_ledger revocations \<Rightarrow> fs_ledger revocations \<Rightarrow> bool" where
  "quiet rv rv' \<longleftrightarrow> rv_ops rv' = rv_ops rv \<and> t_issued (rv_state rv') = t_issued (rv_state rv)
     \<and> t_revocations (rv_state rv') = t_revocations (rv_state rv)
     \<and> d_certificates (dir (rv_store rv')) = d_certificates (dir (rv_store rv))
     \<and> file_list (dir (rv_store rv')) = file_list (dir (rv_store rv))"

lemma quiet_refl: "quiet rv rv"
  by (simp add: quiet_def)

lemma quiet_trans: "quiet a b \<Longrightarrow> quiet b c \<Longrightarrow> quiet a c"
  by (simp add: quiet_def)

lemma quiet_state:
  "t_issued t = t_issued (rv_state rv) \<Longrightarrow> t_revocations t = t_revocations (rv_state rv) \<Longrightarrow>
   quiet rv (rv\<lparr>rv_state := t\<rparr>)" "quiet rv (rv\<lparr>rv_hosts_written := n\<rparr>)"
  by (simp_all add: quiet_def)

lemma write_hosts_quiet:
  assumes "rv_ops rv = fs_ledger_store"
  shows "quiet rv (snd (write_hosts hv rv))"
proof -
  obtain r s where s: "fl_save_hosts (snd hv) (rv_store rv) = (r, s)" by (cases "fl_save_hosts (snd hv) (rv_store rv)")
  show ?thesis
    using fl_save_hosts_keeps [OF s] s assms
    by (auto simp: write_hosts_def quiet_def split: sum.splits)
qed

lemma write_forgotten_quiet: "rv_ops rv = fs_ledger_store \<Longrightarrow> quiet rv (write_forgotten hv rv)"
  by (auto simp: write_forgotten_def quiet_refl write_hosts_quiet split: option.splits)

lemma save_hosts_quiet:
  assumes "rv_ops rv = fs_ledger_store"
  shows "quiet rv (snd (save_hosts rv))"
proof -
  let ?rv = "rv\<lparr>rv_state := snd (hosts_changed (rv_state rv))\<rparr>"
  have "quiet rv ?rv" by (simp add: quiet_def hosts_changed_def Let_def)
  moreover have "quiet ?rv (snd (write_hosts (fst (hosts_changed (rv_state rv))) ?rv))"
    using assms by (intro write_hosts_quiet) simp
  ultimately show ?thesis unfolding save_hosts_def split_beta Let_def by (rule quiet_trans)
qed

lemma take_up_fields:
  assumes "take_up t uid h b = (r, t')"
  shows "t_issued t' = t_issued t" "t_revocations t' = t_revocations t" "t_earliest_ms t' = t_earliest_ms t"
  using assms by (auto simp: take_up_def split: bound.splits)

lemma report_binds_quiet:
  assumes "report_binds fs_ledger_store uid h row t s = (r, t', s')"
  shows "s' = s" "t_issued t' = t_issued t" "t_revocations t' = t_revocations t"
proof -
  have "s' = s \<and> t_issued t' = t_issued t \<and> t_revocations t' = t_revocations t"
  proof (cases "admits t h uid")
    case (Inl e)
    then show ?thesis using assms by (simp add: report_binds_def)
  next
    case (Inr b)
    obtain v where bnd: "fl_bind uid h s = (Ok v, s)" by (simp add: fl_bind_def)
    obtain r1 t1 where v: "take_up (acted t) uid h v = (r1, t1)" by (cases "take_up (acted t) uid h v")
    show ?thesis
      using assms Inr bnd take_up_fields [OF v] v
      by (auto simp: report_binds_def bind_uid_def acted_def split: if_splits)
  qed
  then show "s' = s" "t_issued t' = t_issued t" "t_revocations t' = t_revocations t" by auto
qed

lemma note_report_fields:
  assumes "note_report b uid h subj until t = (m, t')"
  shows "t_issued t' = t_issued t" "t_revocations t' = t_revocations t"
  using assms by (auto simp: note_report_def acted_def Let_def split: option.splits prod.splits if_splits)

lemma check_report_quiet:
  assumes "rv_ops rv = fs_ledger_store"
  shows "quiet rv (snd (check_report h subj until uid rv))"
proof -
  let ?row = "default_host\<lparr>host_subject := subj, valid_until_ms := Some until\<rparr>"
  obtain r t s where binds: "report_binds (rv_ops rv) (hex_encode uid) h ?row (rv_state rv) (rv_store rv) = (r, t, s)"
    by (rule prod_cases3)
  note b = report_binds_quiet [OF binds [unfolded assms]]
  show ?thesis
  proof (cases r)
    case (Inl e)
    then show ?thesis using b by (simp add: check_report_def binds quiet_def)
  next
    case (Inr bnd)
    obtain m t' where noted: "note_report bnd (hex_encode uid) h subj until t = (m, t')"
      by (cases "note_report bnd (hex_encode uid) h subj until t")
    let ?rv = "rv\<lparr>rv_state := t', rv_store := s\<rparr>"
    have q: "quiet rv ?rv" using b note_report_fields [OF noted] by (simp add: quiet_def)
    then show ?thesis
      using quiet_trans [OF q save_hosts_quiet] assms
      by (simp add: check_report_def binds [unfolded assms] Inr noted Let_def)
  qed
qed

lemma release_quiet:
  assumes "rv_ops rv = fs_ledger_store"
  shows "quiet rv (snd (release uid rv))"
proof -
  obtain u where u: "fl_unbind (hex_encode uid) (rv_store rv) = (Ok u, rv_store rv)" by (simp add: fl_unbind_def)
  define rv' where "rv' = snd (release uid rv)"
  have ops: "ls_unbind (rv_ops rv) = fl_unbind" "\<not> ls_writes_by_act (rv_ops rv)"
    using assms by simp_all
  obtain t where rv': "rv' = snd (save_hosts (rv\<lparr>rv_state := t, rv_store := rv_store rv\<rparr>))"
    and t: "t_issued t = t_issued (rv_state rv)" "t_revocations t = t_revocations (rv_state rv)"
    using u ops unfolding rv'_def release_def Let_def by (auto simp: acted_def)
  have "quiet rv (rv\<lparr>rv_state := t, rv_store := rv_store rv\<rparr>)" using t by (simp add: quiet_def)
  then have "quiet rv rv'" unfolding rv' using assms by (intro quiet_trans [OF _ save_hosts_quiet]) simp_all
  then show ?thesis by (simp add: rv'_def)
qed

lemma rebind_taken_fields:
  assumes "rebind_taken old new h b t = (r, t')"
  shows "t_issued t' = t_issued t" "t_revocations t' = t_revocations t"
proof -
  let ?t = "t\<lparr>t_hosts := without_uid old h (t_hosts t)\<rparr>"
  obtain v t1 where v: "take_up ?t new h b = (v, t1)" by (cases "take_up ?t new h b")
  show "t_issued t' = t_issued t" "t_revocations t' = t_revocations t"
    using assms v take_up_fields(1,2) [OF v] by (auto simp: rebind_taken_def split: sum.splits if_splits)
qed

lemma rebind_in_store_quiet: "rebind_in_store fs_ledger_store old new held s = (r, s') \<Longrightarrow> s' = s"
  by (auto simp: rebind_in_store_def default_rebind_def fl_unbind_def fl_bind_def
      split: option.splits)

lemma rebind_quiet:
  assumes "rv_ops rv = fs_ledger_store"
  shows "quiet rv (snd (rebind old new rv))"
proof -
  let ?t = "acted (rv_state rv)" and ?old = "hex_encode old" and ?new = "hex_encode new"
  let ?held = "map_of (t_owners ?t) ?old"
  let ?t1 = "?t\<lparr>t_owners := bt_remove ?old (t_owners ?t),
                 t_hosts := (case ?held of None \<Rightarrow> t_hosts ?t | Some h \<Rightarrow> without_uid ?old h (t_hosts ?t))\<rparr>"
  obtain r s where r: "rebind_in_store (rv_ops rv) ?old ?new ?held (rv_store rv) = (r, s)"
    by (cases "rebind_in_store (rv_ops rv) ?old ?new ?held (rv_store rv)")
  have s: "s = rv_store rv" by (rule rebind_in_store_quiet [OF r [unfolded assms]])
  have t1: "t_issued ?t1 = t_issued (rv_state rv)" "t_revocations ?t1 = t_revocations (rv_state rv)"
    by (simp_all add: acted_def)
  show ?thesis
  proof (cases r)
    case (Inl e)
    then show ?thesis using t1 s by (simp add: rebind_def Let_def r quiet_def)
  next
    case (Inr moved)
    show ?thesis
    proof (cases moved)
      case None
      then show ?thesis using t1 s Inr by (simp add: rebind_def Let_def r quiet_def)
    next
      case (Some hb)
      obtain h b where hb: "hb = (h, b)" by (cases hb)
      obtain v t2 where v: "rebind_taken ?old ?new h b ?t1 = (v, t2)" by (cases "rebind_taken ?old ?new h b ?t1")
      let ?rv = "rv\<lparr>rv_state := t2, rv_store := s\<rparr>"
      have q: "quiet rv ?rv" using t1 s rebind_taken_fields [OF v] by (simp add: quiet_def)
      show ?thesis
        using q quiet_trans [OF q save_hosts_quiet] assms
        by (cases v) (simp_all add: rebind_def Let_def r [unfolded assms] Inr Some hb v)
    qed
  qed
qed

lemma mark_gateway_fields [simp]:
  "t_issued (mark_gateway h gw t) = t_issued t" "t_revocations (mark_gateway h gw t) = t_revocations t"
  by (simp_all add: mark_gateway_def Let_def)

lemma set_gateway_quiet:
  assumes "rv_ops rv = fs_ledger_store"
  shows "quiet rv (snd (set_gateway h gw rv))"
proof -
  let ?rv = "rv\<lparr>rv_state := mark_gateway h gw (acted (rv_state rv)), rv_store := rv_store rv\<rparr>"
  have q: "quiet rv ?rv" by (simp add: quiet_def acted_def)
  have "snd (set_gateway h gw rv) = rv \<or> snd (set_gateway h gw rv) = snd (save_hosts ?rv)"
    using assms by (auto simp: set_gateway_def Let_def split: prod.split sum.split)
  then show ?thesis using quiet_refl quiet_trans [OF q save_hosts_quiet] assms by auto
qed

lemma is_certificate_revoked_quiet: "quiet rv (snd (is_certificate_revoked c rv))"
  by (simp add: is_certificate_revoked_def split_beta quiet_def revoked_set_keeps)

lemma revoked_certificates_quiet: "quiet rv (snd (revoked_certificates role rv))"
  by (simp add: revoked_certificates_def revoked_certificates_at_def Let_def split_beta quiet_def revoked_set_keeps)


section \<open>What memory and the files hold together\<close>

text \<open>
  The issuers' name hashes differ in the sixteen characters a file name keeps of them, so a file name
  names one certificate.
\<close>

definition issuers_apart :: "string set \<Rightarrow> bool" where
  "issuers_apart I \<longleftrightarrow> inj_on (take 16) I \<and> (\<forall>x \<in> I. 16 \<le> length x)"

lemma stem_inject:
  assumes "issuers_apart I" and "fst a \<in> I" and "fst b \<in> I" and "cert_file_stem a = cert_file_stem b"
  shows "a = b"
proof -
  have "length (take 16 (fst a)) = length (take 16 (fst b))"
    using assms(1-3) by (simp add: issuers_apart_def)
  then have "take 16 (fst a) = take 16 (fst b) \<and> ''-'' @ snd a = ''-'' @ snd b"
    using assms(4) append_eq_append_conv [of "take 16 (fst a)" "take 16 (fst b)" "''-'' @ snd a" "''-'' @ snd b"]
    unfolding cert_file_stem_def by linarith
  then show ?thesis
    using assms(1-3) by (auto simp: issuers_apart_def prod_eq_iff dest: inj_onD)
qed

text \<open>
  \<open>chain\<close> are the register entries that must stay, and \<open>watched\<close> is the id of an entry of the list and
  a certificate it names. The files hold entries of the issuers \<open>I\<close> with ids of \<open>U\<close>; memory holds no
  entry the files do not.
\<close>

definition holds_entry :: "string \<Rightarrow> cert_id \<Rightarrow> revocation list \<Rightarrow> bool" where
  "holds_entry k y revs \<longleftrightarrow> (\<exists>e \<in> set revs. rev_id e = k) \<and> (\<forall>e \<in> set revs. rev_id e = k \<longrightarrow> y \<in> set (entry_names e))"

definition list_ok :: "(string \<times> cert_id) option \<Rightarrow> revocation list option \<Rightarrow> bool" where
  "list_ok watched l \<longleftrightarrow> (\<forall>revs. l = Some revs \<longrightarrow> distinct (map rev_id revs))
     \<and> (\<forall>k y. watched = Some (k, y) \<longrightarrow> (\<exists>revs. l = Some revs \<and> holds_entry k y revs))"

definition files_ok ::
  "string set \<Rightarrow> cert_id set \<Rightarrow> (cert_id \<Rightarrow> issued option) \<Rightarrow> (string \<times> cert_id) option \<Rightarrow> ledger_dir \<Rightarrow> bool" where
  "files_ok I U chain watched d \<longleftrightarrow> bt_wf (d_certificates d)
     \<and> (\<forall>stem f. map_of (d_certificates d) stem = Some f \<longrightarrow>
          (\<exists>i. f = Some i \<and> cert_file_stem (iss_id i) = stem \<and> fst (iss_id i) \<in> I \<and> iss_id i \<in> U))
     \<and> (\<forall>z i. chain z = Some i \<longrightarrow> iss_id i = z \<and> map_of (d_certificates d) (cert_file_stem z) = Some (Some i))
     \<and> list_ok watched (file_list d)"

definition memory_ok :: "(cert_id \<Rightarrow> issued option) \<Rightarrow> (string \<times> cert_id) option \<Rightarrow> trust \<Rightarrow> ledger_dir \<Rightarrow> bool" where
  "memory_ok chain watched t d \<longleftrightarrow> trust_ok t
     \<and> (\<forall>z i. map_of (t_issued t) z = Some i \<longrightarrow> map_of (d_certificates d) (cert_file_stem z) = Some (Some i))
     \<and> chain \<subseteq>\<^sub>m map_of (t_issued t) \<and> list_ok watched (Some (t_revocations t))"

lemma files_ok_cong:
  "d_certificates d' = d_certificates d \<Longrightarrow> file_list d' = file_list d \<Longrightarrow> files_ok I U chain watched d' = files_ok I U chain watched d"
  by (simp add: files_ok_def)

lemma memory_ok_cong:
  "t_issued t' = t_issued t \<Longrightarrow> t_revocations t' = t_revocations t \<Longrightarrow> d_certificates d' = d_certificates d \<Longrightarrow> trust_ok t' \<Longrightarrow>
   memory_ok chain watched t d \<Longrightarrow> memory_ok chain watched t' d'"
  by (simp add: memory_ok_def)

lemma files_ok_list:
  "files_ok I U chain watched d \<Longrightarrow> d_certificates d' = d_certificates d \<Longrightarrow> list_ok watched (file_list d') \<Longrightarrow>
   files_ok I U chain watched d'"
  by (simp add: files_ok_def)

lemma memory_ok_list:
  "memory_ok chain watched t d \<Longrightarrow> t_issued t' = t_issued t \<Longrightarrow> trust_ok t' \<Longrightarrow> list_ok watched (Some (t_revocations t')) \<Longrightarrow>
   memory_ok chain watched t' d"
  by (simp add: memory_ok_def)

lemma memory_ok_register: "memory_ok chain watched t d \<Longrightarrow> register_ok (t_issued t)"
  by (simp add: memory_ok_def trust_ok_def)

lemma registered_file:
  assumes "files_ok I U chain watched d" and "memory_ok chain watched t d" and "z \<in> dom (map_of (t_issued t))"
  shows "fst z \<in> I" "z \<in> U"
proof -
  obtain i where i: "map_of (t_issued t) z = Some i" using assms(3) by blast
  then have "iss_id i = z" using register_ok_lookup [OF memory_ok_register [OF assms(2)]] by blast
  moreover have "map_of (d_certificates d) (cert_file_stem z) = Some (Some i)"
    using assms(2) i by (simp add: memory_ok_def)
  ultimately show "fst z \<in> I" "z \<in> U" using assms(1) by (auto simp: files_ok_def)
qed

lemma chain_file:
  assumes "files_ok I U chain watched d" and "chain z = Some i"
  shows "fst z \<in> I" "z \<in> U"
proof -
  have "iss_id i = z" "map_of (d_certificates d) (cert_file_stem z) = Some (Some i)"
    using assms by (simp_all add: files_ok_def)
  then show "fst z \<in> I" "z \<in> U" using assms(1) by (auto simp: files_ok_def)
qed

section \<open>Pruning keeps what a valid certificate needs\<close>

definition chain_pred :: "(cert_id \<Rightarrow> issued option) \<Rightarrow> cert_id \<Rightarrow> cert_id option" where
  "chain_pred chain z = (case chain z of None \<Rightarrow> None | Some i \<Rightarrow> predecessor i)"

definition needs :: "nat \<Rightarrow> (cert_id \<Rightarrow> issued option) \<Rightarrow> cert_id \<Rightarrow> bool" where
  "needs now chain z \<longleftrightarrow> (\<exists>c i. chain c = Some i \<and> now < not_after_ms (iss_facts i) \<and> (c, z) \<in> (above (chain_pred chain))\<^sup>*)"

definition guarded :: "nat \<Rightarrow> cert_id set \<Rightarrow> (cert_id \<Rightarrow> issued option) \<Rightarrow> (string \<times> cert_id) option \<Rightarrow> bool" where
  "guarded now P chain watched \<longleftrightarrow> (\<forall>z \<in> dom chain. needs now chain z)
     \<and> (\<forall>k y. watched = Some (k, y) \<longrightarrow> (\<forall>x \<in> P. snd x = snd y \<longrightarrow> x = y) \<and> (y \<in> P \<longrightarrow> needs now chain y))"

lemma needed_stays:
  assumes "memory_ok chain watched t d" and "needs now chain z"
  shows "z \<notin> set (gone_at now t)"
proof -
  obtain c i where c: "chain c = Some i" "now < not_after_ms (iss_facts i)" "(c, z) \<in> (above (chain_pred chain))\<^sup>*"
    using assms(2) by (auto simp: needs_def)
  have sub: "chain \<subseteq>\<^sub>m map_of (t_issued t)" using assms(1) by (simp add: memory_ok_def)
  then have lookup: "chain a = Some v \<Longrightarrow> map_of (t_issued t) a = Some v" for a v
    by (force simp: map_le_def)
  have "above (chain_pred chain) \<subseteq> above (pred_of (t_issued t))"
    using lookup by (fastforce simp: above_def chain_pred_def pred_of_def split: option.splits)
  then have "(c, z) \<in> (above (pred_of (t_issued t)))\<^sup>*" using c(3) rtrancl_mono by blast
  then show ?thesis
    unfolding set_gone_at [OF memory_ok_register [OF assms(1)]] using lookup [OF c(1)] c(2) by fastforce
qed

lemma gone_harmless:
  assumes "files_ok I U chain watched d" and "memory_ok chain watched t d" and "guarded now P chain watched" and "U \<subseteq> P"
    and "z \<in> set (gone_at now t)"
  shows "fst z \<in> I" "z \<notin> dom chain" "watched = Some (k, y) \<Longrightarrow> snd z \<noteq> snd y"
proof -
  have dom: "z \<in> dom (map_of (t_issued t))"
    using assms(5) by (auto simp: gone_at_def dom_map_of_conv_image_fst)
  note held = registered_file [OF assms(1,2) this]
  show "fst z \<in> I" by (rule held(1))
  show "z \<notin> dom chain"
    using needed_stays [OF assms(2), of now z] assms(3,5) by (auto simp: guarded_def)
  show "snd z \<noteq> snd y" if w: "watched = Some (k, y)"
  proof
    assume "snd z = snd y"
    moreover have "z \<in> P" using held(2) assms(4) by blast
    ultimately have "z = y" using assms(3) w by (simp add: guarded_def)
    then have "needs now chain z" using assms(3) w \<open>z \<in> P\<close> by (simp add: guarded_def)
    then show False using needed_stays [OF assms(2)] assms(5) by blast
  qed
qed

lemma list_ok_filter:
  "list_ok watched (Some revs) \<Longrightarrow> (\<And>k y. watched = Some (k, y) \<Longrightarrow> i \<noteq> k) \<Longrightarrow> list_ok watched (Some (filter (\<lambda>e. rev_id e \<noteq> i) revs))"
  by (auto simp: list_ok_def holds_entry_def distinct_map_filter)

lemma register_ok_remove_ok:
  assumes "issuers_apart I" and "files_ok I U chain watched d" and "memory_ok chain watched t d"
    and "fst z \<in> I" and "z \<notin> dom chain"
    and "d_certificates d' = bt_remove (cert_file_stem z) (d_certificates d)" and "file_list d' = file_list d"
  shows "files_ok I U chain watched d'" "memory_ok chain watched (state_remove z t) d'"
proof -
  have other: "cert_file_stem a \<noteq> cert_file_stem z" if "fst a \<in> I" "a \<noteq> z" for a
    using stem_inject [OF assms(1) that(1) assms(4)] that(2) by blast
  have look: "map_of (d_certificates d') stem = (if stem = cert_file_stem z then None else map_of (d_certificates d) stem)" for stem
    using assms(6) by simp
  have chain: "map_of (d_certificates d') (cert_file_stem a) = Some (Some i)" if "chain a = Some i" for a i
  proof -
    have "a \<noteq> z" using that assms(5) by blast
    then have "cert_file_stem a \<noteq> cert_file_stem z" by (intro other chain_file(1) [OF assms(2) that])
    then show ?thesis using assms(2) that by (simp add: look files_ok_def)
  qed
  have "bt_wf (d_certificates d')" using assms(2,6) by (simp add: files_ok_def)
  then show "files_ok I U chain watched d'"
    using assms(2,7) chain unfolding files_ok_def by (simp add: look)
  have mem: "map_of (d_certificates d') (cert_file_stem a) = Some (Some i)" if "map_of (t_issued (state_remove z t)) a = Some i" for a i
  proof -
    have a: "a \<noteq> z" "map_of (t_issued t) a = Some i" using that by (auto simp: state_remove_def split: if_splits)
    then have "cert_file_stem a \<noteq> cert_file_stem z"
      using registered_file(1) [OF assms(2,3), of a] by (intro other) auto
    then show ?thesis using assms(3) a(2) by (simp add: look memory_ok_def)
  qed
  moreover have "chain \<subseteq>\<^sub>m map_of (t_issued (state_remove z t))"
    using assms(3,5) by (auto simp: memory_ok_def state_remove_def map_le_def)
  moreover have "t_revocations (state_remove z t) = t_revocations t" by (simp add: state_remove_def)
  ultimately show "memory_ok chain watched (state_remove z t) d'"
    using assms(3) trust_ok_remove [of t z] by (simp add: memory_ok_def)
qed

definition held_ok ::
  "string set \<Rightarrow> cert_id set \<Rightarrow> (cert_id \<Rightarrow> issued option) \<Rightarrow> (string \<times> cert_id) option \<Rightarrow> trust \<Rightarrow> fs_ledger \<Rightarrow> bool" where
  "held_ok I U chain watched t s \<longleftrightarrow> files_ok I U chain watched (dir s) \<and> memory_ok chain watched t (dir s)"

lemma held_ok_cong:
  assumes "held_ok I U chain watched t s" and "t_issued t' = t_issued t" and "t_revocations t' = t_revocations t"
    and "d_certificates (dir s') = d_certificates (dir s)" and "file_list (dir s') = file_list (dir s)" and "trust_ok t'"
  shows "held_ok I U chain watched t' s'"
  using assms(1) files_ok_cong [OF assms(4,5)] memory_ok_cong [OF assms(2,3,4,6)] by (simp add: held_ok_def)

lemma remove_gone_held:
  assumes "issuers_apart I" and "held_ok I U chain watched t s"
    and "\<forall>z \<in> set gone. fst z \<in> I \<and> z \<notin> dom chain"
    and "remove_gone fs_ledger_store gone t s = (r, t', s')"
  shows "held_ok I U chain watched t' s' \<and> t_revocations t' = t_revocations t"
  using assms(2-4)
proof (induction gone arbitrary: t s)
  case (Cons z gone)
  obtain w s1 where w: "remove_issued z s = (w, s1)" by (cases "remove_issued z s")
  note file_cases = remove_issued_cases [OF w]
  have list: "file_list (dir s1) = file_list (dir s)" using file_cases(2) by (simp add: file_list_def)
  show ?case
  proof (cases w)
    case (Inl e)
    then have "d_certificates (dir s1) = d_certificates (dir s)" "t' = t" "s' = s1"
      using file_cases(1) Cons.prems(3) w by auto
    then show ?thesis
      using held_ok_cong [OF Cons.prems(1), of t s1] Cons.prems(1) list by (auto simp: held_ok_def memory_ok_def)
  next
    case (Inr u)
    then have gone: "d_certificates (dir s1) = bt_remove (cert_file_stem z) (d_certificates (dir s))"
      using file_cases(1) by auto
    have "held_ok I U chain watched (state_remove z t) s1"
      using register_ok_remove_ok [OF assms(1) _ _ _ _ gone list, of U chain watched t] Cons.prems(1,2)
      by (simp add: held_ok_def)
    moreover have "remove_gone fs_ledger_store gone (state_remove z t) s1 = (r, t', s')"
      using Cons.prems(3) w Inr by simp
    ultimately have "held_ok I U chain watched t' s' \<and> t_revocations t' = t_revocations (state_remove z t)"
      using Cons.prems(2) by (intro Cons.IH) simp_all
    then show ?thesis by (simp add: state_remove_def split: if_splits)
  qed
qed simp

lemma remove_dropped_held:
  assumes "held_ok I U chain watched t s"
    and "\<forall>i \<in> set is. \<forall>k y. watched = Some (k, y) \<longrightarrow> i \<noteq> k"
    and "remove_dropped fs_ledger_store is t s = (r, t', s')"
  shows "held_ok I U chain watched t' s'"
  using assms
proof (induction "is" arbitrary: t s)
  case (Cons i "is")
  obtain w s1 where w: "fl_remove_revocation i s = (w, s1)" by (cases "fl_remove_revocation i s")
  note file_cases = fl_remove_revocation_cases [OF w]
  have other: "watched = Some (k, y) \<Longrightarrow> i \<noteq> k" for k y using Cons.prems(2) by simp
  have list: "list_ok watched (file_list (dir s1))"
  proof -
    have "list_ok watched (file_list (dir s))" using Cons.prems(1) by (simp add: held_ok_def files_ok_def)
    then show ?thesis using file_cases(2) list_ok_filter [OF _ other] by auto
  qed
  have files: "files_ok I U chain watched (dir s1)"
    using Cons.prems(1) files_ok_list [OF _ file_cases(1) list] by (simp add: held_ok_def)
  have mem: "memory_ok chain watched t (dir s1)"
    using Cons.prems(1) file_cases(1) by (simp add: held_ok_def memory_ok_def)
  show ?case
  proof (cases w)
    case (Inl e)
    then have "t' = t" "s' = s1" using Cons.prems(3) w by auto
    then show ?thesis using files mem by (simp add: held_ok_def)
  next
    case (Inr held)
    let ?t = "if held then took_up_own_write None t else t"
    let ?t' = "?t\<lparr>t_revocations := filter (\<lambda>e. rev_id e \<noteq> i) (t_revocations ?t), t_revoked := None\<rparr>"
    have same: "t_issued ?t = t_issued t" "t_revocations ?t = t_revocations t"
      by (simp_all add: took_up_own_write_def)
    have "trust_ok ?t" using mem by (simp add: memory_ok_def)
    then have "trust_ok ?t'" by (rule trust_ok_list)
    moreover have "list_ok watched (Some (t_revocations t))" using mem by (simp add: memory_ok_def)
    then have "list_ok watched (Some (filter (\<lambda>e. rev_id e \<noteq> i) (t_revocations t)))"
      by (rule list_ok_filter) (rule other)
    then have "list_ok watched (Some (t_revocations ?t'))" using same(2) by simp
    moreover have "t_issued ?t' = t_issued t" using same(1) by simp
    ultimately have "memory_ok chain watched ?t' (dir s1)"
      using memory_ok_list [OF mem] by blast
    then have "held_ok I U chain watched ?t' s1" using files by (simp add: held_ok_def)
    moreover have "remove_dropped fs_ledger_store is ?t' s1 = (r, t', s')"
      using Cons.prems(3) w Inr by (simp only: remove_dropped.simps fs_ledger_store_sel prod.case sum.case Let_def)
    ultimately show ?thesis using Cons.prems(2) by (intro Cons.IH) simp_all
  qed
qed simp

lemma prune_held:
  assumes "issuers_apart I" and "held_ok I U chain watched t s" and "guarded now P chain watched" and "U \<subseteq> P"
    and "prune now fs_ledger_store t s = (r, t', s')"
  shows "held_ok I U chain watched t' s'"
proof (cases "now < t_earliest_ms t")
  case True
  then show ?thesis using assms(2,5) by (simp add: prune_def)
next
  case False
  have files: "files_ok I U chain watched (dir s)" and mem: "memory_ok chain watched t (dir s)"
    using assms(2) by (simp_all add: held_ok_def)
  obtain forgotten t1 s1 where hosts: "prune_hosts now fs_ledger_store t s = (forgotten, t1, s1)"
    by (cases "prune_hosts now fs_ledger_store t s")
  note same = prune_hosts_fields [OF hosts]
  have "trust_ok t1"
    using mem trust_ok_cong [OF same(1-4)] same(5) by (auto simp: memory_ok_def)
  then have held1: "held_ok I U chain watched t1 s1"
    using held_ok_cong [OF assms(2) same(1,2)] same(7) by simp
  have gone: "\<forall>z \<in> set (gone_at now t). fst z \<in> I \<and> z \<notin> dom chain"
    using gone_harmless(1,2) [OF files mem assms(3,4)] by blast
  obtain w t2 s2 where gone2: "remove_gone fs_ledger_store (gone_at now t) t1 s1 = (w, t2, s2)"
    by (cases "remove_gone fs_ledger_store (gone_at now t) t1 s1")
  have held2: "held_ok I U chain watched t2 s2" "t_revocations t2 = t_revocations t1"
    using remove_gone_held [OF assms(1) held1 gone gone2] by blast+
  let ?ids = "map rev_id (filter (drops (gone_at now t)) (t_revocations t2))"
  have ids: "\<forall>i \<in> set ?ids. \<forall>k y. watched = Some (k, y) \<longrightarrow> i \<noteq> k"
  proof (intro ballI allI impI notI)
    fix i k y
    assume i: "i \<in> set ?ids" and w: "watched = Some (k, y)" and "i = k"
    then obtain e where e: "e \<in> set (t_revocations t)" "rev_id e = k" "drops (gone_at now t) e"
      using held2(2) same(2) by auto
    then have "y \<in> set (entry_names e)"
      using mem w by (simp add: memory_ok_def list_ok_def holds_entry_def)
    then have "snd y = rv_serial (rev_revoked e)" by (auto simp: entry_names_def)
    then obtain z where "z \<in> set (gone_at now t)" "snd z = snd y" using e(3) by (auto simp: drops_def)
    then show False using gone_harmless(3) [OF files mem assms(3,4) _ w] by blast
  qed
  obtain w' t3 s3 where dropped: "remove_dropped fs_ledger_store ?ids t2 s2 = (w', t3, s3)"
    by (cases "remove_dropped fs_ledger_store ?ids t2 s2")
  have held3: "held_ok I U chain watched t3 s3" by (rule remove_dropped_held [OF held2(1) ids dropped])
  show ?thesis
    using assms(5) False held1 held2(1) held3
    by (auto simp: prune_def Let_def hosts gone2 dropped split: if_splits sum.splits)
qed

section \<open>Recording keeps what is held\<close>

lemma files_ok_mono: "files_ok I U chain watched d \<Longrightarrow> U \<subseteq> V \<Longrightarrow> files_ok I V chain watched d"
  unfolding files_ok_def by blast

lemma held_ok_mono: "held_ok I U chain watched t s \<Longrightarrow> U \<subseteq> V \<Longrightarrow> held_ok I V chain watched t s"
  unfolding held_ok_def using files_ok_mono by blast

lemma put_held:
  assumes "issuers_apart I" and "held_ok I U chain watched t s" and "iss_id i \<notin> U" and "fst (iss_id i) \<in> I"
    and "d_certificates (dir s') = bt_insert (cert_file_stem (iss_id i)) (Some i) (d_certificates (dir s))"
    and "file_list (dir s') = file_list (dir s)"
  shows "held_ok I (insert (iss_id i) U) chain watched t s'" "held_ok I (insert (iss_id i) U) chain watched (state_insert i t) s'"
proof -
  let ?z = "iss_id i"
  have files: "files_ok I U chain watched (dir s)" and mem: "memory_ok chain watched t (dir s)"
    using assms(2) by (simp_all add: held_ok_def)
  have other: "cert_file_stem a \<noteq> cert_file_stem ?z" if "fst a \<in> I" "a \<in> U" for a
    using stem_inject [OF assms(1) that(1) assms(4)] that(2) assms(3) by blast
  have look: "map_of (d_certificates (dir s')) stem = (if stem = cert_file_stem ?z then Some (Some i) else map_of (d_certificates (dir s)) stem)" for stem
    using assms(5) by simp
  have chain: "map_of (d_certificates (dir s')) (cert_file_stem a) = Some (Some v)" if "chain a = Some v" for a v
    using other [OF chain_file [OF files that]] files that by (simp add: look files_ok_def)
  have "bt_wf (d_certificates (dir s'))" using files assms(5) by (simp add: files_ok_def)
  moreover have "\<exists>j. v = Some j \<and> cert_file_stem (iss_id j) = stem \<and> fst (iss_id j) \<in> I \<and> iss_id j \<in> insert ?z U"
    if "map_of (d_certificates (dir s')) stem = Some v" for stem v
  proof (cases "stem = cert_file_stem ?z")
    case True
    then show ?thesis using that assms(4) by (auto simp: look)
  next
    case False
    then have "map_of (d_certificates (dir s)) stem = Some v" using that by (simp add: look)
    then show ?thesis using files unfolding files_ok_def by blast
  qed
  ultimately have files': "files_ok I (insert ?z U) chain watched (dir s')"
    using files chain assms(6) unfolding files_ok_def by simp
  have mem': "map_of (d_certificates (dir s')) (cert_file_stem a) = Some (Some v)" if "map_of (t_issued t) a = Some v" for a v
  proof -
    have "cert_file_stem a \<noteq> cert_file_stem ?z"
      using that by (intro other registered_file [OF files mem]) auto
    then show ?thesis using mem that by (simp add: look memory_ok_def)
  qed
  have m: "memory_ok chain watched t (dir s')" using mem mem' by (simp add: memory_ok_def)
  then show "held_ok I (insert ?z U) chain watched t s'" using files' by (simp add: held_ok_def)
  have "?z \<notin> dom (map_of (t_issued t))" using registered_file(2) [OF files mem] assms(3) by blast
  then have ins: "t_issued (state_insert i t) = bt_insert ?z i (t_issued t)"
    by (simp add: state_insert_fields state_remove_def)
  have "?z \<notin> dom chain" using chain_file(2) [OF files] assms(3) by blast
  then have "chain \<subseteq>\<^sub>m map_of (t_issued (state_insert i t))"
    using mem by (auto simp: ins memory_ok_def map_le_def)
  moreover have "map_of (d_certificates (dir s')) (cert_file_stem a) = Some (Some v)"
    if "map_of (t_issued (state_insert i t)) a = Some v" for a v
    using that mem' [of a v] by (auto simp: ins look split: if_splits)
  ultimately have "memory_ok chain watched (state_insert i t) (dir s')"
    using m trust_ok_insert [of t i] by (simp add: memory_ok_def state_insert_fields(2))
  then show "held_ok I (insert ?z U) chain watched (state_insert i t) s'" using files' by (simp add: held_ok_def)
qed

lemma admit_record_cases:
  assumes "admit_record now ops f uid pre mint bootstrap t s = (r, t', s')"
  shows "(r \<noteq> Ok () \<and> t' = t \<and> s' = s) \<or>
    (\<exists>w. ls_register_minting ops \<lparr>iss_facts = f, iss_uid = hex_encode uid, predecessor = pre, issued_ms = now\<rparr>
        \<lparr>bound_size = (if pre \<noteq> None then MAX_ISSUED - ENROLMENT_RESERVE else MAX_ISSUED), bound_per_root = MAX_DESCENDANTS_PER_ROOT\<rparr>
        mint bootstrap s = (w, s')
      \<and> (if w = Ok Registered
         then r = Ok () \<and> t' = state_insert \<lparr>iss_facts = f, iss_uid = hex_encode uid, predecessor = pre, issued_ms = now\<rparr> t
         else r \<noteq> Ok () \<and> t' = t))"
  using assms by (cases pre) (auto simp: admit_record_def Let_def split: if_splits prod.splits sum.splits registered.splits)

lemma admit_record_held:
  assumes "issuers_apart I" and "held_ok I U chain watched t s" and "facts_id f \<notin> U" and "fst (facts_id f) \<in> I"
    and "admit_record now fs_ledger_store f uid pre mint bootstrap t s = (r, t', s')"
  shows "held_ok I (insert (facts_id f) U) chain watched t' s'"
proof -
  let ?i = "\<lparr>iss_facts = f, iss_uid = hex_encode uid, predecessor = pre, issued_ms = now\<rparr>"
  let ?b = "\<lparr>bound_size = (if pre \<noteq> None then MAX_ISSUED - ENROLMENT_RESERVE else MAX_ISSUED), bound_per_root = MAX_DESCENDANTS_PER_ROOT\<rparr>"
  obtain w s1 where w: "register_issued ?i ?b s = (w, s1)" by (cases "register_issued ?i ?b s")
  note file_cases = register_issued_cases [OF w]
  have grown: "held_ok I (insert (facts_id f) U) chain watched t s" by (rule held_ok_mono [OF assms(2)]) blast
  have "(t' = t \<and> s' = s) \<or> (s' = s1 \<and> (t' = t \<or> (w = Ok Registered \<and> t' = state_insert ?i t)))"
    using admit_record_cases [OF assms(5)] w by (auto split: if_split_asm)
  then consider "t' = t" "s' = s" | "s' = s1" "t' = t" | "s' = s1" "w = Ok Registered" "t' = state_insert ?i t" by blast
  then show ?thesis
  proof cases
    case 1
    then show ?thesis using grown by simp
  next
    case 2
    show ?thesis
    proof (cases "d_certificates (dir s1) = d_certificates (dir s)")
      case True
      then show ?thesis
        using held_ok_cong [OF grown, of t s1] file_cases(2) grown 2 by (auto simp: held_ok_def memory_ok_def)
    next
      case False
      then have "d_certificates (dir s1) = bt_insert (cert_file_stem (iss_id ?i)) (Some ?i) (d_certificates (dir s))"
        using file_cases(1) by blast
      from put_held(1) [OF assms(1,2) _ _ this file_cases(2)] assms(3,4) 2 show ?thesis by simp
    qed
  next
    case 3
    then have "d_certificates (dir s1) = bt_insert (cert_file_stem (iss_id ?i)) (Some ?i) (d_certificates (dir s))"
      using file_cases(1) by blast
    from put_held(2) [OF assms(1,2) _ _ this file_cases(2)] assms(3,4) 3 show ?thesis by simp
  qed
qed

definition rv_held ::
  "string set \<Rightarrow> cert_id set \<Rightarrow> (cert_id \<Rightarrow> issued option) \<Rightarrow> (string \<times> cert_id) option \<Rightarrow> fs_ledger revocations \<Rightarrow> bool" where
  "rv_held I U chain watched rv \<longleftrightarrow> rv_ops rv = fs_ledger_store \<and> held_ok I U chain watched (rv_state rv) (rv_store rv)"

lemma quiet_held:
  assumes "quiet rv rv'" and "trust_ok (rv_state rv')" and "rv_held I U chain watched rv"
  shows "rv_held I U chain watched rv'"
  using assms held_ok_cong [of I U chain watched "rv_state rv" "rv_store rv" "rv_state rv'" "rv_store rv'"]
  by (simp add: quiet_def rv_held_def)

lemma rv_held_trust: "rv_held I U chain watched rv \<Longrightarrow> trust_ok (rv_state rv)"
  by (simp add: rv_held_def held_ok_def memory_ok_def)

lemma record_with_held:
  assumes "issuers_apart I" and "rv_held I U chain watched rv" and "guarded now P chain watched" and "U \<subseteq> P"
    and "facts_id f \<notin> U" and "fst (facts_id f) \<in> I"
  shows "rv_held I (insert (facts_id f) U) chain watched (snd (record_with now f uid pre bootstrap rv))"
proof -
  let ?ops = "rv_ops rv" and ?t0 = "acted (rv_state rv)"
  have ops: "rv_ops rv = fs_ledger_store" using assms(2) by (simp add: rv_held_def)
  obtain refused t1 where asked: "(case bootstrap of None \<Rightarrow> (False, ?t0)
      | Some b \<Rightarrow> (let (revoked, t') = revoked_set ?t0 in (b \<in> set revoked, t'))) = (refused, t1)"
    by (cases "case bootstrap of None \<Rightarrow> (False, ?t0)
      | Some b \<Rightarrow> (let (revoked, t') = revoked_set ?t0 in (b \<in> set revoked, t'))")
  have "t_issued t1 = t_issued (rv_state rv) \<and> t_revocations t1 = t_revocations (rv_state rv) \<and> trust_ok t1"
    using asked rv_held_trust [OF assms(2)] trust_ok_revoked_set [of ?t0] revoked_set_keeps(1,2) [of ?t0]
    by (auto simp: acted_def split: option.splits prod.splits)
  then have h1: "held_ok I U chain watched t1 (rv_store rv)"
    using held_ok_cong [of I U chain watched "rv_state rv" "rv_store rv" t1 "rv_store rv"] assms(2) by (simp add: rv_held_def)
  obtain res t2 s where pruned: "prune now ?ops t1 (rv_store rv) = (res, t2, s)"
    by (cases "prune now ?ops t1 (rv_store rv)")
  have h2: "held_ok I U chain watched t2 s"
    by (rule prune_held [OF assms(1) h1 assms(3,4) pruned [unfolded ops]])
  obtain rec t3 s' where admitted: "admit_record now ?ops f uid pre (minted now t2 f pre) bootstrap t2 s = (rec, t3, s')"
    by (cases "admit_record now ?ops f uid pre (minted now t2 f pre) bootstrap t2 s")
  have h3: "held_ok I (insert (facts_id f) U) chain watched t3 s'"
    by (rule admit_record_held [OF assms(1) h2 assms(5,6) admitted [unfolded ops]])
  obtain act t4 where act: "issuance_act (ls_writes_by_act ?ops) rec (minted now t2 f pre) f t3 = (act, t4)"
    by (cases "issuance_act (ls_writes_by_act ?ops) rec (minted now t2 f pre) f t3")
  note same = issuance_act_fields [OF act]
  have act': "issuance_act False rec (minted now t2 f pre) f t3 = (act, t4)" using act ops by simp
  define t5 where "t5 = (if act \<noteq> None then snd (hosts_changed t4) else t4)"
  define hv where "hv = (if act \<noteq> None then Some (fst (hosts_changed t4)) else projr res)"
  have t5: "t_issued t5 = t_issued t3" "t_revocations t5 = t_revocations t3" "trust_ok t5"
    using same h3 by (auto simp: t5_def hosts_changed_def Let_def held_ok_def memory_ok_def)
  have h5: "rv_held I (insert (facts_id f) U) chain watched (rv\<lparr>rv_state := t5, rv_store := s'\<rparr>)"
    using held_ok_cong [OF h3 t5(1,2) refl refl t5(3)] ops by (simp add: rv_held_def)
  have "snd (record_with now f uid pre bootstrap rv) = rv\<lparr>rv_state := t1\<rparr>
     \<or> snd (record_with now f uid pre bootstrap rv) = rv\<lparr>rv_state := t2, rv_store := s\<rparr>
     \<or> snd (record_with now f uid pre bootstrap rv) = write_forgotten hv (rv\<lparr>rv_state := t5, rv_store := s'\<rparr>)"
    using ops
    by (cases res) (simp_all add: record_with_def asked pruned [unfolded ops] admitted [unfolded ops] act' Let_def t5_def hv_def split_beta)
  moreover have "rv_held I (insert (facts_id f) U) chain watched (write_forgotten hv (rv\<lparr>rv_state := t5, rv_store := s'\<rparr>))"
    using ops t5(3) by (intro quiet_held [OF write_forgotten_quiet _ h5]) simp_all
  moreover have "rv_held I (insert (facts_id f) U) chain watched (rv\<lparr>rv_state := t1\<rparr>)"
    "rv_held I (insert (facts_id f) U) chain watched (rv\<lparr>rv_state := t2, rv_store := s\<rparr>)"
    using ops held_ok_mono [OF h1] held_ok_mono [OF h2] by (simp_all add: rv_held_def subset_insertI)
  ultimately show ?thesis by metis
qed

section \<open>The list only grows until a revocation is lifted\<close>

lemma widened_names:
  "widened h e = Some x \<Longrightarrow> rev_id x = rev_id h \<and> set (entry_names h) \<subseteq> set (entry_names x)"
  by (auto simp: widened_def entry_names_def Let_def split: if_splits)

lemma add_to_ids: "map rev_id (snd (add_to l e n b)) = map rev_id l \<or>
   (\<forall>h \<in> set l. rev_id h \<noteq> rev_id e) \<and> snd (add_to l e n b) = l @ [e]"
  by (induction l) (auto simp: Let_def split_beta split: option.splits dest: widened_names)

lemma add_to_members:
  "x \<in> set (snd (add_to l e n b)) \<Longrightarrow>
   x \<in> set l \<or> (x = e \<and> (\<forall>h \<in> set l. rev_id h \<noteq> rev_id e)) \<or> (\<exists>h \<in> set l. widened h e = Some x)"
  by (induction l) (auto simp: Let_def split_beta split: option.splits if_splits)

lemma add_to_answer:
  "fst (add_to l e n b) = Added \<Longrightarrow> e \<in> set (snd (add_to l e n b))"
  "fst (add_to l e n b) = Present x \<Longrightarrow> x \<in> set (snd (add_to l e n b))"
  "fst (add_to l e n b) = Widened x \<Longrightarrow> x \<in> set (snd (add_to l e n b))"
  by (induction l) (auto simp: Let_def split_beta split: option.splits if_splits)

lemma list_ok_add: "list_ok watched (Some l) \<Longrightarrow> list_ok watched (Some (snd (add_to_list l e b)))"
proof -
  assume l: "list_ok watched (Some l)"
  let ?l = "snd (add_to_list l e b)"
  have ids: "map rev_id ?l = map rev_id l \<or> (\<forall>h \<in> set l. rev_id h \<noteq> rev_id e) \<and> ?l = l @ [e]"
    unfolding add_to_list_def by (rule add_to_ids)
  have "distinct (map rev_id l)" using l by (simp add: list_ok_def)
  then have "distinct (map rev_id ?l)" using ids by (elim disjE conjE) (auto simp: image_iff)
  moreover have sub: "set (map rev_id l) \<subseteq> set (map rev_id ?l)"
    using ids by (elim disjE conjE) (simp_all only: map_append set_append order_refl Un_upper1)
  have "holds_entry k y ?l" if "holds_entry k y l" for k y
  proof -
    have "k \<in> set (map rev_id ?l)" using that sub by (auto simp: holds_entry_def)
    then have "\<exists>x \<in> set ?l. rev_id x = k" by auto
    moreover have "y \<in> set (entry_names x)" if x: "x \<in> set ?l" "rev_id x = k" for x
      using add_to_members [OF x(1) [unfolded add_to_list_def]] \<open>holds_entry k y l\<close> x(2)
        widened_names [of _ e x] by (fastforce simp: holds_entry_def)
    ultimately show ?thesis by (auto simp: holds_entry_def)
  qed
  ultimately show ?thesis using l by (auto simp: list_ok_def)
qed

lemma hold_entry_ids: "map rev_id (hold_entry e l) = map rev_id l \<or> rev_id e \<notin> set (map rev_id l) \<and> hold_entry e l = l @ [e]"
  by (induction l) auto

lemma hold_entry_members: "x \<in> set (hold_entry e l) \<Longrightarrow> x = e \<or> x \<in> set l"
  by (induction l) (auto split: if_splits)

lemma list_ok_hold:
  assumes "list_ok watched (Some l)" and "\<And>k y. watched = Some (k, y) \<Longrightarrow> rev_id e = k \<Longrightarrow> y \<in> set (entry_names e)"
  shows "list_ok watched (Some (hold_entry e l))"
proof -
  note ids = hold_entry_ids [of e l]
  have "distinct (map rev_id l)" using assms(1) by (simp add: list_ok_def)
  then have "distinct (map rev_id (hold_entry e l))" using ids by (elim disjE conjE) (auto simp: image_iff)
  moreover have sub: "set (map rev_id l) \<subseteq> set (map rev_id (hold_entry e l))"
    using ids by (elim disjE conjE) (simp_all only: map_append set_append order_refl Un_upper1)
  moreover have "holds_entry k y (hold_entry e l)" if w: "watched = Some (k, y)" for k y
  proof -
    have l: "holds_entry k y l" using assms(1) w by (simp add: list_ok_def)
    have "k \<in> set (map rev_id (hold_entry e l))" using l sub by (auto simp: holds_entry_def)
    then show ?thesis
      using l assms(2) [OF w] hold_entry_members [of _ e l] by (auto simp: holds_entry_def)
  qed
  ultimately show ?thesis by (simp add: list_ok_def)
qed

lemma rv_add_cases:
  assumes "rv_ops rv = fs_ledger_store" and "rv_add now digest x rv = (r, rv')"
  obtains entry w s where "fl_add_revocation entry MAX_REVOCATIONS (rv_store rv) = (w, s)" and "rv_store rv' = s"
    and "rv_ops rv' = fs_ledger_store" and "t_issued (rv_state rv') = t_issued (rv_state rv)"
    and "(t_revocations (rv_state rv') = t_revocations (rv_state rv) \<and> (\<forall>e. r = Ok e \<longrightarrow> e \<in> set (t_revocations (rv_state rv))))
      \<or> (\<exists>e. r = Ok e \<and> t_revocations (rv_state rv') = hold_entry e (t_revocations (rv_state rv)))"
    and "\<And>e. r = Ok e \<Longrightarrow> \<exists>revs. file_list (dir s) = Some revs \<and> e \<in> set revs"
proof -
  let ?entry = "\<lparr>rev_id = entry_id digest x, rev_revoked = x, revoked_ms = now\<rparr>"
  obtain w s where w: "fl_add_revocation ?entry MAX_REVOCATIONS (rv_store rv) = (w, s)"
    by (cases "fl_add_revocation ?entry MAX_REVOCATIONS (rv_store rv)")
  have answer: "\<exists>revs. file_list (dir s) = Some revs \<and> e \<in> set revs"
    if "w = Ok a" "a = Added \<and> e = ?entry \<or> a = Present e \<or> a = Widened e" for a e
    using fl_add_revocation_cases(3) [OF w that(1)] that(2) add_to_answer by (auto simp: add_to_list_def)
  have found: "find P l = Some e \<Longrightarrow> e \<in> set l" for P e and l :: "revocation list"
    by (auto simp: find_Some_iff)
  have took: "t_issued (took_up_own_write v t) = t_issued t" "t_revocations (took_up_own_write v t) = t_revocations t" for v t
    by (simp_all add: took_up_own_write_def)
  show thesis
  proof (rule that [OF w])
    show "rv_store rv' = s" "rv_ops rv' = fs_ledger_store" "t_issued (rv_state rv') = t_issued (rv_state rv)"
      using assms w by (auto simp: rv_add_def Let_def took acted_def split: sum.splits added.splits if_splits)
    show "(t_revocations (rv_state rv') = t_revocations (rv_state rv) \<and> (\<forall>e. r = Ok e \<longrightarrow> e \<in> set (t_revocations (rv_state rv))))
      \<or> (\<exists>e. r = Ok e \<and> t_revocations (rv_state rv') = hold_entry e (t_revocations (rv_state rv)))"
      using assms w by (auto simp: rv_add_def Let_def took acted_def dest: found split: sum.splits added.splits if_splits)
    show "\<exists>revs. file_list (dir s) = Some revs \<and> e \<in> set revs" if "r = Ok e" for e
      using assms w answer that by (auto simp: rv_add_def Let_def split: sum.splits added.splits if_splits)
  qed
qed

lemma rv_add_held:
  assumes "rv_held I U chain watched rv"
  shows "rv_held I U chain watched (snd (rv_add now digest x rv))"
proof -
  obtain r rv' where run: "rv_add now digest x rv = (r, rv')" by (cases "rv_add now digest x rv")
  have ops: "rv_ops rv = fs_ledger_store" and held: "held_ok I U chain watched (rv_state rv) (rv_store rv)"
    using assms by (simp_all add: rv_held_def)
  obtain entry w s where w: "fl_add_revocation entry MAX_REVOCATIONS (rv_store rv) = (w, s)" and s: "rv_store rv' = s"
    and ops': "rv_ops rv' = fs_ledger_store" and issued: "t_issued (rv_state rv') = t_issued (rv_state rv)"
    and mem: "(t_revocations (rv_state rv') = t_revocations (rv_state rv) \<and> (\<forall>e. r = Ok e \<longrightarrow> e \<in> set (t_revocations (rv_state rv))))
      \<or> (\<exists>e. r = Ok e \<and> t_revocations (rv_state rv') = hold_entry e (t_revocations (rv_state rv)))"
    and answer: "\<And>e. r = Ok e \<Longrightarrow> \<exists>revs. file_list (dir s) = Some revs \<and> e \<in> set revs"
    using rv_add_cases [OF ops run] by blast
  have files0: "files_ok I U chain watched (dir (rv_store rv))" and mem0: "memory_ok chain watched (rv_state rv) (dir (rv_store rv))"
    using held by (simp_all add: held_ok_def)
  have "list_ok watched (file_list (dir (rv_store rv)))" using files0 by (simp add: files_ok_def)
  then have list: "list_ok watched (file_list (dir s))"
    using fl_add_revocation_cases(2) [OF w] list_ok_add by auto
  then have files: "files_ok I U chain watched (dir s)"
    by (rule files_ok_list [OF files0 fl_add_revocation_cases(1) [OF w]])
  have names: "y \<in> set (entry_names e)" if "r = Ok e" "watched = Some (k, y)" "rev_id e = k" for e k y
    using answer [OF that(1)] list that(2,3) by (auto simp: list_ok_def holds_entry_def)
  have "list_ok watched (Some (t_revocations (rv_state rv)))" using mem0 by (simp add: memory_ok_def)
  then have "list_ok watched (Some (t_revocations (rv_state rv')))"
    using mem names list_ok_hold by metis
  moreover have "trust_ok (rv_state rv')"
    using rv_add_trust [of rv now digest x] rv_held_trust [OF assms] run by simp
  moreover have "memory_ok chain watched (rv_state rv) (dir s)"
    using mem0 fl_add_revocation_cases(1) [OF w] by (simp add: memory_ok_def)
  ultimately have "memory_ok chain watched (rv_state rv') (dir s)" using memory_ok_list issued by blast
  then show ?thesis using files ops' s run by (simp add: rv_held_def held_ok_def)
qed

lemma revoke_certificate_held:
  "rv_held I U chain watched rv \<Longrightarrow> rv_held I U chain watched (snd (revoke_certificate now digest a serial rv))"
  by (simp add: revoke_certificate_def Let_def rv_add_held)

lemma lift_held:
  assumes "rv_held I U chain watched rv" and "\<And>k y. watched = Some (k, y) \<Longrightarrow> i \<noteq> k"
  shows "rv_held I U chain watched (snd (lift i rv))"
proof -
  have ops: "rv_ops rv = fs_ledger_store" and files0: "files_ok I U chain watched (dir (rv_store rv))"
    and mem0: "memory_ok chain watched (rv_state rv) (dir (rv_store rv))"
    using assms(1) by (simp_all add: rv_held_def held_ok_def)
  obtain w s where w: "fl_remove_revocation i (rv_store rv) = (w, s)" by (cases "fl_remove_revocation i (rv_store rv)")
  note file_cases = fl_remove_revocation_cases [OF w]
  have "list_ok watched (file_list (dir (rv_store rv)))" using files0 by (simp add: files_ok_def)
  then have "list_ok watched (file_list (dir s))"
    using file_cases(2) list_ok_filter [OF _ assms(2)] by auto
  then have files: "files_ok I U chain watched (dir s)" by (rule files_ok_list [OF files0 file_cases(1)])
  let ?rv = "snd (lift i rv)"
  have rv: "rv_ops ?rv = fs_ledger_store" "rv_store ?rv = s" "t_issued (rv_state ?rv) = t_issued (rv_state rv)"
    "t_revocations (rv_state ?rv) = t_revocations (rv_state rv) \<or> t_revocations (rv_state ?rv) = filter (\<lambda>e. rev_id e \<noteq> i) (t_revocations (rv_state rv))"
    using ops w by (auto simp: lift_def Let_def acted_def took_up_own_write_def split: sum.splits)
  have l: "list_ok watched (Some (t_revocations (rv_state rv)))" using mem0 by (simp add: memory_ok_def)
  have "list_ok watched (Some (filter (\<lambda>e. rev_id e \<noteq> i) (t_revocations (rv_state rv))))"
    by (rule list_ok_filter [OF l]) (rule assms(2))
  then have "list_ok watched (Some (t_revocations (rv_state ?rv)))" using rv(4) l by (elim disjE) (simp_all only:)
  moreover have "trust_ok (rv_state ?rv)" using lift_trust rv_held_trust [OF assms(1)] by blast
  moreover have "memory_ok chain watched (rv_state rv) (dir s)" using mem0 file_cases(1) by (simp add: memory_ok_def)
  ultimately have "memory_ok chain watched (rv_state ?rv) (dir s)" using memory_ok_list rv(3) by blast
  then show ?thesis using files rv(1,2) by (simp add: rv_held_def held_ok_def)
qed

end
