(* ===== verification/Revocation_Lasting.thy ===== *)
theory Revocation_Lasting
  imports Revocation_Held
begin

text \<open>
  A revocation lasts: once it is answered, the certificates it reaches stay revoked, whatever the
  Server does, whatever write fails, and however often it restarts, until it is lifted. A Server is
  down or up; the acts are those of theory Revocation and a restart, over the filesystem adapter.
\<close>

declare split_paired_All [simp del] split_paired_Ex [simp del]


section \<open>Opening the files again\<close>

lemma load_certificates_iff:
  "load_certificates cs = Some is \<Longrightarrow> i \<in> set is \<longleftrightarrow> (\<exists>stem. (stem, Some i) \<in> set cs)"
  by (induction cs arbitrary: "is" rule: load_certificates.induct) (auto split: option.splits if_splits)

lemma load_certificates_stem:
  "load_certificates cs = Some is \<Longrightarrow> (stem, v) \<in> set cs \<Longrightarrow> \<exists>i. v = Some i \<and> cert_file_stem (iss_id i) = stem"
  by (induction cs arbitrary: "is" rule: load_certificates.induct) (auto split: option.splits if_splits)

lemma loaded_fields: "t_issued (loaded l) = bt_collect (map (\<lambda>i. (iss_id i, i)) (l_issued l))"
  "t_revocations (loaded l) = l_revocations l" "t_hosts (loaded l) = l_hosts l" "t_owners (loaded l) = owners_of (l_hosts l)"
  by (simp_all add: loaded_def take_up_register_def Let_def)

lemma loaded_lookup:
  assumes "map_of (t_issued (loaded l)) z = Some i"
  shows "i \<in> set (l_issued l)" "iss_id i = z"
  using map_of_SomeD [OF assms [unfolded loaded_fields map_of_bt_collect]] by auto

lemma loaded_present:
  assumes "i \<in> set (l_issued l)"
  shows "\<exists>v. map_of (t_issued (loaded l)) (iss_id i) = Some v"
proof -
  have "iss_id i \<in> fst ` set (rev (map (\<lambda>i. (iss_id i, i)) (l_issued l)))" using assms by force
  then show ?thesis
    unfolding loaded_fields map_of_bt_collect by (cases "map_of (rev (map (\<lambda>i. (iss_id i, i)) (l_issued l))) (iss_id i)") (simp_all only: map_of_eq_None_iff option.inject, blast+)
qed

lemma loaded_memory:
  assumes "files_ok I U chain watched d" and "load_certificates (d_certificates d) = Some (l_issued l)"
    and "file_list d = Some (l_revocations l)"
  shows "memory_ok chain watched (loaded l) d"
proof -
  have wf: "bt_wf (d_certificates d)" using assms(1) by (simp add: files_ok_def)
  have held: "map_of (d_certificates d) (cert_file_stem z) = Some (Some i)" if "map_of (t_issued (loaded l)) z = Some i" for z i
  proof -
    note here = that
    obtain stem where stem: "(stem, Some i) \<in> set (d_certificates d)"
      using loaded_lookup(1) [OF here] load_certificates_iff [OF assms(2)] by blast
    then have "cert_file_stem (iss_id i) = stem" using load_certificates_stem [OF assms(2)] by blast
    then show ?thesis using stem loaded_lookup(2) [OF that] bt_wf_map_of_iff [OF wf] by blast
  qed
  have "map_of (t_issued (loaded l)) z = Some i" if "chain z = Some i" for z i
  proof -
    have z: "iss_id i = z" "map_of (d_certificates d) (cert_file_stem z) = Some (Some i)"
      using assms(1) that by (simp_all add: files_ok_def)
    then have "i \<in> set (l_issued l)"
      using load_certificates_iff [OF assms(2)] map_of_SomeD [OF z(2)] by blast
    then obtain v where v: "map_of (t_issued (loaded l)) z = Some v" using loaded_present z(1) by blast
    then show ?thesis using held [OF v] z(2) by simp
  qed
  then have "chain \<subseteq>\<^sub>m map_of (t_issued (loaded l))" by (force simp: map_le_def)
  then show ?thesis
    using held trust_ok_loaded assms(1,3) by (simp add: memory_ok_def files_ok_def loaded_fields)
qed

lemma rv_open_held:
  assumes "issuers_apart I" and "files_ok I U chain watched (dir s)" and "guarded now P chain watched" and "U \<subseteq> P"
    and "rv_open now fs_ledger_store auths s = (r, s')"
  shows "files_ok I U chain watched (dir s')" "r = Ok rv \<Longrightarrow> rv_held I U chain watched rv"
proof -
  obtain l s1 where l: "fl_load s = (l, s1)" by (cases "fl_load s")
  note read = fl_load_cases [OF l]
  have files1: "files_ok I U chain watched (dir s1)" using files_ok_cong [OF read(1,3)] assms(2) by simp
  have "files_ok I U chain watched (dir s') \<and> (r = Ok rv \<longrightarrow> rv_held I U chain watched rv)"
  proof (cases l)
    case (Inl e)
    then show ?thesis using assms(5) l files1 by (auto simp: rv_open_def)
  next
    case (Inr ld)
    have "memory_ok chain watched (loaded ld) (dir s1)"
      using loaded_memory [OF files1, of ld] read(1,3) read(4) [OF Inr] by simp
    then have held1: "held_ok I U chain watched (loaded ld) s1" using files1 by (simp add: held_ok_def)
    obtain w t s2 where w: "prune now fs_ledger_store (loaded ld) s1 = (w, t, s2)"
      by (cases "prune now fs_ledger_store (loaded ld) s1")
    have held2: "held_ok I U chain watched t s2" by (rule prune_held [OF assms(1) held1 assms(3,4) w])
    show ?thesis
    proof (cases w)
      case failed: (Inl e)
      then show ?thesis using assms(5) l Inr w held2 by (auto simp: rv_open_def held_ok_def)
    next
      case hv: (Inr hv)
      let ?rv = "\<lparr>rv_ops = fs_ledger_store, rv_store = s2, rv_authorities = auths, rv_state = t, rv_hosts_written = 0, rv_changes = 0\<rparr>"
      have "rv_held I U chain watched ?rv" using held2 by (simp add: rv_held_def)
      moreover have "trust_ok (rv_state (write_forgotten hv ?rv))" using held2 by (simp add: held_ok_def memory_ok_def)
      ultimately have "rv_held I U chain watched (write_forgotten hv ?rv)"
        by (intro quiet_held [OF write_forgotten_quiet]) simp_all
      moreover have "r = Ok (write_forgotten hv ?rv)" "s' = rv_store (write_forgotten hv ?rv)"
        using assms(5) l Inr w hv by (auto simp: rv_open_def Let_def)
      ultimately show ?thesis by (auto simp: rv_held_def held_ok_def)
    qed
  qed
  then show "files_ok I U chain watched (dir s')" "r = Ok rv \<Longrightarrow> rv_held I U chain watched rv" by auto
qed

section \<open>A Server over its life\<close>

text \<open>A restart that fails leaves the Server down, with the files as the attempt left them.\<close>

datatype server = Down "ledger_dir disk" | Up "fs_ledger revocations"

datatype server_act = Do rv_act | Restart nat

fun server_disk :: "server \<Rightarrow> ledger_dir disk" where
  "server_disk (Down d) = d"
| "server_disk (Up rv) = fl_disk (rv_store rv)"

fun server_step :: "(string \<Rightarrow> string) \<Rightarrow> authority list \<Rightarrow> server_act \<Rightarrow> server \<Rightarrow> server" where
  "server_step digest auths (Do a) (Up rv) = Up (rv_step digest a rv)"
| "server_step digest auths (Do a) (Down d) = Down d"
| "server_step digest auths (Restart now) sv =
     (case rv_open now fs_ledger_store auths (fl_open (server_disk sv)) of
        (Inl _, s) \<Rightarrow> Down (fl_disk s) | (Inr rv, s) \<Rightarrow> Up rv)"

text \<open>The certificates an act records, and the readings of the clock a prune goes by.\<close>

fun records :: "rv_act \<Rightarrow> cert_id list" where
  "records (Record now f uid pre) = [facts_id f]"
| "records (RecordApproved now f uid b) = [facts_id f]"
| "records _ = []"

fun server_records :: "server_act \<Rightarrow> cert_id list" where
  "server_records (Do a) = records a"
| "server_records (Restart now) = []"

fun prunes_at :: "server_act \<Rightarrow> nat list" where
  "prunes_at (Do (Record now f uid pre)) = [now]"
| "prunes_at (Do (RecordApproved now f uid b)) = [now]"
| "prunes_at (Restart now) = [now]"
| "prunes_at _ = []"

definition server_held ::
  "string set \<Rightarrow> cert_id set \<Rightarrow> (cert_id \<Rightarrow> issued option) \<Rightarrow> (string \<times> cert_id) option \<Rightarrow> server \<Rightarrow> bool" where
  "server_held I U chain watched sv =
     (case sv of Down d \<Rightarrow> files_ok I U chain watched (disk_content d) | Up rv \<Rightarrow> rv_held I U chain watched rv)"

lemma rv_step_held:
  assumes "issuers_apart I" and "rv_held I U chain watched rv" and "U \<subseteq> P"
    and "\<forall>now \<in> set (prunes_at (Do a)). guarded now P chain watched"
    and "\<forall>z \<in> set (records a). z \<notin> U \<and> fst z \<in> I"
    and "\<And>k y. watched = Some (k, y) \<Longrightarrow> a \<noteq> Lift k"
  shows "rv_held I (U \<union> set (records a)) chain watched (rv_step digest a rv)"
proof -
  have ops: "rv_ops rv = fs_ledger_store" using assms(2) by (simp add: rv_held_def)
  have quiet: "rv_held I U chain watched (rv_step digest a rv)" if "quiet rv (rv_step digest a rv)"
    by (rule quiet_held [OF that rv_step_trust [OF rv_held_trust [OF assms(2)]] assms(2)])
  show ?thesis
  proof (cases a)
    case (Record now f uid pre)
    then show ?thesis
      using record_with_held [OF assms(1,2) _ assms(3), of now f uid pre None] assms(4,5) by (simp add: record_cert_def)
  next
    case (RecordApproved now f uid b)
    then show ?thesis
      using record_with_held [OF assms(1,2) _ assms(3), of now f uid None "Some b"] assms(4,5) by (simp add: record_approved_def)
  next
    case (Lift i)
    then show ?thesis using lift_held [OF assms(2), of i] assms(6) by auto
  next
    case (Revoke now b serial)
    then show ?thesis using revoke_certificate_held [OF assms(2)] by simp
  qed (use quiet ops in \<open>simp_all add: check_report_quiet release_quiet rebind_quiet set_gateway_quiet
        is_certificate_revoked_quiet revoked_certificates_quiet\<close>)
qed

lemma server_step_held:
  assumes "issuers_apart I" and "server_held I U chain watched sv" and "U \<subseteq> P"
    and "\<forall>now \<in> set (prunes_at a). guarded now P chain watched"
    and "\<forall>z \<in> set (server_records a). z \<notin> U \<and> fst z \<in> I"
    and "\<And>k y. watched = Some (k, y) \<Longrightarrow> a \<noteq> Do (Lift k)"
  shows "server_held I (U \<union> set (server_records a)) chain watched (server_step digest auths a sv)"
proof (cases a)
  case (Do b)
  show ?thesis
  proof (cases sv)
    case (Down d)
    then show ?thesis using assms(2) Do files_ok_mono by (auto simp: server_held_def)
  next
    case (Up rv)
    then show ?thesis
      using rv_step_held [OF assms(1) _ assms(3), of chain watched rv b digest] assms(2,4-6) Do
      by (auto simp: server_held_def)
  qed
next
  case (Restart now)
  have "files_ok I U chain watched (dir (fl_open (server_disk sv)))"
    using assms(2) by (cases sv) (auto simp: server_held_def rv_held_def held_ok_def fl_open_def)
  from rv_open_held [OF assms(1) this _ assms(3) surjective_pairing, of now auths] assms(4) Restart
  show ?thesis
    by (auto simp: server_held_def split: prod.splits sum.splits)
qed

lemma server_run_held:
  assumes "issuers_apart I" and "server_held I U chain watched sv" and "U \<union> set (concat (map server_records acts)) \<subseteq> P"
    and "\<forall>now \<in> set (concat (map prunes_at acts)). guarded now P chain watched"
    and "\<forall>z \<in> set (concat (map server_records acts)). z \<notin> U \<and> fst z \<in> I" and "distinct (concat (map server_records acts))"
    and "\<And>k y. watched = Some (k, y) \<Longrightarrow> Do (Lift k) \<notin> set acts"
  shows "server_held I (U \<union> set (concat (map server_records acts))) chain watched (fold (server_step digest auths) acts sv)"
  using assms(2-7)
proof (induction acts arbitrary: U sv)
  case Nil
  then show ?case by auto
next
  case (Cons a acts)
  let ?U = "U \<union> set (server_records a)"
  have "server_held I ?U chain watched (server_step digest auths a sv)"
    by (rule server_step_held [OF assms(1) Cons.prems(1), of P]) (use Cons.prems in auto)
  moreover have "?U \<union> set (concat (map server_records acts)) \<subseteq> P" using Cons.prems(2) by auto
  moreover have "\<forall>z \<in> set (concat (map server_records acts)). z \<notin> ?U \<and> fst z \<in> I"
    using Cons.prems(4,5) by auto
  moreover have "Do (Lift k) \<notin> set acts" if "watched = Some (k, y)" for k y
    using Cons.prems(6) [OF that] by simp
  ultimately show ?case
    using Cons.IH [of ?U "server_step digest auths a sv"] Cons.prems(3,5) by (simp add: distinct_append Un_assoc)
qed

section \<open>The chain a revoked certificate hangs on\<close>

definition chain_from :: "cert_id \<Rightarrow> (cert_id, issued) btree \<Rightarrow> cert_id \<Rightarrow> issued option" where
  "chain_from c m z = (if (c, z) \<in> (above (pred_of m))\<^sup>* then map_of m z else None)"

lemma chain_from_le: "chain_from c m \<subseteq>\<^sub>m map_of m"
  by (auto simp: map_le_def chain_from_def)

lemma chain_from_reaches:
  assumes "(c, z) \<in> (above (pred_of m))\<^sup>*"
  shows "(c, z) \<in> (above (chain_pred (chain_from c m)))\<^sup>*"
  using assms
proof (induction rule: rtrancl_induct)
  case base
  show ?case by simp
next
  case (step u v)
  then have "(u, v) \<in> above (chain_pred (chain_from c m))"
    by (auto simp: above_def chain_pred_def pred_of_def chain_from_def split: option.splits)
  with step.IH show ?case by (rule rtrancl_into_rtrancl)
qed

lemma reaches_registered:
  assumes "(c, z) \<in> (above (pred_of m))\<^sup>*" and "map_of m c = None"
  shows "z = c"
  using assms(1) by (rule converse_rtranclE) (use assms(2) in \<open>auto simp: above_def pred_of_def\<close>)

lemma chain_from_guarded:
  assumes "(c, y) \<in> (above (pred_of m))\<^sup>*" and "\<forall>x \<in> P. snd x = snd y \<longrightarrow> x = y"
    and "\<And>i. map_of m c = Some i \<Longrightarrow> now < not_after_ms (iss_facts i)" and "map_of m c = None \<Longrightarrow> c \<notin> P"
  shows "guarded now P (chain_from c m) (Some (k, y))"
proof -
  have needed: "needs now (chain_from c m) z" if z: "(c, z) \<in> (above (pred_of m))\<^sup>*" and c: "map_of m c = Some i" for z i
    unfolding needs_def
  proof (intro exI conjI)
    show "chain_from c m c = Some i" using c by (simp add: chain_from_def)
    show "now < not_after_ms (iss_facts i)" by (rule assms(3) [OF c])
    show "(c, z) \<in> (above (chain_pred (chain_from c m)))\<^sup>*" by (rule chain_from_reaches [OF z])
  qed
  have "needs now (chain_from c m) z" if "z \<in> dom (chain_from c m)" for z
  proof -
    have z: "(c, z) \<in> (above (pred_of m))\<^sup>*" "map_of m z \<noteq> None"
      using that by (auto simp: chain_from_def dom_def split: if_splits)
    then obtain i where "map_of m c = Some i" using reaches_registered [OF z(1)] by (cases "map_of m c") auto
    then show ?thesis using needed z(1) by blast
  qed
  moreover have "needs now (chain_from c m) y" if "y \<in> P"
  proof (cases "map_of m c")
    case None
    then show ?thesis using reaches_registered [OF assms(1)] assms(4) that by simp
  next
    case (Some i)
    then show ?thesis using needed assms(1) by blast
  qed
  ultimately show ?thesis using assms(2) by (simp add: guarded_def)
qed

lemma hold_entry_has: "e \<in> set (hold_entry e l)"
  by (induction l) auto

lemma map_le_lookup: "f \<subseteq>\<^sub>m g \<Longrightarrow> f z = Some v \<Longrightarrow> g z = Some v"
  by (force simp: map_le_def)

lemma revoke_certificate_watches:
  assumes "rv_held I U Map.empty None rv" and "revoke_certificate now digest a serial rv = (Ok e, rv')" and "y \<in> set (entry_names e)"
  shows "rv_held I U (chain_from c (t_issued (rv_state rv'))) (Some (rev_id e, y)) rv'"
proof -
  have held: "rv_held I U Map.empty None rv'"
    using revoke_certificate_held [OF assms(1), of now digest a serial] assms(2) by simp
  have files: "files_ok I U Map.empty None (dir (rv_store rv'))" and mem: "memory_ok Map.empty None (rv_state rv') (dir (rv_store rv'))"
    using held by (simp_all add: rv_held_def held_ok_def)
  obtain x where x: "rv_add now digest x rv = (Ok e, rv')"
    using assms(2) by (auto simp: revoke_certificate_def Let_def split: if_splits)
  have ops: "rv_ops rv = fs_ledger_store" using assms(1) by (simp add: rv_held_def)
  have stored: "\<exists>revs. file_list (dir (rv_store rv')) = Some revs \<and> e \<in> set revs" and memory: "e \<in> set (t_revocations (rv_state rv'))"
    using rv_add_cases [OF ops x] hold_entry_has [of e] by (metis sum.inject(2))+
  have one: "holds_entry (rev_id e) y revs" if "distinct (map rev_id revs)" "e \<in> set revs" for revs
    using that assms(3) eq_key_imp_eq_value unfolding holds_entry_def by (metis distinct_map inj_onD)
  have "list_ok (Some (rev_id e, y)) (file_list (dir (rv_store rv')))"
    using stored files one by (auto simp: files_ok_def list_ok_def)
  moreover have "list_ok (Some (rev_id e, y)) (Some (t_revocations (rv_state rv')))"
    using memory mem one by (auto simp: memory_ok_def list_ok_def)
  moreover have "iss_id i = z \<and> map_of (d_certificates (dir (rv_store rv'))) (cert_file_stem z) = Some (Some i)"
    if "chain_from c (t_issued (rv_state rv')) z = Some i" for z i
  proof -
    have z: "map_of (t_issued (rv_state rv')) z = Some i" using that by (simp add: chain_from_def split: if_splits)
    then show ?thesis
      using mem register_ok_lookup [OF memory_ok_register [OF mem] z] by (simp add: memory_ok_def)
  qed
  ultimately show ?thesis
    using held files mem chain_from_le by (simp add: rv_held_def held_ok_def files_ok_def memory_ok_def)
qed

lemma held_revoked:
  assumes "rv_held I U (chain_from c m) (Some (k, y)) rv" and "(c, y) \<in> (above (pred_of m))\<^sup>*"
  shows "fst (is_certificate_revoked c rv)"
proof -
  let ?t = "rv_state rv"
  have mem: "memory_ok (chain_from c m) (Some (k, y)) ?t (dir (rv_store rv))"
    using assms(1) by (simp add: rv_held_def held_ok_def)
  have le: "chain_from c m \<subseteq>\<^sub>m map_of (t_issued ?t)" and entry: "holds_entry k y (t_revocations ?t)"
    using mem by (auto simp: memory_ok_def list_ok_def)
  have named: "y \<in> set (named_in (t_revocations ?t))"
    using entry by (auto simp: holds_entry_def named_in_def)
  have "above (chain_pred (chain_from c m)) \<subseteq> above (pred_of (t_issued ?t))"
    using map_le_lookup [OF le] by (fastforce simp: above_def chain_pred_def pred_of_def split: option.splits)
  then have "(c, y) \<in> (above (pred_of (t_issued ?t)))\<^sup>*"
    using chain_from_reaches [OF assms(2)] rtrancl_mono by blast
  then have "c \<in> reached ?t" using named by (auto simp: reached_def tainted_def)
  then show ?thesis
    using rv_held_trust [OF assms(1)] by (simp add: is_certificate_revoked_def split_beta trust_ok_def set_revoked_set)
qed


section \<open>A revocation that a restart takes up\<close>

definition kept_issued :: "string \<Rightarrow> cert_id option \<Rightarrow> issued" where
  "kept_issued serial pre = (sample_issued serial pre)\<lparr>iss_facts := (iss_facts (sample_issued serial pre))\<lparr>facts_id := (''0123456789abcdef'', serial)\<rparr>\<rparr>"

definition kept_disk :: "ledger_dir disk" where
  "kept_disk =
     \<lparr>disk_content =
        \<lparr>d_certificates = [(''0123456789abcdef-1'', Some (kept_issued ''1'' None)),
            (''0123456789abcdef-2'', Some (kept_issued ''2'' (Some (''0123456789abcdef'', ''1''))))],
         d_list = ListEntries [], d_hosts = []\<rparr>,
      disk_outcomes = []\<rparr>"

definition kept_auths :: "authority list" where
  "kept_auths = [\<lparr>auth_role = ''client'', auth_subject = ''0123456789abcdef'', auth_name = ''CN=ca''\<rparr>]"

definition up_of :: "server \<Rightarrow> fs_ledger revocations" where
  "up_of sv = (case sv of Up rv \<Rightarrow> rv)"

definition kept_rv :: "fs_ledger revocations" where
  "kept_rv = up_of (server_step (\<lambda>_. ''d'') kept_auths (Restart 10) (Down kept_disk))"

definition kept_entry :: revocation where
  "kept_entry = \<lparr>rev_id = hex_encode ''d'', rev_revoked = RevokedCertificate ''client'' [''0123456789abcdef''] ''1'', revoked_ms = 11\<rparr>"

definition kept_revoked :: "fs_ledger revocations" where
  "kept_revoked = snd (revoke_certificate 11 (\<lambda>_. ''d'') ''client'' ''1'' kept_rv)"

lemmas kept_simps = fs_eval_simps kept_disk_def kept_issued_def sample_issued_def up_of_def kept_auths_def

lemma kept_starts: "server_step (\<lambda>_. ''d'') kept_auths (Restart 10) (Down kept_disk) = Up kept_rv"
  by (simp add: kept_simps kept_rv_def)

lemma kept_serial: "normalize_serial ''1'' = ''1''" "str_trim ''1'' \<noteq> []" "is_ascii_hexdigit (CHR ''1'')"
  by code_simp+

lemmas kept_revoke_simps = kept_simps kept_rv_def kept_entry_def kept_serial revoke_certificate_def issuers_of_def
  MAX_SERIAL_HEX_def rv_add_def fl_add_revocation_def add_to_list_def MAX_REVOCATIONS_def acted_def entry_id_def took_up_own_write_def

lemma kept_revokes: "revoke_certificate 11 (\<lambda>_. ''d'') ''client'' ''1'' kept_rv = (Ok kept_entry, kept_revoked)"
  by (simp add: kept_revoke_simps kept_revoked_def)

lemma kept_register: "t_issued (rv_state kept_revoked) =
   [((''0123456789abcdef'', ''1''), kept_issued ''1'' None),
    ((''0123456789abcdef'', ''2''), kept_issued ''2'' (Some (''0123456789abcdef'', ''1'')))]"
  by (simp add: kept_revoke_simps kept_revoked_def)

lemma kept_restarts: "server_step (\<lambda>_. ''d'') kept_auths (Restart 20) (Up kept_revoked)
    = Up (up_of (server_step (\<lambda>_. ''d'') kept_auths (Restart 20) (Up kept_revoked)))"
  by (simp add: kept_revoke_simps kept_revoked_def)

lemma kept_files: "files_ok {''0123456789abcdef''} {(''0123456789abcdef'', ''1''), (''0123456789abcdef'', ''2'')} Map.empty None
    (disk_content kept_disk)"
  by (auto simp: files_ok_def kept_disk_def kept_issued_def sample_issued_def cert_file_stem_def list_ok_def file_list_def bt_wf_def split: if_splits)

lemma kept_link: "((''0123456789abcdef'', ''2''), (''0123456789abcdef'', ''1'')) \<in> above (pred_of (t_issued (rv_state kept_revoked)))"
  by (simp add: kept_register above_def pred_of_def kept_issued_def sample_issued_def)


end
