(* ===== verification/Pace.thy ===== *)
theory Pace
  imports Prelude "HOL-Library.Word"
begin

unbundle bit_operations_syntax

text \<open>
  The floor on the pace of a WebSocket message (\<open>opamp/src/server/pace.rs\<close>): the reader that follows the
  frame headers of RFC 6455 as the bytes arrive, and the check once a window. An index past the header
  buffer is a panic, which is the answer \<open>None\<close>; the counters are numbers, as no connection carries
  two to the sixty-four bytes.
\<close>

section \<open>The frame reader\<close>

record progress =
  in_flight :: bool
  data_bytes :: nat
  completed :: nat

definition progress_default :: progress where
  "progress_default = \<lparr>in_flight = False, data_bytes = 0, completed = 0\<rparr>"

record parser =
  pr_progress :: progress
  pr_header :: string
  pr_have :: nat
  pr_need :: nat
  payload_left :: nat
  pr_data :: bool
  pr_fin :: bool
  message_open :: bool

definition parser_default :: parser where
  "parser_default = \<lparr>pr_progress = progress_default, pr_header = replicate 14 (CHR 0x00), pr_have = 0, pr_need = 0,
     payload_left = 0, pr_data = False, pr_fin = False, message_open = False\<rparr>"

definition frame_done :: "parser \<Rightarrow> parser" where
  "frame_done p =
     (if pr_data p \<and> pr_fin p
      then p\<lparr>message_open := False, pr_progress := (pr_progress p)\<lparr>in_flight := False, completed := completed (pr_progress p) + 1\<rparr>\<rparr>
      else p)"

definition is_data :: "char \<Rightarrow> bool" where
  "is_data b \<longleftrightarrow> byte b AND 0x08 = 0"

definition is_fin :: "char \<Rightarrow> bool" where
  "is_fin b \<longleftrightarrow> byte b AND 0x80 \<noteq> 0"

definition len7 :: "char \<Rightarrow> nat" where
  "len7 b = byte b AND 0x7F"

definition extended :: "char \<Rightarrow> nat" where
  "extended b = (if len7 b = 126 then 2 else if len7 b = 127 then 8 else 0)"

definition mask_len :: "char \<Rightarrow> nat" where
  "mask_len b = (if byte b AND 0x80 = 0 then 0 else 4)"

definition be_bytes :: "string \<Rightarrow> nat" where
  "be_bytes bs = foldl (\<lambda>n b. n * 256 + byte b) 0 bs"

definition payload_of :: "string \<Rightarrow> nat" where
  "payload_of h =
     (if len7 (h ! 1) = 126 then be_bytes (take 2 (drop 2 h))
      else if len7 (h ! 1) = 127 then be_bytes (take 8 (drop 2 h))
      else len7 (h ! 1))"

text \<open>Part of a payload arrives, at most what is left of it.\<close>

definition take_payload :: "nat \<Rightarrow> parser \<Rightarrow> parser" where
  "take_payload taken p =
     (let p1 = (if pr_data p then p\<lparr>pr_progress := (pr_progress p)\<lparr>data_bytes := data_bytes (pr_progress p) + taken\<rparr>\<rparr> else p);
          p2 = p1\<lparr>payload_left := payload_left p1 - taken\<rparr> in
      if payload_left p2 = 0 then frame_done p2 else p2)"

definition header_complete :: "parser \<Rightarrow> parser" where
  "header_complete p =
     (if pr_have p = pr_need p then
        let p1 = p\<lparr>payload_left := payload_of (pr_header p), pr_data := is_data (pr_header p ! 0), pr_fin := is_fin (pr_header p ! 0), pr_have := 0\<rparr> in
        if payload_left p1 = 0 then frame_done p1 else p1
      else p)"

definition header_byte :: "char \<Rightarrow> parser \<Rightarrow> parser option" where
  "header_byte b p =
     (if length (pr_header p) \<le> pr_have p then None
      else let p1 = p\<lparr>pr_header := (pr_header p)[pr_have p := b], pr_have := pr_have p + 1\<rparr> in
      Some (if pr_have p1 = 1 then
              (if is_data (pr_header p1 ! 0) \<and> \<not> message_open p1
               then p1\<lparr>message_open := True, pr_progress := (pr_progress p1)\<lparr>in_flight := True\<rparr>\<rparr> else p1)
            else header_complete
              (if pr_have p1 = 2 then p1\<lparr>pr_need := 2 + extended (pr_header p1 ! 1) + mask_len (pr_header p1 ! 1)\<rparr> else p1)))"

function feed :: "string \<Rightarrow> parser \<Rightarrow> parser option" where
  "feed [] p = Some p"
| "feed (b # bs) p =
     (if payload_left p > 0 then
        let taken = min (payload_left p) (length (b # bs)) in feed (drop taken (b # bs)) (take_payload taken p)
      else case header_byte b p of None \<Rightarrow> None | Some p' \<Rightarrow> feed bs p')"
  by pat_completeness auto
termination by (relation "measure (\<lambda>(bs, p). length bs)") auto

section \<open>The check once a window\<close>

record pace =
  pace_window :: nat
  min_bytes :: nat

record messages =
  mg_pace :: pace
  at_check :: progress

definition messages_new :: "pace \<Rightarrow> messages" where
  "messages_new p = \<lparr>mg_pace = p, at_check = progress_default\<rparr>"

definition pace_check :: "progress \<Rightarrow> messages \<Rightarrow> bool \<times> messages" where
  "pace_check now m =
     (in_flight now \<and> in_flight (at_check m) \<and> completed now = completed (at_check m)
        \<and> data_bytes now - data_bytes (at_check m) < min_bytes (mg_pace m),
      m\<lparr>at_check := now\<rparr>)"

definition rebase :: "progress \<Rightarrow> messages \<Rightarrow> messages" where
  "rebase now m = m\<lparr>at_check := now\<lparr>in_flight := False\<rparr>\<rparr>"

section \<open>One byte at a time\<close>

definition meter_byte :: "char \<Rightarrow> parser \<Rightarrow> parser option" where
  "meter_byte b p = (if payload_left p > 0 then Some (take_payload 1 p) else header_byte b p)"

fun meter :: "string \<Rightarrow> parser \<Rightarrow> parser option" where
  "meter [] p = Some p"
| "meter (b # bs) p = (case meter_byte b p of None \<Rightarrow> None | Some p' \<Rightarrow> meter bs p')"

lemma meter_append: "meter (xs @ ys) p = (case meter xs p of None \<Rightarrow> None | Some p' \<Rightarrow> meter ys p')"
  by (induction xs arbitrary: p) (auto split: option.splits)

lemma take_payload_split:
  assumes "0 < n" and "Suc n \<le> payload_left p"
  shows "take_payload (Suc n) p = take_payload n (take_payload 1 p)" "payload_left (take_payload 1 p) = payload_left p - 1"
  using assms by (auto simp: take_payload_def Let_def)

lemma meter_payload:
  "0 < n \<Longrightarrow> n \<le> payload_left p \<Longrightarrow> length xs = n \<Longrightarrow> meter xs p = Some (take_payload n p)"
proof (induction n arbitrary: xs p)
  case 0
  then show ?case by simp
next
  case (Suc n)
  obtain b bs where xs: "xs = b # bs" "length bs = n" using Suc.prems(3) by (cases xs) auto
  show ?case
  proof (cases "n = 0")
    case True
    then show ?thesis using xs Suc.prems by (simp add: meter_byte_def)
  next
    case False
    then have "meter bs (take_payload 1 p) = Some (take_payload n (take_payload 1 p))"
      using Suc.IH [of "take_payload 1 p" bs] xs(2) take_payload_split(2) [of n p] Suc.prems by simp
    then show ?thesis using xs False Suc.prems take_payload_split(1) [of n p] by (simp add: meter_byte_def)
  qed
qed

lemma feed_meter: "feed bs p = meter bs p"
proof (induction bs p rule: feed.induct)
  case (1 p)
  then show ?case by simp
next
  case (2 b bs p)
  show ?case
  proof (cases "payload_left p > 0")
    case True
    let ?n = "min (payload_left p) (length (b # bs))"
    have "meter (b # bs) p = meter (take ?n (b # bs) @ drop ?n (b # bs)) p" by simp
    also have "\<dots> = meter (drop ?n (b # bs)) (take_payload ?n p)"
      unfolding meter_append using True meter_payload [of ?n p "take ?n (b # bs)"] by simp
    finally show ?thesis using 2(1) [OF True refl] True by (simp add: Let_def)
  next
    case False
    then show ?thesis using 2(2) [OF False] by (auto simp: meter_byte_def split: option.splits)
  qed
qed

section \<open>Frames\<close>

text \<open>A frame as a peer sends it: the first byte, the second with the length code, the extended length and
  the masking key, and the payload.\<close>

record frame =
  f_first :: char
  f_second :: char
  f_extended :: string
  f_mask :: string
  f_payload :: string

definition frame_wf :: "frame \<Rightarrow> bool" where
  "frame_wf f \<longleftrightarrow> length (f_extended f) = extended (f_second f) \<and> length (f_mask f) = mask_len (f_second f)
     \<and> length (f_payload f) = payload_of (f_first f # f_second f # f_extended f)"

definition frame_bytes :: "frame \<Rightarrow> string" where
  "frame_bytes f = f_first f # f_second f # f_extended f @ f_mask f @ f_payload f"

definition header_len :: "frame \<Rightarrow> nat" where
  "header_len f = 2 + extended (f_second f) + mask_len (f_second f)"

text \<open>What one frame means for the progress: a data frame opens a message, its payload counts, and its
  final frame completes it.\<close>

definition frame_progress :: "frame \<Rightarrow> progress \<Rightarrow> progress" where
  "frame_progress f g =
     (if \<not> is_data (f_first f) then g
      else \<lparr>in_flight = \<not> is_fin (f_first f), data_bytes = data_bytes g + length (f_payload f),
            completed = completed g + (if is_fin (f_first f) then 1 else 0)\<rparr>)"

text \<open>Between two frames the reader waits for a header, and a message is open exactly while one is in flight.\<close>

definition between :: "parser \<Rightarrow> bool" where
  "between p \<longleftrightarrow> length (pr_header p) = 14 \<and> pr_have p = 0 \<and> payload_left p = 0
     \<and> message_open p = in_flight (pr_progress p)"

lemma extended_le: "extended b \<le> 8" "mask_len b \<le> 4"
  by (simp_all add: extended_def mask_len_def)

lemma header_rest:
  assumes "payload_left p = 0" and "2 \<le> pr_have p" and "pr_have p + length bs = pr_need p" and "bs \<noteq> []"
    and "pr_need p \<le> length (pr_header p)"
  shows "meter bs p = Some (header_complete
    (p\<lparr>pr_header := take (pr_have p) (pr_header p) @ bs @ drop (pr_need p) (pr_header p), pr_have := pr_need p\<rparr>))"
  using assms
proof (induction bs arbitrary: p)
  case Nil
  then show ?case by simp
next
  case (Cons b bs)
  let ?k = "pr_have p" and ?h = "pr_header p"
  let ?p = "p\<lparr>pr_header := ?h[?k := b], pr_have := Suc ?k\<rparr>"
  have k: "?k < length ?h" using Cons.prems by simp
  have h: "?h[?k := b] = take ?k ?h @ b # drop (Suc ?k) ?h" by (rule upd_conv_take_nth_drop [OF k])
  have step: "meter_byte b p = Some (header_complete ?p)"
    using Cons.prems k by (simp add: meter_byte_def header_byte_def Let_def)
  show ?case
  proof (cases "bs = []")
    case True
    then have "pr_need p = Suc ?k" using Cons.prems(3) by simp
    then have "?p = p\<lparr>pr_header := take ?k ?h @ (b # bs) @ drop (pr_need p) ?h, pr_have := pr_need p\<rparr>"
      using True h by simp
    then show ?thesis using step True by simp
  next
    case False
    then have "Suc ?k < pr_need p" using Cons.prems(3) by (cases bs) auto
    then have same: "header_complete ?p = ?p" by (simp add: header_complete_def)
    have "meter bs ?p = Some (header_complete
      (?p\<lparr>pr_header := take (pr_have ?p) (pr_header ?p) @ bs @ drop (pr_need ?p) (pr_header ?p), pr_have := pr_need ?p\<rparr>))"
      by (rule Cons.IH) (use Cons.prems False in auto)
    moreover have "take (Suc ?k) (?h[?k := b]) = take ?k ?h @ [b]" using k h by simp
    moreover have "drop (pr_need p) (?h[?k := b]) = drop (pr_need p) ?h" using \<open>Suc ?k < pr_need p\<close> by simp
    ultimately show ?thesis using step same by simp
  qed
qed

definition opened :: "char \<Rightarrow> parser \<Rightarrow> parser" where
  "opened b p = (if is_data b \<and> \<not> message_open p
     then p\<lparr>message_open := True, pr_progress := (pr_progress p)\<lparr>in_flight := True\<rparr>\<rparr> else p)"

lemma opened_fields [simp]:
  "pr_header (opened b p) = pr_header p" "pr_have (opened b p) = pr_have p" "payload_left (opened b p) = payload_left p"
  "pr_need (opened b p) = pr_need p"
  by (simp_all add: opened_def)

lemma header_first:
  assumes "between p"
  shows "meter_byte b p = Some (opened b (p\<lparr>pr_header := b # tl (pr_header p), pr_have := 1\<rparr>))"
proof -
  obtain x xs where h: "pr_header p = x # xs" "length xs = 13" using assms by (cases "pr_header p") (auto simp: between_def)
  then show ?thesis using assms by (simp add: meter_byte_def header_byte_def between_def Let_def opened_def)
qed

text \<open>A whole header leaves the reader at its payload.\<close>

definition at_payload :: "frame \<Rightarrow> parser \<Rightarrow> parser" where
  "at_payload f p = (opened (f_first f) p)\<lparr>payload_left := length (f_payload f), pr_data := is_data (f_first f), pr_fin := is_fin (f_first f)\<rparr>"

lemma meter_header:
  assumes "between p" and "frame_wf f"
  shows "\<exists>h n. length h = 14 \<and> meter (f_first f # f_second f # f_extended f @ f_mask f) p
    = Some (let q = at_payload f (p\<lparr>pr_header := h, pr_need := n\<rparr>) in if f_payload f = [] then frame_done q else q)"
proof -
  let ?a = "f_first f" and ?b = "f_second f" and ?rest = "f_extended f @ f_mask f"
  let ?p1 = "opened ?a (p\<lparr>pr_header := ?a # tl (pr_header p), pr_have := 1\<rparr>)"
  obtain x y xs where h: "pr_header p = x # y # xs" "length xs = 12"
    using assms(1) by (auto simp: between_def numeral_eq_Suc length_Suc_conv)
  let ?need = "2 + extended ?b + mask_len ?b"
  let ?p2 = "opened ?a (p\<lparr>pr_header := ?a # ?b # xs, pr_have := 2, pr_need := ?need\<rparr>)"
  have left: "payload_left p = 0" and have0: "pr_have p = 0" using assms(1) by (simp_all add: between_def)
  have second: "meter_byte ?b ?p1 = Some (header_complete ?p2)"
    using h left by (cases p) (simp add: meter_byte_def header_byte_def Let_def opened_def numeral_2_eq_2)
  have len: "length ?rest = extended ?b + mask_len ?b" using assms(2) by (simp add: frame_wf_def)
  have le: "?need \<le> 14" using extended_le [of ?b] by linarith
  let ?h = "?a # ?b # ?rest @ drop (?need - 2) xs"
  let ?p3 = "opened ?a (p\<lparr>pr_header := ?h, pr_have := ?need, pr_need := ?need\<rparr>)"
  have all: "meter (?a # ?b # ?rest) p = Some (header_complete ?p3)"
  proof (cases "?rest = []")
    case True
    then have "?need = 2" using len by simp
    then show ?thesis using header_first [OF assms(1)] second True by simp
  next
    case False
    then have "?need \<noteq> 2" using len by (cases "extended ?b + mask_len ?b") auto
    then have "header_complete ?p2 = ?p2" by (auto simp: header_complete_def)
    moreover have "meter ?rest ?p2 = Some (header_complete
       (?p2\<lparr>pr_header := take (pr_have ?p2) (pr_header ?p2) @ ?rest @ drop (pr_need ?p2) (pr_header ?p2), pr_have := pr_need ?p2\<rparr>))"
      by (rule header_rest) (use left len False le h(2) in simp_all)
    moreover have "?p2\<lparr>pr_header := take (pr_have ?p2) (pr_header ?p2) @ ?rest @ drop (pr_need ?p2) (pr_header ?p2), pr_have := pr_need ?p2\<rparr> = ?p3"
      by (simp add: opened_def)
    ultimately show ?thesis using header_first [OF assms(1)] second by simp
  qed
  have "payload_of ?h = length (f_payload f)"
    using assms(2) len by (auto simp: frame_wf_def payload_of_def extended_def)
  then have "header_complete ?p3 = (let q = at_payload f (p\<lparr>pr_header := ?h, pr_need := ?need\<rparr>) in if f_payload f = [] then frame_done q else q)"
    using have0 by (cases p) (simp add: header_complete_def at_payload_def opened_def Let_def)
  moreover have "length ?h = 14" using len h(2) le by simp
  ultimately show ?thesis using all by metis
qed

lemma meter_frame:
  assumes "between p" and "frame_wf f"
  shows "\<exists>p'. meter (frame_bytes f) p = Some p' \<and> between p' \<and> pr_progress p' = frame_progress f (pr_progress p)"
proof -
  obtain h n where h: "length h = 14" and head: "meter (f_first f # f_second f # f_extended f @ f_mask f) p
    = Some (let q = at_payload f (p\<lparr>pr_header := h, pr_need := n\<rparr>) in if f_payload f = [] then frame_done q else q)"
    using meter_header [OF assms] by blast
  let ?q = "at_payload f (p\<lparr>pr_header := h, pr_need := n\<rparr>)"
  have split: "frame_bytes f = (f_first f # f_second f # f_extended f @ f_mask f) @ f_payload f"
    by (simp add: frame_bytes_def)
  have "meter (frame_bytes f) p = Some (if f_payload f = [] then frame_done ?q else take_payload (length (f_payload f)) ?q)"
  proof (cases "f_payload f = []")
    case True
    then show ?thesis using head unfolding split meter_append by (simp add: Let_def)
  next
    case False
    then have "meter (f_payload f) ?q = Some (take_payload (length (f_payload f)) ?q)"
      by (intro meter_payload) (simp_all add: at_payload_def)
    then show ?thesis using head False unfolding split meter_append by (simp add: Let_def)
  qed
  moreover have "between (if f_payload f = [] then frame_done ?q else take_payload (length (f_payload f)) ?q)
     \<and> pr_progress (if f_payload f = [] then frame_done ?q else take_payload (length (f_payload f)) ?q) = frame_progress f (pr_progress p)"
    using assms(1) h
    by (auto simp: between_def at_payload_def opened_def frame_done_def take_payload_def frame_progress_def Let_def)
  ultimately show ?thesis by blast
qed

fun frames_progress :: "frame list \<Rightarrow> progress \<Rightarrow> progress" where
  "frames_progress [] g = g"
| "frames_progress (f # fs) g = frames_progress fs (frame_progress f g)"

lemma meter_frames:
  "between p \<Longrightarrow> list_all frame_wf fs \<Longrightarrow>
   \<exists>p'. meter (concat (map frame_bytes fs)) p = Some p' \<and> between p' \<and> pr_progress p' = frames_progress fs (pr_progress p)"
proof (induction fs arbitrary: p)
  case Nil
  then show ?case by simp
next
  case (Cons f fs)
  obtain p' where p': "meter (frame_bytes f) p = Some p'" "between p'" "pr_progress p' = frame_progress f (pr_progress p)"
    using meter_frame [of p f] Cons.prems by auto
  from Cons.IH [OF p'(2)] Cons.prems(2) p' show ?case by (simp add: meter_append)
qed

text \<open>Whatever arrives, no index leaves the header buffer.\<close>

definition reader_ok :: "parser \<Rightarrow> bool" where
  "reader_ok p \<longleftrightarrow> length (pr_header p) = 14 \<and> (pr_have p < 2 \<or> (pr_have p < pr_need p \<and> pr_need p \<le> 14))"

lemma reader_ok_default: "reader_ok parser_default"
  by (simp add: reader_ok_def parser_default_def)

lemma reader_ok_done: "reader_ok p \<Longrightarrow> reader_ok (frame_done p)"
  by (simp add: reader_ok_def frame_done_def)

lemma header_complete_ok:
  "length (pr_header p) = 14 \<Longrightarrow> pr_have p \<le> pr_need p \<Longrightarrow> pr_need p \<le> 14 \<Longrightarrow> reader_ok (header_complete p)"
  by (auto simp: header_complete_def Let_def reader_ok_def frame_done_def)

lemma header_byte_ok:
  assumes "reader_ok p"
  shows "\<exists>p'. header_byte b p = Some p' \<and> reader_ok p'"
proof -
  have room: "pr_have p < 14" using assms by (auto simp: reader_ok_def)
  show ?thesis
  proof (cases "pr_have p = 0")
    case True
    then show ?thesis using assms room by (simp add: header_byte_def reader_ok_def Let_def)
  next
    case False
    let ?p = "p\<lparr>pr_header := (pr_header p)[pr_have p := b], pr_have := pr_have p + 1\<rparr>"
    let ?q = "if pr_have ?p = 2 then ?p\<lparr>pr_need := 2 + extended (pr_header ?p ! 1) + mask_len (pr_header ?p ! 1)\<rparr> else ?p"
    have "reader_ok (header_complete ?q)"
      using assms False extended_le [of "pr_header ?p ! 1"] by (intro header_complete_ok) (auto simp: reader_ok_def)
    moreover have "header_byte b p = Some (header_complete ?q)"
      using assms room False by (simp add: header_byte_def reader_ok_def Let_def)
    ultimately show ?thesis by blast
  qed
qed

lemma meter_ok: "reader_ok p \<Longrightarrow> \<exists>p'. meter bs p = Some p' \<and> reader_ok p'"
proof (induction bs arbitrary: p)
  case Nil
  then show ?case by simp
next
  case (Cons b bs)
  have "\<exists>p'. meter_byte b p = Some p' \<and> reader_ok p'"
  proof (cases "payload_left p > 0")
    case True
    then show ?thesis using Cons.prems by (simp add: meter_byte_def take_payload_def Let_def reader_ok_def frame_done_def)
  next
    case False
    then show ?thesis using header_byte_ok [OF Cons.prems] by (simp add: meter_byte_def)
  qed
  then show ?case using Cons.IH by fastforce
qed

text \<open>The reads of one socket, as the stream hands them out.\<close>

fun feed_all :: "string list \<Rightarrow> parser \<Rightarrow> parser option" where
  "feed_all [] p = Some p"
| "feed_all (c # cs) p = (case feed c p of None \<Rightarrow> None | Some p' \<Rightarrow> feed_all cs p')"

lemma feed_all_meter: "feed_all cs p = meter (concat cs) p"
  by (induction cs arbitrary: p) (auto simp: feed_meter meter_append split: option.splits)

abbreviation data_frames :: "frame list \<Rightarrow> frame list" where
  "data_frames fs \<equiv> filter (\<lambda>f. is_data (f_first f)) fs"

lemma frames_progress_counts:
  "data_bytes (frames_progress fs g) = data_bytes g + sum_list (map (\<lambda>f. length (f_payload f)) (data_frames fs))
   \<and> completed (frames_progress fs g) = completed g + length (filter (\<lambda>f. is_fin (f_first f)) (data_frames fs))
   \<and> in_flight (frames_progress fs g) = (if data_frames fs = [] then in_flight g else \<not> is_fin (f_first (last (data_frames fs))))"
  by (induction fs arbitrary: g) (auto simp: frame_progress_def filter_empty_conv)


definition fragmented :: "frame list" where
  "fragmented =
     [\<lparr>f_first = CHR 0x02, f_second = CHR 0x82, f_extended = [], f_mask = ''abcd'', f_payload = ''xy''\<rparr>,
      \<lparr>f_first = CHR 0x89, f_second = CHR 0x80, f_extended = [], f_mask = ''abcd'', f_payload = []\<rparr>,
      \<lparr>f_first = CHR 0x80, f_second = CHR 0x81, f_extended = [], f_mask = ''abcd'', f_payload = ''z''\<rparr>]"

lemma fragmented_wf: "list_all frame_wf fragmented"
  by code_simp


end
