(* ===== verification/Opamp_Messages.thy ===== *)
theory Opamp_Messages
  imports Labels "HOL-Library.Word"
begin

unbundle bit_operations_syntax

text \<open>
  The messages of the protocol (\<open>opamp/proto/v0.20.0/opamp/v1/opamp.proto\<close>) as the generated Rust
  types hold them: an unset message field is \<open>None\<close>, a map is kept in the order of its keys, an
  enumeration is the number on the wire, a bit mask is a 64-bit word and bytes are a string.
\<close>

section \<open>What an Agent reports\<close>

datatype component_details = ComponentDetails "key_value list" "(string \<times> component_details) list"

record available_components =
  ac_components :: "(string, component_details) btree"
  ac_hash :: string

text \<open>Healthy, start time, last error, status, status time, the sub-components and the attributes.\<close>

datatype component_health =
  ComponentHealth bool nat string string nat "(string \<times> component_health) list" "key_value list"

record agent_config_object =
  co_body :: string
  co_content_type :: string
  co_role :: string

record agent_config_map =
  config_map :: "(string, agent_config_object) btree"

record effective_config =
  ef_config_map :: "agent_config_map option"

record remote_config_status =
  last_remote_config_hash :: string
  rcs_status :: int
  rcs_error_message :: string

record connection_settings_status =
  last_connection_settings_hash :: string
  css_status :: int
  css_error_message :: string

definition ConnectionSettingsStatuses_APPLYING :: int where "ConnectionSettingsStatuses_APPLYING = 2"
definition ConnectionSettingsStatuses_FAILED :: int where "ConnectionSettingsStatuses_FAILED = 3"

text \<open>The two doubles of the details are their 64 bits.\<close>

record package_download_details =
  download_percent :: "64 word"
  download_bytes_per_second :: "64 word"

record package_status =
  pst_name :: string
  agent_has_version :: string
  agent_has_hash :: string
  server_offered_version :: string
  server_offered_hash :: string
  pst_status :: int
  pst_error_message :: string
  download_details :: "package_download_details option"

definition PackageStatusEnum_Installed :: int where "PackageStatusEnum_Installed = 0"
definition PackageStatusEnum_InstallFailed :: int where "PackageStatusEnum_InstallFailed = 3"

record package_statuses =
  pss_packages :: "(string, package_status) btree"
  server_provided_all_packages_hash :: string
  pss_error_message :: string

record certificate_request =
  csr :: string

record opamp_connection_settings_request =
  certificate_request :: "certificate_request option"

record connection_settings_request =
  csq_opamp :: "opamp_connection_settings_request option"

record custom_capabilities =
  cc_capabilities :: "string list"

record custom_message =
  cm_capability :: string
  cm_type :: string
  cm_data :: string

record agent_to_server =
  a2s_instance_uid :: string
  a2s_sequence_num :: "64 word"
  a2s_agent_description :: "agent_description option"
  a2s_capabilities :: "64 word"
  a2s_health :: "component_health option"
  a2s_effective_config :: "effective_config option"
  a2s_remote_config_status :: "remote_config_status option"
  a2s_package_statuses :: "package_statuses option"
  a2s_agent_disconnect :: bool
  a2s_flags :: "64 word"
  a2s_connection_settings_request :: "connection_settings_request option"
  a2s_custom_capabilities :: "custom_capabilities option"
  a2s_custom_message :: "custom_message option"
  a2s_available_components :: "available_components option"
  a2s_connection_settings_status :: "connection_settings_status option"

text \<open>\<open>..Default::default()\<close>.\<close>

definition no_report :: agent_to_server where
  "no_report =
     \<lparr>a2s_instance_uid = [], a2s_sequence_num = 0, a2s_agent_description = None, a2s_capabilities = 0,
      a2s_health = None, a2s_effective_config = None, a2s_remote_config_status = None,
      a2s_package_statuses = None, a2s_agent_disconnect = False, a2s_flags = 0,
      a2s_connection_settings_request = None, a2s_custom_capabilities = None, a2s_custom_message = None,
      a2s_available_components = None, a2s_connection_settings_status = None\<rparr>"

definition AgentToServerFlags_RequestInstanceUid :: "64 word" where "AgentToServerFlags_RequestInstanceUid = 1"

section \<open>What a Server answers\<close>

record header =
  h_key :: string
  h_value :: string

record tls_certificate =
  tc_cert :: string
  tc_private_key :: string
  tc_ca_cert :: string

record tls_connection_settings =
  ca_pem_contents :: string
  include_system_ca_certs_pool :: bool
  insecure_skip_verify :: bool
  min_version :: string
  max_version :: string
  cipher_suites :: "string list"

record proxy_connection_settings =
  proxy_url :: string
  connect_headers :: "header list option"

record opamp_connection_settings =
  ocs_destination_endpoint :: string
  ocs_headers :: "header list option"
  ocs_certificate :: "tls_certificate option"
  heartbeat_interval_seconds :: nat
  ocs_tls :: "tls_connection_settings option"
  ocs_proxy :: "proxy_connection_settings option"

definition no_settings :: opamp_connection_settings where
  "no_settings =
     \<lparr>ocs_destination_endpoint = [], ocs_headers = None, ocs_certificate = None,
      heartbeat_interval_seconds = 0, ocs_tls = None, ocs_proxy = None\<rparr>"

record telemetry_connection_settings =
  tcs_destination_endpoint :: string
  tcs_headers :: "header list option"
  tcs_certificate :: "tls_certificate option"
  tcs_tls :: "tls_connection_settings option"
  tcs_proxy :: "proxy_connection_settings option"

record other_connection_settings =
  xcs_destination_endpoint :: string
  xcs_headers :: "header list option"
  xcs_certificate :: "tls_certificate option"
  other_settings :: "(string, string) btree"
  xcs_tls :: "tls_connection_settings option"
  xcs_proxy :: "proxy_connection_settings option"

record connection_settings_offers =
  cso_hash :: string
  cso_opamp :: "opamp_connection_settings option"
  cso_own_metrics :: "telemetry_connection_settings option"
  cso_own_traces :: "telemetry_connection_settings option"
  cso_own_logs :: "telemetry_connection_settings option"
  cso_other_connections :: "(string, other_connection_settings) btree"

record downloadable_file =
  download_url :: string
  df_content_hash :: string
  df_signature :: string
  df_headers :: "header list option"

definition PackageType_TopLevel :: int where "PackageType_TopLevel = 0"

record package_available =
  pa_type :: int
  pa_version :: string
  pa_file :: "downloadable_file option"
  pa_hash :: string

record packages_available =
  pav_packages :: "(string, package_available) btree"
  all_packages_hash :: string

text \<open>The one alternative of the details is the time to wait, in nanoseconds.\<close>

record server_error_response =
  ser_type :: int
  ser_error_message :: string
  ser_retry_info :: "nat option"

definition ServerErrorResponseType_BadRequest :: int where "ServerErrorResponseType_BadRequest = 1"
definition ServerErrorResponseType_Unavailable :: int where "ServerErrorResponseType_Unavailable = 2"

definition CommandType_Restart :: int where "CommandType_Restart = 0"

record agent_remote_config =
  arc_config :: "agent_config_map option"
  config_hash :: string

record server_to_agent =
  s2a_instance_uid :: string
  s2a_error_response :: "server_error_response option"
  s2a_remote_config :: "agent_remote_config option"
  s2a_connection_settings :: "connection_settings_offers option"
  s2a_packages_available :: "packages_available option"
  s2a_flags :: "64 word"
  s2a_capabilities :: "64 word"
  s2a_agent_identification :: "string option"
  s2a_command :: "int option"
  s2a_custom_capabilities :: "custom_capabilities option"
  s2a_custom_message :: "custom_message option"

definition no_reply :: server_to_agent where
  "no_reply =
     \<lparr>s2a_instance_uid = [], s2a_error_response = None, s2a_remote_config = None,
      s2a_connection_settings = None, s2a_packages_available = None, s2a_flags = 0, s2a_capabilities = 0,
      s2a_agent_identification = None, s2a_command = None, s2a_custom_capabilities = None,
      s2a_custom_message = None\<rparr>"

definition ServerToAgentFlags_ReportFullState :: "64 word" where "ServerToAgentFlags_ReportFullState = 1"
definition ServerToAgentFlags_ReportAvailableComponents :: "64 word" where "ServerToAgentFlags_ReportAvailableComponents = 2"

section \<open>Capabilities\<close>

definition ServerCapabilities_AcceptsStatus :: "64 word" where "ServerCapabilities_AcceptsStatus = 0x01"
definition ServerCapabilities_OffersRemoteConfig :: "64 word" where "ServerCapabilities_OffersRemoteConfig = 0x02"
definition ServerCapabilities_AcceptsEffectiveConfig :: "64 word" where "ServerCapabilities_AcceptsEffectiveConfig = 0x04"
definition ServerCapabilities_OffersPackages :: "64 word" where "ServerCapabilities_OffersPackages = 0x08"
definition ServerCapabilities_AcceptsPackagesStatus :: "64 word" where "ServerCapabilities_AcceptsPackagesStatus = 0x10"
definition ServerCapabilities_OffersConnectionSettings :: "64 word" where "ServerCapabilities_OffersConnectionSettings = 0x20"
definition ServerCapabilities_AcceptsConnectionSettingsRequest :: "64 word" where
  "ServerCapabilities_AcceptsConnectionSettingsRequest = 0x40"

lemmas server_capability_defs =
  ServerCapabilities_AcceptsStatus_def ServerCapabilities_OffersRemoteConfig_def
  ServerCapabilities_AcceptsEffectiveConfig_def ServerCapabilities_OffersPackages_def
  ServerCapabilities_AcceptsPackagesStatus_def ServerCapabilities_OffersConnectionSettings_def
  ServerCapabilities_AcceptsConnectionSettingsRequest_def

definition AgentCapabilities_AcceptsRemoteConfig :: "64 word" where "AgentCapabilities_AcceptsRemoteConfig = 0x0002"
definition AgentCapabilities_AcceptsPackages :: "64 word" where "AgentCapabilities_AcceptsPackages = 0x0008"
definition AgentCapabilities_ReportsOwnTraces :: "64 word" where "AgentCapabilities_ReportsOwnTraces = 0x0020"
definition AgentCapabilities_ReportsOwnMetrics :: "64 word" where "AgentCapabilities_ReportsOwnMetrics = 0x0040"
definition AgentCapabilities_ReportsOwnLogs :: "64 word" where "AgentCapabilities_ReportsOwnLogs = 0x0080"
definition AgentCapabilities_AcceptsOpAmpConnectionSettings :: "64 word" where
  "AgentCapabilities_AcceptsOpAmpConnectionSettings = 0x0100"
definition AgentCapabilities_AcceptsRestartCommand :: "64 word" where "AgentCapabilities_AcceptsRestartCommand = 0x0400"
definition AgentCapabilities_ReportsHeartbeat :: "64 word" where "AgentCapabilities_ReportsHeartbeat = 0x2000"
definition AgentCapabilities_ReportsAvailableComponents :: "64 word" where
  "AgentCapabilities_ReportsAvailableComponents = 0x4000"

text \<open>\<open>caps & capability != 0\<close>.\<close>

definition declared :: "64 word \<Rightarrow> 64 word \<Rightarrow> bool" where
  "declared caps capability \<longleftrightarrow> caps AND capability \<noteq> 0"

lemma declared_or [simp]: "declared (a OR b) c \<longleftrightarrow> declared a c \<or> declared b c"
  by (auto simp: declared_def bit_eq_iff bit_simps)

lemma declared_zero [simp]: "\<not> declared 0 c"
  by (simp add: declared_def)

end
