(* ===== verification/Agent_Protocol.thy ===== *)
theory Agent_Protocol
  imports Opamp_Messages
begin

text \<open>
  One Agent's side of the protocol (\<open>opamp/src/client/protocol.rs\<close>): which fields a report carries and
  what a reply means for the protocol. What a report holds is the application's: it supplies a
  \<open>report_content\<close> and is handed a \<open>received\<close>. The sequence number is a 64-bit word.
\<close>

section \<open>The state\<close>

text \<open>The wire form of an identity is its sixteen bytes; \<open>None\<close> for any other length.\<close>

definition from_wire :: "string \<Rightarrow> string option" where
  "from_wire bytes = (if length bytes = 16 then Some bytes else None)"

record report_content =
  rc_description :: "string \<Rightarrow> agent_description"
  rc_health :: component_health
  rc_effective_config :: effective_config
  rc_package_statuses :: "package_statuses option"
  rc_available_components :: "available_components option"

record received =
  report_now :: bool
  retry_after_ns :: "nat option"
  rcv_command :: "int option"
  new_uid :: "string option"
  components_requested :: bool
  rcv_remote_config :: "agent_remote_config option"
  rcv_connection_settings :: "connection_settings_offers option"
  rcv_packages_available :: "packages_available option"

definition no_received :: received where
  "no_received =
     \<lparr>report_now = False, retry_after_ns = None, rcv_command = None, new_uid = None, components_requested = False,
      rcv_remote_config = None, rcv_connection_settings = None, rcv_packages_available = None\<rparr>"

record agent_protocol =
  ap_uid :: string
  ap_sequence_num :: "64 word"
  ap_capabilities :: "64 word"
  server_capabilities :: "64 word option"
  settings_offered :: bool
  ap_remote_config_status :: "remote_config_status option"
  ap_connection_settings_status :: "connection_settings_status option"
  pending_csr :: "string option"
  send_full :: bool
  send_config_status :: bool
  send_health :: bool
  send_components_full :: bool
  send_settings_status :: bool
  send_package_status :: bool

definition protocol_new :: "string \<Rightarrow> 64 word \<Rightarrow> agent_protocol" where
  "protocol_new uid capabilities =
     \<lparr>ap_uid = uid, ap_sequence_num = 0, ap_capabilities = capabilities, server_capabilities = None,
      settings_offered = False, ap_remote_config_status = None, ap_connection_settings_status = None,
      pending_csr = None, send_full = True, send_config_status = False, send_health = False,
      send_components_full = False, send_settings_status = False, send_package_status = False\<rparr>"

section \<open>What the application tells\<close>

definition declare_capability :: "64 word \<Rightarrow> agent_protocol \<Rightarrow> agent_protocol" where
  "declare_capability capability ap = ap\<lparr>ap_capabilities := ap_capabilities ap OR capability\<rparr>"

definition declares :: "agent_protocol \<Rightarrow> 64 word \<Rightarrow> bool" where
  "declares ap capability = declared (ap_capabilities ap) capability"

definition force_full :: "agent_protocol \<Rightarrow> agent_protocol" where
  "force_full ap = ap\<lparr>send_full := True\<rparr>"

definition set_remote_config_status :: "remote_config_status \<Rightarrow> agent_protocol \<Rightarrow> agent_protocol" where
  "set_remote_config_status status ap = ap\<lparr>ap_remote_config_status := Some status, send_config_status := True\<rparr>"

definition restore_remote_config_status :: "remote_config_status \<Rightarrow> agent_protocol \<Rightarrow> agent_protocol" where
  "restore_remote_config_status status ap = ap\<lparr>ap_remote_config_status := Some status\<rparr>"

definition effective_config_changed :: "agent_protocol \<Rightarrow> agent_protocol" where
  "effective_config_changed ap = ap\<lparr>send_config_status := True\<rparr>"

definition health_changed :: "agent_protocol \<Rightarrow> agent_protocol" where
  "health_changed ap = ap\<lparr>send_health := True\<rparr>"

definition package_status_changed :: "agent_protocol \<Rightarrow> agent_protocol" where
  "package_status_changed ap = ap\<lparr>send_package_status := True\<rparr>"

definition set_connection_settings_status :: "connection_settings_status \<Rightarrow> bool \<Rightarrow> agent_protocol \<Rightarrow> agent_protocol" where
  "set_connection_settings_status status owed ap =
     (let ap = ap\<lparr>ap_connection_settings_status := Some status\<rparr> in
      if owed then ap\<lparr>send_settings_status := True\<rparr> else ap)"

definition owe_components_full :: "agent_protocol \<Rightarrow> agent_protocol" where
  "owe_components_full ap = ap\<lparr>send_components_full := True\<rparr>"

definition request_certificate :: "string \<Rightarrow> agent_protocol \<Rightarrow> agent_protocol" where
  "request_certificate c ap = ap\<lparr>pending_csr := Some c\<rparr>"

section \<open>What the Server accepts\<close>

definition server_declared :: "agent_protocol \<Rightarrow> 64 word \<Rightarrow> bool" where
  "server_declared ap capability =
     (case server_capabilities ap of None \<Rightarrow> False | Some caps \<Rightarrow> declared caps capability)"

definition server_accepts :: "agent_protocol \<Rightarrow> 64 word \<Rightarrow> bool" where
  "server_accepts ap capability =
     (case server_capabilities ap of None \<Rightarrow> True | Some caps \<Rightarrow> declared caps capability)"

definition server_accepts_connection_settings_status :: "agent_protocol \<Rightarrow> bool" where
  "server_accepts_connection_settings_status ap \<longleftrightarrow>
     settings_offered ap \<or> server_accepts ap ServerCapabilities_OffersConnectionSettings"

section \<open>Reports\<close>

definition csr_of :: "string \<Rightarrow> connection_settings_request" where
  "csr_of c = \<lparr>csq_opamp = Some \<lparr>certificate_request = Some \<lparr>csr = c\<rparr>\<rparr>\<rparr>"

text \<open>Every report counts on, and names the Agent and its capabilities.\<close>

definition counted :: "agent_protocol \<Rightarrow> agent_protocol" where
  "counted ap = ap\<lparr>ap_sequence_num := ap_sequence_num ap + 1\<rparr>"

definition addressed :: "agent_protocol \<Rightarrow> agent_to_server" where
  "addressed ap = no_report\<lparr>a2s_instance_uid := ap_uid ap, a2s_sequence_num := ap_sequence_num ap,
     a2s_capabilities := ap_capabilities ap\<rparr>"

definition settled :: "agent_protocol \<Rightarrow> agent_protocol" where
  "settled ap = ap\<lparr>pending_csr := None, send_full := False, send_config_status := False, send_health := False,
     send_components_full := False, send_settings_status := False, send_package_status := False\<rparr>"

definition components_part :: "agent_protocol \<Rightarrow> report_content \<Rightarrow> available_components option" where
  "components_part ap content =
     (case rc_available_components content of
        None \<Rightarrow> None
      | Some components \<Rightarrow>
          if send_components_full ap then Some components
          else if send_full ap then Some \<lparr>ac_components = [], ac_hash = ac_hash components\<rparr>
          else None)"

definition next_report :: "report_content \<Rightarrow> agent_protocol \<Rightarrow> agent_to_server \<times> agent_protocol" where
  "next_report content ap0 =
     (let ap = counted ap0 in
      ((addressed ap)
        \<lparr>a2s_agent_description := (if send_full ap then Some (rc_description content (ap_uid ap)) else None),
         a2s_health := (if send_full ap \<or> send_health ap then Some (rc_health content) else None),
         a2s_remote_config_status := (if send_full ap \<or> send_config_status ap then ap_remote_config_status ap else None),
         a2s_effective_config :=
           (if (send_full ap \<or> send_config_status ap) \<and> server_accepts ap ServerCapabilities_AcceptsEffectiveConfig
            then Some (rc_effective_config content) else None),
         a2s_connection_settings_status :=
           (if server_accepts_connection_settings_status ap \<and> (send_full ap \<or> send_settings_status ap)
            then ap_connection_settings_status ap else None),
         a2s_connection_settings_request := map_option csr_of (pending_csr ap),
         a2s_package_statuses :=
           (if server_accepts ap ServerCapabilities_AcceptsPackagesStatus \<and> (send_full ap \<or> send_package_status ap)
            then rc_package_statuses content else None),
         a2s_available_components := components_part ap content\<rparr>,
       settled ap))"

definition csr_report :: "string \<Rightarrow> agent_protocol \<Rightarrow> agent_to_server \<times> agent_protocol" where
  "csr_report c ap0 =
     (let ap = counted ap0 in ((addressed ap)\<lparr>a2s_connection_settings_request := Some (csr_of c)\<rparr>, ap))"

definition disconnect_message :: "agent_protocol \<Rightarrow> agent_to_server \<times> agent_protocol" where
  "disconnect_message ap0 = (let ap = counted ap0 in ((addressed ap)\<lparr>a2s_agent_disconnect := True\<rparr>, ap))"

section \<open>Replies\<close>

definition take_capabilities :: "server_to_agent \<Rightarrow> agent_protocol \<Rightarrow> agent_protocol" where
  "take_capabilities reply ap =
     (if s2a_capabilities reply \<noteq> 0 then ap\<lparr>server_capabilities := Some (s2a_capabilities reply)\<rparr> else ap)"

definition error_received :: "server_error_response \<Rightarrow> received" where
  "error_received response =
     (if ser_type response = ServerErrorResponseType_Unavailable
      then no_received\<lparr>retry_after_ns := Some (case ser_retry_info response of Some ns \<Rightarrow> ns | None \<Rightarrow> 30000000000)\<rparr>
      else no_received)"

definition adopted :: "server_to_agent \<Rightarrow> string option" where
  "adopted reply = (case s2a_agent_identification reply of None \<Rightarrow> None | Some uid \<Rightarrow> from_wire uid)"

definition receive :: "server_to_agent \<Rightarrow> agent_protocol \<Rightarrow> received \<times> agent_protocol" where
  "receive reply ap0 =
     (let ap = take_capabilities reply ap0 in
      case s2a_command reply of
        Some command \<Rightarrow> (no_received\<lparr>rcv_command := Some command\<rparr>, ap)
      | None \<Rightarrow>
     (case s2a_error_response reply of
        Some response \<Rightarrow> (error_received response, ap)
      | None \<Rightarrow>
          let full = s2a_flags reply AND ServerToAgentFlags_ReportFullState \<noteq> 0;
              ap1 = (case adopted reply of None \<Rightarrow> ap | Some uid \<Rightarrow> ap\<lparr>ap_uid := uid\<rparr>);
              ap2 = (if full then ap1\<lparr>send_full := True\<rparr> else ap1);
              ap3 = (if s2a_connection_settings reply \<noteq> None then ap2\<lparr>settings_offered := True\<rparr> else ap2) in
          (\<lparr>report_now = full, retry_after_ns = None, rcv_command = None, new_uid = adopted reply,
            components_requested = (s2a_flags reply AND ServerToAgentFlags_ReportAvailableComponents \<noteq> 0),
            rcv_remote_config = s2a_remote_config reply,
            rcv_connection_settings = s2a_connection_settings reply,
            rcv_packages_available = s2a_packages_available reply\<rparr>, ap3)))"

end
