(* ===== verification/Package_Store.thy ===== *)
theory Package_Store
  imports Deployments Configs Opamp_Messages "HOL-Library.Product_Lexorder"
begin

text \<open>
  The package store (\<open>fleet-server/src/packages.rs\<close>, \<open>blobs.rs\<close>, \<open>fs/packages.rs\<close>, \<open>fs/blobs.rs\<close>): Packages
  with one entry per platform, each naming its artifact by hash, the blobs that hold the artifacts, and
  what an Agent is offered. A Package is keyed by its type and version and an entry by its platform, in
  the order of the derived \<open>Ord\<close>. SHA-256 is a parameter. \<open>put_entry_from\<close>, \<open>delete_entry\<close> and the sweep
  are given in the parts between which other threads may run. Locking the blob store against other
  Servers and cleaning the staging objects of others are the database's: over the files they do nothing.
\<close>

section \<open>Packages\<close>

type_synonym key2 = "string \<times> string"

definition pkey :: "package_id \<Rightarrow> key2" where
  "pkey i = (agent_type i, pkg_version i)"

definition plat_key :: "platform \<Rightarrow> key2" where
  "plat_key p = (os p, arch p)"

record package =
  pk_id :: package_id
  pk_entries :: "(key2, package_entry) btree"

type_synonym package_sets = "(key2, package) btree"

definition package_hash :: "(string \<Rightarrow> string) \<Rightarrow> package \<Rightarrow> package_entry \<Rightarrow> string" where
  "package_hash sha256 p e = sha256 (field (pkg_version (pk_id p)) @ content_hash e)"

definition to_available :: "(string \<Rightarrow> string) \<Rightarrow> package \<Rightarrow> package_entry \<Rightarrow> string \<Rightarrow> package_available" where
  "to_available sha256 p e signature =
     \<lparr>pa_type = PackageType_TopLevel, pa_version = pkg_version (pk_id p),
      pa_file = Some
        \<lparr>download_url = ''/api/v1/packages/'' @ agent_type (pk_id p) @ ''/'' @ pkg_version (pk_id p)
           @ ''/file?os='' @ os (entry_platform e) @ ''&arch='' @ arch (entry_platform e),
         df_content_hash = content_hash e, df_signature = signature, df_headers = None\<rparr>,
      pa_hash = package_hash sha256 p e\<rparr>"

definition aggregate_hash :: "(string \<Rightarrow> string) \<Rightarrow> package \<Rightarrow> package_entry \<Rightarrow> string" where
  "aggregate_hash sha256 p e = sha256 (field (agent_type (pk_id p)) @ package_hash sha256 p e)"

section \<open>What an Agent is offered\<close>

definition reported_agent_type :: "agent_description option \<Rightarrow> string option" where
  "reported_agent_type description =
     (case description of None \<Rightarrow> None | Some d \<Rightarrow> string_value (identifying_attributes d) ''service.name'')"

definition reported_service_version :: "agent_description option \<Rightarrow> string option" where
  "reported_service_version description =
     (case description of
        None \<Rightarrow> None
      | Some d \<Rightarrow>
          (case string_value (identifying_attributes d) ''service.version'' of
             Some v \<Rightarrow> if v \<noteq> [] then Some v else None
           | None \<Rightarrow> None))"

definition fits_artifact :: "agent_description option \<Rightarrow> package_id \<Rightarrow> platform \<Rightarrow> bool" where
  "fits_artifact description i p \<longleftrightarrow>
     reported_agent_type description = Some (agent_type i) \<and> platform_reported description = Some p"

definition offered_entry ::
  "package_sets \<Rightarrow> package_id option \<Rightarrow> agent_description option \<Rightarrow> (package \<times> package_entry \<times> string) option" where
  "offered_entry sets assigned description =
     (case assigned of
        None \<Rightarrow> None
      | Some i \<Rightarrow>
     (case map_of sets (pkey i) of
        None \<Rightarrow> None
      | Some p \<Rightarrow>
     (case platform_reported description of
        None \<Rightarrow> None
      | Some plat \<Rightarrow>
          if \<not> fits_artifact description (pk_id p) plat then None
          else
     (case map_of (pk_entries p) (plat_key plat) of
        None \<Rightarrow> None
      | Some e \<Rightarrow> (case entry_signature e of None \<Rightarrow> None | Some sig \<Rightarrow> Some (p, e, sig))))))"

definition offer_for_assigned ::
  "(string \<Rightarrow> string) \<Rightarrow> package_sets \<Rightarrow> package_id option \<Rightarrow> agent_description option \<Rightarrow> packages_available option" where
  "offer_for_assigned sha256 sets assigned description =
     (case offered_entry sets assigned description of
        None \<Rightarrow> None
      | Some (p, e, sig) \<Rightarrow>
          Some \<lparr>pav_packages = [(agent_type (pk_id p), to_available sha256 p e sig)],
                all_packages_hash = aggregate_hash sha256 p e\<rparr>)"

definition assigned_hash_for ::
  "(string \<Rightarrow> string) \<Rightarrow> package_sets \<Rightarrow> package_id option \<Rightarrow> agent_description option \<Rightarrow> string" where
  "assigned_hash_for sha256 sets assigned description =
     (case offered_entry sets assigned description of None \<Rightarrow> [] | Some (p, e, _) \<Rightarrow> aggregate_hash sha256 p e)"

record offerable =
  ofr_id :: package_id
  ofr_platform :: platform

definition offerable_of :: "package_sets \<Rightarrow> package_id \<Rightarrow> platform \<Rightarrow> offerable option" where
  "offerable_of sets i plat =
     (case map_of sets (pkey i) of
        None \<Rightarrow> None
      | Some p \<Rightarrow>
     (case map_of (pk_entries p) (plat_key plat) of
        None \<Rightarrow> None
      | Some e \<Rightarrow> if entry_signature e \<noteq> None then Some \<lparr>ofr_id = i, ofr_platform = plat\<rparr> else None))"

definition offered_to :: "offerable \<Rightarrow> package_id option \<Rightarrow> agent_description option \<Rightarrow> bool" where
  "offered_to a assigned description \<longleftrightarrow> assigned = Some (ofr_id a) \<and> fits_artifact description (ofr_id a) (ofr_platform a)"

section \<open>What a rollout would release\<close>

type_synonym installed_versions = "(string, string) btree"

definition claimed_version :: "package \<Rightarrow> installed_versions \<Rightarrow> string option" where
  "claimed_version p installed =
     (case map_of installed (agent_type (pk_id p)) of
        None \<Rightarrow> None | Some has \<Rightarrow> if has \<noteq> [] then Some has else None)"

definition greater :: "package \<Rightarrow> string \<Rightarrow> bool" where
  "greater p has \<longleftrightarrow> precedence (pkg_version (pk_id p)) has = Some Greater"

definition running_version :: "agent_description option \<Rightarrow> string option" where
  "running_version description =
     (case reported_service_version description of
        None \<Rightarrow> None | Some v \<Rightarrow> if parse v \<noteq> None then Some v else None)"

definition upgrades :: "package \<Rightarrow> installed_versions \<Rightarrow> agent_description option \<Rightarrow> bool" where
  "upgrades p installed description =
     (case running_version description of
        Some running \<Rightarrow> greater p running
      | None \<Rightarrow> (case claimed_version p installed of Some claimed \<Rightarrow> greater p claimed | None \<Rightarrow> True))"

definition resolve_release ::
  "package_sets \<Rightarrow> deployment \<Rightarrow> agent_description option \<Rightarrow> installed_versions \<Rightarrow> (package \<times> package_entry) option" where
  "resolve_release sets d description installed =
     (case platform_reported description of
        None \<Rightarrow> None
      | Some plat \<Rightarrow>
     (case reported_agent_type description of
        None \<Rightarrow> None
      | Some ty \<Rightarrow>
     (case package_for d ty of
        None \<Rightarrow> None
      | Some i \<Rightarrow>
     (case map_of sets (pkey i) of
        None \<Rightarrow> None
      | Some p \<Rightarrow>
          if \<not> package_is_semver (pk_id p) then None
          else
     (case map_of (pk_entries p) (plat_key plat) of
        None \<Rightarrow> None
      | Some e \<Rightarrow> if upgrades p installed description then Some (p, e) else None)))))"

definition candidate :: "package_sets \<Rightarrow> deployment \<Rightarrow> agent_description option \<Rightarrow> installed_versions \<Rightarrow> package_id option" where
  "candidate sets d description installed =
     map_option (\<lambda>(p, _). pk_id p) (resolve_release sets d description installed)"

datatype misfit =
    NoPackageSet package_id | NoCandidate package_id | NoEntries package_id | NoPlatform package_id
  | OtherType package_id | NoEntryFor package_id platform | NoUpgrade package_id "string option" "string option"

definition fits_agent :: "package_sets \<Rightarrow> package_id \<Rightarrow> agent_description option \<Rightarrow> installed_versions \<Rightarrow> misfit + unit" where
  "fits_agent sets i description installed =
     (case map_of sets (pkey i) of
        None \<Rightarrow> Err (NoPackageSet i)
      | Some p \<Rightarrow>
          if \<not> package_is_semver (pk_id p) then Err (NoCandidate i)
          else if pk_entries p = [] then Err (NoEntries i)
          else case platform_reported description of
            None \<Rightarrow> Err (NoPlatform i)
          | Some plat \<Rightarrow>
              if reported_agent_type description \<noteq> Some (agent_type (pk_id p)) then Err (OtherType i)
              else if \<not> bt_contains (pk_entries p) (plat_key plat) then Err (NoEntryFor i plat)
              else if \<not> upgrades p installed description
              then Err (NoUpgrade i (running_version description) (claimed_version p installed))
              else Ok ())"

text \<open>Each Package of the Deployment with the platforms of its unsigned entries.\<close>

definition unsigned_in :: "package_sets \<Rightarrow> deployment \<Rightarrow> (package_id \<times> platform list) list" where
  "unsigned_in sets d =
     List.map_filter
       (\<lambda>i. case map_of sets (pkey i) of
              None \<Rightarrow> None
            | Some p \<Rightarrow>
                let missing = map entry_platform (filter (\<lambda>e. entry_signature e = None) (map snd (pk_entries p))) in
                if missing \<noteq> [] then Some (i, missing) else None)
       (map snd (packages d))"

definition total_bytes :: "package_sets \<Rightarrow> nat" where
  "total_bytes sets =
     sum_list (map snd (bt_collect (map (\<lambda>e. (content_hash e, entry_size e))
       (concat (map (\<lambda>(_, p). map snd (pk_entries p)) sets)))))"

definition artifact :: "package_sets \<Rightarrow> package_id \<Rightarrow> platform \<Rightarrow> (string \<times> nat) option" where
  "artifact sets i plat =
     (case map_of sets (pkey i) of
        None \<Rightarrow> None
      | Some p \<Rightarrow> map_option (\<lambda>e. (content_hash e, entry_size e)) (map_of (pk_entries p) (plat_key plat)))"

text \<open>The REST view: an entry with its size, its hashes in hex and what its signature was found to be.\<close>

record entry_summary =
  sum_platform :: platform
  sum_size :: nat
  sum_content_hash :: string
  sum_package_hash :: string
  sum_signature :: "string option"
  sum_state :: signature_state_t

definition summary_of ::
  "(string \<Rightarrow> string) \<Rightarrow> (string \<Rightarrow> string \<Rightarrow> bool) option \<Rightarrow> package \<Rightarrow> package_id \<times> entry_summary list" where
  "summary_of sha256 key p =
     (pk_id p,
      map (\<lambda>(_, e). \<lparr>sum_platform = entry_platform e, sum_size = entry_size e, sum_content_hash = hex_encode (content_hash e),
             sum_package_hash = hex_encode (package_hash sha256 p e), sum_signature = map_option hex_encode (entry_signature e),
             sum_state = signature_state key (pk_id p) e\<rparr>) (pk_entries p))"

section \<open>The ports\<close>

datatype put_error = NoSet | EntryGone | EntryUnanswered | EntryStorage

datatype signed = SignedWritten | SignedChanged "package_entry option"

text \<open>
  \<open>put_entry\<close> is handed the question whether the blob is stored and asks the blob store itself; an
  answer that could not be had is \<open>EntryUnanswered\<close>.
\<close>

record ('s, 'b) package_backend =
  pb_load :: "'s \<Rightarrow> unit + package list"
  pb_create :: "package_id \<Rightarrow> 's \<Rightarrow> (unit + unit) \<times> 's"
  pb_put_entry :: "package_id \<Rightarrow> package_entry \<Rightarrow> ('b \<Rightarrow> (unit + bool) \<times> 'b) \<Rightarrow> 's \<Rightarrow> 'b \<Rightarrow> (put_error + unit) \<times> 's \<times> 'b"
  pb_sign :: "package_id \<Rightarrow> platform \<Rightarrow> string \<Rightarrow> string option \<Rightarrow> 's \<Rightarrow> (unit + signed) \<times> 's"
  pb_remove_entry :: "package_id \<Rightarrow> platform \<Rightarrow> 's \<Rightarrow> (unit + unit) \<times> 's"
  pb_remove :: "package_id \<Rightarrow> 's \<Rightarrow> (unit + unit) \<times> 's"
  pb_named :: "string list \<Rightarrow> 's \<Rightarrow> unit + string list"

text \<open>A stream is what it yields, or that it failed.\<close>

record 'b blob_store =
  bs_put :: "unit + string \<Rightarrow> 'b \<Rightarrow> (unit + string \<times> nat) \<times> 'b"
  bs_get :: "string \<Rightarrow> 'b \<Rightarrow> unit + string"
  bs_exists :: "string \<Rightarrow> 'b \<Rightarrow> (unit + bool) \<times> 'b"
  bs_delete :: "string \<Rightarrow> 'b \<Rightarrow> (unit + unit) \<times> 'b"
  bs_list :: "'b \<Rightarrow> unit + (string \<times> nat) list"

section \<open>The store\<close>

record life =
  uploading :: "(string, nat) btree"
  deleting :: "string bset"

definition no_life :: life where
  "no_life = \<lparr>uploading = [], deleting = []\<rparr>"

record ('s, 'b) package_store =
  ps_files :: 's
  ps_blobs :: 'b
  ps_sets :: package_sets
  ps_life :: life

definition blob_name :: "package_entry \<Rightarrow> string" where
  "blob_name e = hex_encode (content_hash e)"

definition all_entries :: "package_sets \<Rightarrow> package_entry list" where
  "all_entries sets = concat (map (\<lambda>(_, p). map snd (pk_entries p)) sets)"

definition referenced :: "package_sets \<Rightarrow> string \<Rightarrow> bool" where
  "referenced sets sha \<longleftrightarrow> list_ex (\<lambda>e. blob_name e = sha) (all_entries sets)"

datatype open_error = PackagesUnreadable | BlobsUnreadable | BlobUndeleted | WrongSize package_id platform | NotStored package_id platform

fun check_entries :: "(string, nat) btree \<Rightarrow> package_id \<Rightarrow> package_entry list \<Rightarrow> open_error + unit" where
  "check_entries stored i [] = Ok ()"
| "check_entries stored i (e # es) =
     (case map_of stored (blob_name e) of
        Some n \<Rightarrow> if n = entry_size e then check_entries stored i es else Err (WrongSize i (entry_platform e))
      | None \<Rightarrow> Err (NotStored i (entry_platform e)))"

fun check_packages :: "(string, nat) btree \<Rightarrow> package list \<Rightarrow> package_sets \<Rightarrow> open_error + package_sets" where
  "check_packages stored [] sets = Ok sets"
| "check_packages stored (p # ps) sets =
     (case check_entries stored (pk_id p) (map snd (pk_entries p)) of
        Inl e \<Rightarrow> Err e
      | Inr _ \<Rightarrow> check_packages stored ps (bt_insert (pkey (pk_id p)) p sets))"

fun delete_blobs :: "'b blob_store \<Rightarrow> string list \<Rightarrow> 'b \<Rightarrow> (unit + unit) \<times> 'b" where
  "delete_blobs bl [] b = (Ok (), b)"
| "delete_blobs bl (h # hs) b =
     (case bs_delete bl h b of (Inl e, b') \<Rightarrow> (Err e, b') | (Inr _, b') \<Rightarrow> delete_blobs bl hs b')"

definition with_backend ::
  "('s, 'b) package_backend \<Rightarrow> 'b blob_store \<Rightarrow> 's \<Rightarrow> 'b \<Rightarrow> (open_error + ('s, 'b) package_store) \<times> 'b" where
  "with_backend be bl s b =
     (case bs_list bl b of
        Inl _ \<Rightarrow> (Err BlobsUnreadable, b)
      | Inr listed \<Rightarrow>
     (let stored = bt_collect listed in
      case pb_load be s of
        Inl _ \<Rightarrow> (Err PackagesUnreadable, b)
      | Inr ps \<Rightarrow>
     (case check_packages stored ps [] of
        Inl e \<Rightarrow> (Err e, b)
      | Inr sets \<Rightarrow>
     (case delete_blobs bl (filter (\<lambda>h. \<not> referenced sets h) (map fst stored)) b of
        (Inl _, b') \<Rightarrow> (Err BlobUndeleted, b')
      | (Inr _, b') \<Rightarrow> (Ok \<lparr>ps_files = s, ps_blobs = b', ps_sets = sets, ps_life = no_life\<rparr>, b')))))"

definition ps_reload :: "('s, 'b) package_backend \<Rightarrow> ('s, 'b) package_store \<Rightarrow> (unit + unit) \<times> ('s, 'b) package_store" where
  "ps_reload be ps =
     (case pb_load be (ps_files ps) of
        Inl e \<Rightarrow> (Err e, ps)
      | Inr packs \<Rightarrow> (Ok (), ps\<lparr>ps_sets := bt_collect (map (\<lambda>p. (pkey (pk_id p), p)) packs)\<rparr>))"

definition ps_create :: "('s, 'b) package_backend \<Rightarrow> package_id \<Rightarrow> ('s, 'b) package_store \<Rightarrow> (unit + unit) \<times> ('s, 'b) package_store" where
  "ps_create be i ps =
     (if bt_contains (ps_sets ps) (pkey i) then (Ok (), ps)
      else case pb_create be i (ps_files ps) of
        (Inl e, s) \<Rightarrow> (Err e, ps\<lparr>ps_files := s\<rparr>)
      | (Inr _, s) \<Rightarrow>
          (Ok (), ps\<lparr>ps_files := s, ps_sets := bt_insert (pkey i) \<lparr>pk_id = i, pk_entries = []\<rparr> (ps_sets ps)\<rparr>))"

definition writable :: "package_id \<Rightarrow> ('s, 'b) package_store \<Rightarrow> bool" where
  "writable i ps = bt_contains (ps_sets ps) (pkey i)"

section \<open>Blobs outside the lock\<close>

definition begin_upload :: "string \<Rightarrow> life \<Rightarrow> life option" where
  "begin_upload sha l =
     (if sha \<in> set (deleting l) then None
      else Some (l\<lparr>uploading := bt_insert sha ((case map_of (uploading l) sha of None \<Rightarrow> 0 | Some n \<Rightarrow> n) + 1) (uploading l)\<rparr>))"

definition end_upload :: "string \<Rightarrow> life \<Rightarrow> life" where
  "end_upload sha l =
     (case map_of (uploading l) sha of
        None \<Rightarrow> l
      | Some n \<Rightarrow>
          if n - 1 = 0 then l\<lparr>uploading := bt_remove sha (uploading l)\<rparr>
          else l\<lparr>uploading := bt_insert sha (n - 1) (uploading l)\<rparr>)"

definition doom :: "package_sets \<Rightarrow> string \<Rightarrow> life \<Rightarrow> string option \<times> life" where
  "doom sets sha l =
     (if referenced sets sha then (None, l)
      else if bt_contains (uploading l) sha \<or> sha \<in> set (deleting l) then (None, l)
      else (Some sha, l\<lparr>deleting := bs_insert sha (deleting l)\<rparr>))"

fun doom_all :: "package_sets \<Rightarrow> string list \<Rightarrow> life \<Rightarrow> string list \<times> life" where
  "doom_all sets [] l = ([], l)"
| "doom_all sets (h # hs) l =
     (let (d, l1) = doom sets h l; (ds, l2) = doom_all sets hs l1 in ((case d of None \<Rightarrow> ds | Some x \<Rightarrow> x # ds), l2))"

text \<open>
  A sweep asks the backend which of the blobs a stored entry names, deletes the others one after the
  other, and lets all of them go; one that cannot be deleted stays until the next startup.
\<close>

definition sweep_list :: "('s, 'b) package_backend \<Rightarrow> string list \<Rightarrow> 's \<Rightarrow> string list" where
  "sweep_list be doomed s =
     (if doomed = [] then []
      else case pb_named be doomed s of Inl _ \<Rightarrow> [] | Inr named \<Rightarrow> filter (\<lambda>h. h \<notin> set named) doomed)"

definition sweep_one :: "'b blob_store \<Rightarrow> string \<Rightarrow> ('s, 'b) package_store \<Rightarrow> ('s, 'b) package_store" where
  "sweep_one bl sha ps = ps\<lparr>ps_blobs := snd (bs_delete bl sha (ps_blobs ps))\<rparr>"

definition sweep_end :: "string list \<Rightarrow> ('s, 'b) package_store \<Rightarrow> ('s, 'b) package_store" where
  "sweep_end doomed ps =
     ps\<lparr>ps_life := (ps_life ps)\<lparr>deleting := fold bs_remove doomed (deleting (ps_life ps))\<rparr>\<rparr>"

definition sweep :: "('s, 'b) package_backend \<Rightarrow> 'b blob_store \<Rightarrow> string list \<Rightarrow> ('s, 'b) package_store \<Rightarrow> ('s, 'b) package_store" where
  "sweep be bl doomed ps = sweep_end doomed (fold (sweep_one bl) (sweep_list be doomed (ps_files ps)) ps)"

section \<open>Uploads\<close>

datatype upload_error = UploadNoSet | UploadStream | UploadEmpty | UploadRemoved | UploadUnanswered | UploadStorage

fun of_put_error :: "put_error \<Rightarrow> upload_error" where
  "of_put_error NoSet = UploadNoSet"
| "of_put_error EntryGone = UploadRemoved"
| "of_put_error EntryUnanswered = UploadUnanswered"
| "of_put_error EntryStorage = UploadStorage"

definition uploaded_entry :: "platform \<Rightarrow> string \<Rightarrow> nat \<Rightarrow> package_entry" where
  "uploaded_entry plat sha n =
     \<lparr>entry_platform = plat, content_hash = the (hex_decode sha), entry_size = n, entry_signature = None\<rparr>"

text \<open>The first half of \<open>put_entry_record\<close>: the backend writes the entry once it finds the blob.\<close>

definition record_entry ::
  "('s, 'b) package_backend \<Rightarrow> 'b blob_store \<Rightarrow> package_id \<Rightarrow> package_entry \<Rightarrow> string \<Rightarrow> ('s, 'b) package_store
   \<Rightarrow> (upload_error + unit) \<times> ('s, 'b) package_store" where
  "record_entry be bl i e sha ps =
     (if \<not> bt_contains (ps_sets ps) (pkey i) then (Err UploadNoSet, ps)
      else case pb_put_entry be i e (bs_exists bl sha) (ps_files ps) (ps_blobs ps) of
        (Inl err, s, b) \<Rightarrow> (Err (of_put_error err), ps\<lparr>ps_files := s, ps_blobs := b\<rparr>)
      | (Inr _, s, b) \<Rightarrow> (Ok (), ps\<lparr>ps_files := s, ps_blobs := b\<rparr>))"

text \<open>Its second half: memory holds the entry, and the blob of the one it replaced may go.\<close>

definition put_into_set :: "package_id \<Rightarrow> package_entry \<Rightarrow> package_sets \<Rightarrow> package_sets" where
  "put_into_set i e sets =
     bt_adjust (pkey i) (\<lambda>p. p\<lparr>pk_entries := bt_insert (plat_key (entry_platform e)) e (pk_entries p)\<rparr>) sets"

definition previous_entry :: "package_id \<Rightarrow> platform \<Rightarrow> package_sets \<Rightarrow> package_entry option" where
  "previous_entry i plat sets =
     (case map_of sets (pkey i) of None \<Rightarrow> None | Some p \<Rightarrow> map_of (pk_entries p) (plat_key plat))"

definition hold_upload :: "package_id \<Rightarrow> package_entry \<Rightarrow> ('s, 'b) package_store \<Rightarrow> (upload_error + string list) \<times> ('s, 'b) package_store" where
  "hold_upload i e ps =
     (if \<not> bt_contains (ps_sets ps) (pkey i) then (Err UploadNoSet, ps)
      else
        let ps1 = ps\<lparr>ps_sets := put_into_set i e (ps_sets ps)\<rparr> in
        case previous_entry i (entry_platform e) (ps_sets ps) of
          None \<Rightarrow> (Ok [], ps1)
        | Some old \<Rightarrow>
            let (d, l) = doom (ps_sets ps1) (blob_name old) (ps_life ps1) in
            (Ok (case d of None \<Rightarrow> [] | Some h \<Rightarrow> [h]), ps1\<lparr>ps_life := l\<rparr>))"

definition put_entry_record ::
  "('s, 'b) package_backend \<Rightarrow> 'b blob_store \<Rightarrow> package_id \<Rightarrow> package_entry \<Rightarrow> string \<Rightarrow> ('s, 'b) package_store
   \<Rightarrow> (upload_error + string list) \<times> ('s, 'b) package_store" where
  "put_entry_record be bl i e sha ps =
     (case record_entry be bl i e sha ps of
        (Inl err, ps1) \<Rightarrow> (Err err, ps1)
      | (Inr _, ps1) \<Rightarrow> hold_upload i e ps1)"

definition held_upload :: "string \<Rightarrow> ('s, 'b) package_store \<Rightarrow> ('s, 'b) package_store option" where
  "held_upload sha ps = map_option (\<lambda>l. ps\<lparr>ps_life := l\<rparr>) (begin_upload sha (ps_life ps))"

definition let_go :: "string \<Rightarrow> ('s, 'b) package_store \<Rightarrow> ('s, 'b) package_store" where
  "let_go sha ps = ps\<lparr>ps_life := end_upload sha (ps_life ps)\<rparr>"

text \<open>What an upload that failed leaves to sweep: its blob, unless the store could not say whether it holds it.\<close>

definition doom_failed :: "bool \<Rightarrow> string \<Rightarrow> ('s, 'b) package_store \<Rightarrow> string list \<times> ('s, 'b) package_store" where
  "doom_failed keep sha ps =
     (if keep then ([], ps)
      else let (d, l) = doom (ps_sets ps) sha (ps_life ps) in
        ((case d of None \<Rightarrow> [] | Some h \<Rightarrow> [h]), ps\<lparr>ps_life := l\<rparr>))"

definition put_entry_from ::
  "('s, 'b) package_backend \<Rightarrow> 'b blob_store \<Rightarrow> package_id \<Rightarrow> platform \<Rightarrow> unit + string \<Rightarrow> ('s, 'b) package_store
   \<Rightarrow> (upload_error + unit) \<times> ('s, 'b) package_store" where
  "put_entry_from be bl i plat stream ps =
     (if \<not> writable i ps then (Err UploadNoSet, ps)
      else case bs_put bl stream (ps_blobs ps) of
        (Inl _, b) \<Rightarrow> (Err UploadStream, ps\<lparr>ps_blobs := b\<rparr>)
      | (Inr (sha, n), b) \<Rightarrow>
          let ps1 = ps\<lparr>ps_blobs := b\<rparr>;
              (result, ps2) =
                (case held_upload sha ps1 of
                   None \<Rightarrow> (Err UploadRemoved, ps1)
                 | Some ps' \<Rightarrow>
                     let (recorded, ps'') =
                       (if n = 0 then (Err UploadEmpty, ps') else put_entry_record be bl i (uploaded_entry plat sha n) sha ps') in
                     (recorded, let_go sha ps'')) in
          case result of
            Inr doomed \<Rightarrow> (Ok (), sweep be bl doomed ps2)
          | Inl err \<Rightarrow>
              let (doomed, ps3) = doom_failed (err = UploadUnanswered) sha ps2 in
              (Err err, sweep be bl doomed ps3))"

section \<open>Signatures\<close>

datatype sign_error = SignEmpty | SignLength nat | SignNoSet | SignNoEntry | SignStorage | SignEntryChanged

definition set_entry :: "package_id \<Rightarrow> platform \<Rightarrow> package_entry option \<Rightarrow> package_sets \<Rightarrow> package_sets" where
  "set_entry i plat stored sets =
     bt_adjust (pkey i)
       (\<lambda>p. p\<lparr>pk_entries := (case stored of
                              Some e \<Rightarrow> bt_insert (plat_key plat) e (pk_entries p)
                            | None \<Rightarrow> bt_remove (plat_key plat) (pk_entries p))\<rparr>) sets"

text \<open>\<open>take_up\<close>: the entry as the store answered it is held, and the write is refused.\<close>

definition take_up_entry :: "package_id \<Rightarrow> platform \<Rightarrow> package_entry option \<Rightarrow> ('s, 'b) package_store \<Rightarrow> sign_error \<times> ('s, 'b) package_store" where
  "take_up_entry i plat stored ps = (SignEntryChanged, ps\<lparr>ps_sets := set_entry i plat stored (ps_sets ps)\<rparr>)"

definition write_signature ::
  "('s, 'b) package_backend \<Rightarrow> package_id \<Rightarrow> platform \<Rightarrow> package_entry \<Rightarrow> string option \<Rightarrow> ('s, 'b) package_store
   \<Rightarrow> (sign_error + package_entry) \<times> ('s, 'b) package_store" where
  "write_signature be i plat e signature ps =
     (case pb_sign be i plat (content_hash e) signature (ps_files ps) of
        (Inl _, s) \<Rightarrow> (Err SignStorage, ps\<lparr>ps_files := s\<rparr>)
      | (Inr SignedWritten, s) \<Rightarrow>
          let e' = e\<lparr>entry_signature := signature\<rparr> in
          (Ok e', ps\<lparr>ps_files := s, ps_sets := set_entry i plat (Some e') (ps_sets ps)\<rparr>)
      | (Inr (SignedChanged stored), s) \<Rightarrow>
          let (err, ps') = take_up_entry i plat stored (ps\<lparr>ps_files := s\<rparr>) in (Err err, ps'))"

definition put_signature ::
  "('s, 'b) package_backend \<Rightarrow> (string \<Rightarrow> string \<Rightarrow> bool) option \<Rightarrow> package_id \<Rightarrow> platform \<Rightarrow> string \<Rightarrow> ('s, 'b) package_store
   \<Rightarrow> (sign_error + signature_state_t) \<times> ('s, 'b) package_store" where
  "put_signature be key i plat signature ps =
     (if signature = [] then (Err SignEmpty, ps)
      else if length signature \<noteq> ED25519_SIGNATURE_LEN then (Err (SignLength (length signature)), ps)
      else case map_of (ps_sets ps) (pkey i) of
        None \<Rightarrow> (Err SignNoSet, ps)
      | Some p \<Rightarrow>
     (case map_of (pk_entries p) (plat_key plat) of
        None \<Rightarrow> (Err SignNoEntry, ps)
      | Some e \<Rightarrow>
     (case write_signature be i plat e (Some signature) ps of
        (Inl err, ps') \<Rightarrow> (Err err, ps')
      | (Inr e', ps') \<Rightarrow> (Ok (signature_state key i e'), ps'))))"

definition remove_signature ::
  "('s, 'b) package_backend \<Rightarrow> package_id \<Rightarrow> platform \<Rightarrow> ('s, 'b) package_store \<Rightarrow> (sign_error + bool) \<times> ('s, 'b) package_store" where
  "remove_signature be i plat ps =
     (case map_of (ps_sets ps) (pkey i) of
        None \<Rightarrow> (Err SignNoSet, ps)
      | Some p \<Rightarrow>
     (case map_of (pk_entries p) (plat_key plat) of
        None \<Rightarrow> (Err SignNoEntry, ps)
      | Some e \<Rightarrow>
          if entry_signature e = None then (Ok False, ps)
          else case write_signature be i plat e None ps of
              (Inl err, ps') \<Rightarrow> (Err err, ps')
            | (Inr _, ps') \<Rightarrow> (Ok True, ps')))"

section \<open>Deletions\<close>

text \<open>What is done under the locks, with the blobs to sweep once they are released; \<open>None\<close> where there was nothing.\<close>

definition remove_entry_locked ::
  "('s, 'b) package_backend \<Rightarrow> package_id \<Rightarrow> platform \<Rightarrow> ('s, 'b) package_store \<Rightarrow> (unit + string list option) \<times> ('s, 'b) package_store" where
  "remove_entry_locked be i plat ps =
     (case previous_entry i plat (ps_sets ps) of
        None \<Rightarrow> (Ok None, ps)
      | Some e \<Rightarrow>
     (case pb_remove_entry be i plat (ps_files ps) of
        (Inl err, s) \<Rightarrow> (Err err, ps\<lparr>ps_files := s\<rparr>)
      | (Inr _, s) \<Rightarrow>
          let sets = set_entry i plat None (ps_sets ps);
              (d, l) = doom sets (blob_name e) (ps_life ps) in
          (Ok (Some (case d of None \<Rightarrow> [] | Some h \<Rightarrow> [h])), ps\<lparr>ps_files := s, ps_sets := sets, ps_life := l\<rparr>)))"

definition delete_entry ::
  "('s, 'b) package_backend \<Rightarrow> 'b blob_store \<Rightarrow> package_id \<Rightarrow> platform \<Rightarrow> ('s, 'b) package_store \<Rightarrow> (unit + bool) \<times> ('s, 'b) package_store" where
  "delete_entry be bl i plat ps =
     (case remove_entry_locked be i plat ps of
        (Inl err, ps') \<Rightarrow> (Err err, ps')
      | (Inr None, ps') \<Rightarrow> (Ok False, ps')
      | (Inr (Some doomed), ps') \<Rightarrow> (Ok True, sweep be bl doomed ps'))"

definition remove_set ::
  "('s, 'b) package_backend \<Rightarrow> package_id \<Rightarrow> ('s, 'b) package_store \<Rightarrow> (unit + string list option) \<times> ('s, 'b) package_store" where
  "remove_set be i ps =
     (case map_of (ps_sets ps) (pkey i) of
        None \<Rightarrow> (Ok None, ps)
      | Some p \<Rightarrow>
     (case pb_remove be i (ps_files ps) of
        (Inl err, s) \<Rightarrow> (Err err, ps\<lparr>ps_files := s\<rparr>)
      | (Inr _, s) \<Rightarrow>
          let sets = bt_remove (pkey i) (ps_sets ps);
              (doomed, l) = doom_all sets (map (\<lambda>(_, e). blob_name e) (pk_entries p)) (ps_life ps) in
          (Ok (Some doomed), ps\<lparr>ps_files := s, ps_sets := sets, ps_life := l\<rparr>)))"

definition delete_set ::
  "('s, 'b) package_backend \<Rightarrow> 'b blob_store \<Rightarrow> package_id \<Rightarrow> ('s, 'b) package_store \<Rightarrow> (unit + bool) \<times> ('s, 'b) package_store" where
  "delete_set be bl i ps =
     (case remove_set be i ps of
        (Inl err, ps') \<Rightarrow> (Err err, ps')
      | (Inr None, ps') \<Rightarrow> (Ok False, ps')
      | (Inr (Some doomed), ps') \<Rightarrow> (Ok True, sweep be bl doomed ps'))"

section \<open>The filesystem adapters\<close>

record entry_meta =
  em_os :: string
  em_arch :: string
  em_sha256 :: string
  em_size :: nat
  em_signature_hex :: "string option"

record package_meta =
  pm_agent_type :: string
  pm_version :: string
  pm_entries :: "entry_meta list"

definition package_meta_of :: "package \<Rightarrow> package_meta" where
  "package_meta_of p =
     \<lparr>pm_agent_type = agent_type (pk_id p), pm_version = pkg_version (pk_id p),
      pm_entries = map (\<lambda>(_, e). \<lparr>em_os = os (entry_platform e), em_arch = arch (entry_platform e),
        em_sha256 = hex_encode (content_hash e), em_size = entry_size e,
        em_signature_hex = map_option hex_encode (entry_signature e)\<rparr>) (pk_entries p)\<rparr>"

definition is_hash :: "string \<Rightarrow> bool" where
  "is_hash v \<longleftrightarrow> length v = 64 \<and> list_all (\<lambda>b. is_ascii_digit b \<or> (97 \<le> byte b \<and> byte b \<le> 102)) v"

definition parse_package_entry :: "entry_meta \<Rightarrow> package_entry option" where
  "parse_package_entry m =
     (case platform_new (em_os m) (em_arch m) of
        Inl _ \<Rightarrow> None
      | Inr plat \<Rightarrow>
     (case hex_decode (em_sha256 m) of
        None \<Rightarrow> None
      | Some hash \<Rightarrow>
          if \<not> is_hash (em_sha256 m) then None
          else case em_signature_hex m of
            None \<Rightarrow> Some \<lparr>entry_platform = plat, content_hash = hash, entry_size = em_size m, entry_signature = None\<rparr>
          | Some text \<Rightarrow>
          (case hex_decode text of
             None \<Rightarrow> None
           | Some sig \<Rightarrow>
               if length sig \<noteq> ED25519_SIGNATURE_LEN then None
               else Some \<lparr>entry_platform = plat, content_hash = hash, entry_size = em_size m, entry_signature = Some sig\<rparr>)))"

fun parse_package_entries :: "entry_meta list \<Rightarrow> (key2, package_entry) btree \<Rightarrow> (key2, package_entry) btree option" where
  "parse_package_entries [] m = Some m"
| "parse_package_entries (x # xs) m =
     (case parse_package_entry x of
        None \<Rightarrow> None
      | Some e \<Rightarrow> parse_package_entries xs (bt_insert (plat_key (entry_platform e)) e m))"

text \<open>A file is what serde reads from it, \<open>None\<close> where it does not parse, under its stem.\<close>

type_synonym package_files = "(string, package_meta option) btree"

definition pfs_parse :: "string \<Rightarrow> package_meta option \<Rightarrow> unit + package" where
  "pfs_parse stem fl =
     (case fl of
        None \<Rightarrow> Err ()
      | Some m \<Rightarrow>
     (case package_load (pm_agent_type m) (pm_version m) of
        Inl _ \<Rightarrow> Err ()
      | Inr i \<Rightarrow>
          if package_display i \<noteq> stem then Err ()
          else case parse_package_entries (pm_entries m) [] of
              None \<Rightarrow> Err () | Some es \<Rightarrow> Ok \<lparr>pk_id = i, pk_entries = es\<rparr>))"

fun pfs_load_files :: "(string \<times> package_meta option) list \<Rightarrow> unit + package list" where
  "pfs_load_files [] = Ok []"
| "pfs_load_files ((stem, fl) # fs) =
     (case pfs_parse stem fl of
        Inl e \<Rightarrow> Err e
      | Inr p \<Rightarrow> (case pfs_load_files fs of Inl e \<Rightarrow> Err e | Inr ps \<Rightarrow> Ok (p # ps)))"

definition pfs_load :: "package_files disk \<Rightarrow> unit + package list" where
  "pfs_load d = pfs_load_files (disk_content d)"

definition pfs_put :: "package \<Rightarrow> package_files disk \<Rightarrow> (unit + unit) \<times> package_files disk" where
  "pfs_put p d =
     (case replace_doc (bt_insert (package_display (pk_id p)) (Some (package_meta_of p))) d of
        (True, d') \<Rightarrow> (Ok (), d') | (False, d') \<Rightarrow> (Err (), d'))"

definition pfs_read :: "package_id \<Rightarrow> package_files disk \<Rightarrow> unit + package option" where
  "pfs_read i d =
     (case map_of (disk_content d) (package_display i) of
        None \<Rightarrow> Ok None
      | Some fl \<Rightarrow> (case pfs_parse (package_display i) fl of Inl e \<Rightarrow> Err e | Inr p \<Rightarrow> Ok (Some p)))"

definition pfs_create :: "package_id \<Rightarrow> package_files disk \<Rightarrow> (unit + unit) \<times> package_files disk" where
  "pfs_create i d =
     (case pfs_read i d of
        Inl e \<Rightarrow> (Err e, d)
      | Inr (Some _) \<Rightarrow> (Ok (), d)
      | Inr None \<Rightarrow> pfs_put \<lparr>pk_id = i, pk_entries = []\<rparr> d)"

text \<open>\<open>amend\<close>: the Package is read, edited, and written back when the edit says it changed.\<close>

definition pfs_amend ::
  "package_id \<Rightarrow> (package \<Rightarrow> bool \<times> package \<times> 'a) \<Rightarrow> package_files disk \<Rightarrow> (put_error + 'a) \<times> package_files disk" where
  "pfs_amend i change d =
     (case pfs_read i d of
        Inl _ \<Rightarrow> (Err EntryStorage, d)
      | Inr None \<Rightarrow> (Err NoSet, d)
      | Inr (Some p) \<Rightarrow>
          let (changed, p', answer) = change p in
          if changed
          then (case pfs_put p' d of (Inl _, d') \<Rightarrow> (Err EntryStorage, d') | (Inr _, d') \<Rightarrow> (Ok answer, d'))
          else (Ok answer, d))"

definition pfs_put_entry ::
  "package_id \<Rightarrow> package_entry \<Rightarrow> ('b \<Rightarrow> (unit + bool) \<times> 'b) \<Rightarrow> package_files disk \<Rightarrow> 'b \<Rightarrow> (put_error + unit) \<times> package_files disk \<times> 'b" where
  "pfs_put_entry i e stored d b =
     (case stored b of
        (Inl _, b') \<Rightarrow> (Err EntryUnanswered, d, b')
      | (Inr False, b') \<Rightarrow> (Err EntryGone, d, b')
      | (Inr True, b') \<Rightarrow>
          let (r, d') = pfs_amend i (\<lambda>p. (True, p\<lparr>pk_entries := bt_insert (plat_key (entry_platform e)) e (pk_entries p)\<rparr>, ())) d in
          (r, d', b'))"

definition pfs_sign ::
  "package_id \<Rightarrow> platform \<Rightarrow> string \<Rightarrow> string option \<Rightarrow> package_files disk \<Rightarrow> (unit + signed) \<times> package_files disk" where
  "pfs_sign i plat hash signature d =
     (case pfs_read i d of
        Inl e \<Rightarrow> (Err e, d)
      | Inr None \<Rightarrow> (Ok (SignedChanged None), d)
      | Inr (Some _) \<Rightarrow>
          (case pfs_amend i
             (\<lambda>p. case map_of (pk_entries p) (plat_key plat) of
                    None \<Rightarrow> (False, p, SignedChanged None)
                  | Some e \<Rightarrow>
                      if content_hash e = hash
                      then (True, p\<lparr>pk_entries := bt_insert (plat_key plat) (e\<lparr>entry_signature := signature\<rparr>) (pk_entries p)\<rparr>, SignedWritten)
                      else (False, p, SignedChanged (Some e))) d of
             (Inl _, d') \<Rightarrow> (Err (), d') | (Inr answer, d') \<Rightarrow> (Ok answer, d')))"

definition pfs_remove_entry :: "package_id \<Rightarrow> platform \<Rightarrow> package_files disk \<Rightarrow> (unit + unit) \<times> package_files disk" where
  "pfs_remove_entry i plat d =
     (case pfs_read i d of
        Inl e \<Rightarrow> (Err e, d)
      | Inr None \<Rightarrow> (Ok (), d)
      | Inr (Some _) \<Rightarrow>
          (case pfs_amend i
             (\<lambda>p. (bt_contains (pk_entries p) (plat_key plat), p\<lparr>pk_entries := bt_remove (plat_key plat) (pk_entries p)\<rparr>, ())) d of
             (Inl _, d') \<Rightarrow> (Err (), d') | (Inr _, d') \<Rightarrow> (Ok (), d')))"

definition pfs_remove :: "package_id \<Rightarrow> package_files disk \<Rightarrow> (unit + unit) \<times> package_files disk" where
  "pfs_remove i d =
     (case step_doc (bt_remove (package_display i)) d of (True, d') \<Rightarrow> (Ok (), d') | (False, d') \<Rightarrow> (Err (), d'))"

definition fs_package_backend :: "(package_files disk, 'b) package_backend" where
  "fs_package_backend =
     \<lparr>pb_load = pfs_load, pb_create = pfs_create, pb_put_entry = pfs_put_entry, pb_sign = pfs_sign,
      pb_remove_entry = pfs_remove_entry, pb_remove = pfs_remove, pb_named = \<lambda>_ _. Ok []\<rparr>"

text \<open>One file per blob, named by the hash of its bytes; the stream, or staging it, may fail.\<close>

type_synonym blob_files = "(string, string) btree"

definition fsb_put :: "(string \<Rightarrow> string) \<Rightarrow> unit + string \<Rightarrow> blob_files disk \<Rightarrow> (unit + string \<times> nat) \<times> blob_files disk" where
  "fsb_put sha256 stream d =
     (case stream of
        Inl e \<Rightarrow> (Err e, d)
      | Inr bytes \<Rightarrow>
          let sha = hex_encode (sha256 bytes) in
          if \<not> is_hash sha then (Err (), d)
          else case step_doc (if bt_contains (disk_content d) sha then id else bt_insert sha bytes) d of
              (True, d') \<Rightarrow> (Ok (sha, length bytes), d') | (False, d') \<Rightarrow> (Err (), d'))"

definition fsb_get :: "string \<Rightarrow> blob_files disk \<Rightarrow> unit + string" where
  "fsb_get sha d =
     (if \<not> is_hash sha then Err ()
      else case map_of (disk_content d) sha of None \<Rightarrow> Err () | Some bytes \<Rightarrow> Ok bytes)"

definition fsb_exists :: "string \<Rightarrow> blob_files disk \<Rightarrow> (unit + bool) \<times> blob_files disk" where
  "fsb_exists sha d =
     (if \<not> is_hash sha then (Ok False, d)
      else case step_doc id d of
          (True, d') \<Rightarrow> (Ok (bt_contains (disk_content d) sha), d') | (False, d') \<Rightarrow> (Err (), d'))"

definition fsb_delete :: "string \<Rightarrow> blob_files disk \<Rightarrow> (unit + unit) \<times> blob_files disk" where
  "fsb_delete sha d =
     (if \<not> is_hash sha then (Err (), d)
      else case step_doc (bt_remove sha) d of (True, d') \<Rightarrow> (Ok (), d') | (False, d') \<Rightarrow> (Err (), d'))"

definition fsb_list :: "(string \<Rightarrow> string) \<Rightarrow> blob_files disk \<Rightarrow> unit + (string \<times> nat) list" where
  "fsb_list sha256 d =
     (if list_all (\<lambda>(name, bytes). is_hash name \<and> hex_encode (sha256 bytes) = name) (disk_content d)
      then Ok (map (\<lambda>(name, bytes). (name, length bytes)) (disk_content d)) else Err ())"

definition fs_blob_store :: "(string \<Rightarrow> string) \<Rightarrow> blob_files disk blob_store" where
  "fs_blob_store sha256 =
     \<lparr>bs_put = fsb_put sha256, bs_get = fsb_get, bs_exists = fsb_exists, bs_delete = fsb_delete, bs_list = fsb_list sha256\<rparr>"

end
