(* ===== verification/Package_Uploads.thy ===== *)
theory Package_Uploads
  imports Package_Store
begin

text \<open>
  Uploads, deletions and sweeps of the package store running at once. No call to the blob store is made
  under the lock on the Packages, so the steps of \<open>put_entry_from\<close>, of a deletion and of a sweep
  interleave; what keeps an entry from naming a deleted blob are the two rules of \<open>Life\<close>. A thread is
  its phase, the lock \<open>writes\<close> is who holds it, and a schedule says which thread steps next, when an
  operation arrives and when the process is killed and started again. The contracts of the two ports
  are locales; over them every step keeps the invariant that the entries' blobs are stored.
\<close>

section \<open>Threads\<close>

record upload =
  up_id :: package_id
  up_platform :: platform
  up_sha :: string
  up_size :: nat

definition up_entry :: "upload \<Rightarrow> package_entry" where
  "up_entry u = uploaded_entry (up_platform u) (up_sha u) (up_size u)"

text \<open>
  An upload past its gate, with its blob stored, holding the blob, holding the lock with the entry
  written, with its entry recorded or refused, and done with the blob; and a sweep, with what is left
  of it to delete.
\<close>

datatype thread =
    Admitted package_id platform "unit + string"
  | Staged upload
  | Held upload
  | Writing upload
  | Answered upload "upload_error + string list"
  | Ended upload "upload_error + string list"
  | Sweeping "string list" "string list"
  | Finished

definition sweeping :: "('s, 'b) package_backend \<Rightarrow> string list \<Rightarrow> ('s, 'b) package_store \<Rightarrow> thread" where
  "sweeping be doomed ps = Sweeping (sweep_list be doomed (ps_files ps)) doomed"

fun thread_step ::
  "('s, 'b) package_backend \<Rightarrow> 'b blob_store \<Rightarrow> thread \<Rightarrow> ('s, 'b) package_store \<Rightarrow> thread \<times> ('s, 'b) package_store" where
  "thread_step be bl (Admitted i plat stream) ps =
     (case bs_put bl stream (ps_blobs ps) of
        (Inl _, b) \<Rightarrow> (Finished, ps\<lparr>ps_blobs := b\<rparr>)
      | (Inr (sha, n), b) \<Rightarrow> (Staged \<lparr>up_id = i, up_platform = plat, up_sha = sha, up_size = n\<rparr>, ps\<lparr>ps_blobs := b\<rparr>))"
| "thread_step be bl (Staged u) ps =
     (case held_upload (up_sha u) ps of
        None \<Rightarrow> (Ended u (Err UploadRemoved), ps)
      | Some ps' \<Rightarrow> (Held u, ps'))"
| "thread_step be bl (Held u) ps =
     (if up_size u = 0 then (Answered u (Err UploadEmpty), ps)
      else case record_entry be bl (up_id u) (up_entry u) (up_sha u) ps of
          (Inl err, ps') \<Rightarrow> (Answered u (Err err), ps')
        | (Inr _, ps') \<Rightarrow> (Writing u, ps'))"
| "thread_step be bl (Writing u) ps =
     (let (r, ps') = hold_upload (up_id u) (up_entry u) ps in (Answered u r, ps'))"
| "thread_step be bl (Answered u r) ps = (Ended u r, let_go (up_sha u) ps)"
| "thread_step be bl (Ended u (Inr doomed)) ps = (sweeping be doomed ps, ps)"
| "thread_step be bl (Ended u (Inl err)) ps =
     (let (doomed, ps') = doom_failed (err = UploadUnanswered) (up_sha u) ps in (sweeping be doomed ps', ps'))"
| "thread_step be bl (Sweeping (h # hs) doomed) ps = (Sweeping hs doomed, sweep_one bl h ps)"
| "thread_step be bl (Sweeping [] doomed) ps = (Finished, sweep_end doomed ps)"
| "thread_step be bl Finished ps = (Finished, ps)"

section \<open>A Server over its files\<close>

text \<open>A Server that runs has its threads and the thread that holds \<open>writes\<close>; one that does not start is down.\<close>

datatype ('s, 'b) site = Down 's 'b | Up "('s, 'b) package_store" "thread list" "(nat \<times> upload) option"

datatype site_act =
    Upload string string string string "unit + string"
  | CreateSet string string
  | SignEntry string string string string string
  | UnsignEntry string string string string
  | DeleteEntry string string string string
  | DeleteSet string string
  | Reload
  | Advance nat
  | Restart

definition restart :: "('s, 'b) package_backend \<Rightarrow> 'b blob_store \<Rightarrow> 's \<Rightarrow> 'b \<Rightarrow> ('s, 'b) site" where
  "restart be bl s b =
     (case with_backend be bl s b of (Inl _, b') \<Rightarrow> Down s b' | (Inr ps, _) \<Rightarrow> Up ps [] None)"

text \<open>A thread that wants the lock waits while another holds it.\<close>

definition waits :: "thread \<Rightarrow> (nat \<times> upload) option \<Rightarrow> bool" where
  "waits t w \<longleftrightarrow> (case t of Held u \<Rightarrow> up_size u \<noteq> 0 \<and> w \<noteq> None | _ \<Rightarrow> False)"

definition lock_after :: "nat \<Rightarrow> thread \<Rightarrow> thread \<Rightarrow> (nat \<times> upload) option \<Rightarrow> (nat \<times> upload) option" where
  "lock_after k t t' w =
     (case t' of Writing u \<Rightarrow> Some (k, u) | _ \<Rightarrow> (case t of Writing _ \<Rightarrow> None | _ \<Rightarrow> w))"

definition advance :: "('s, 'b) package_backend \<Rightarrow> 'b blob_store \<Rightarrow> nat \<Rightarrow> ('s, 'b) package_store \<Rightarrow> thread list
    \<Rightarrow> (nat \<times> upload) option \<Rightarrow> ('s, 'b) site" where
  "advance be bl k ps ts w =
     (if length ts \<le> k \<or> waits (ts ! k) w then Up ps ts w
      else let (t', ps') = thread_step be bl (ts ! k) ps in Up ps' (ts[k := t']) (lock_after k (ts ! k) t' w))"

text \<open>The request names a Package and a platform as the routes read them.\<close>

definition with_id :: "string \<Rightarrow> string \<Rightarrow> 'a \<Rightarrow> (package_id \<Rightarrow> 'a) \<Rightarrow> 'a" where
  "with_id ty ver refused act = (case package_load ty ver of Inl _ \<Rightarrow> refused | Inr i \<Rightarrow> act i)"

definition with_entry :: "string \<Rightarrow> string \<Rightarrow> string \<Rightarrow> string \<Rightarrow> 'a \<Rightarrow> (package_id \<Rightarrow> platform \<Rightarrow> 'a) \<Rightarrow> 'a" where
  "with_entry ty ver o' a' refused act =
     with_id ty ver refused (\<lambda>i. case platform_new o' a' of Inl _ \<Rightarrow> refused | Inr plat \<Rightarrow> act i plat)"

definition then_sweep :: "('s, 'b) package_backend \<Rightarrow> thread list \<Rightarrow> (unit + string list option) \<times> ('s, 'b) package_store \<Rightarrow> ('s, 'b) site" where
  "then_sweep be ts r =
     (case r of
        (Inr (Some doomed), ps') \<Rightarrow> Up ps' (ts @ [sweeping be doomed ps']) None
      | (_, ps') \<Rightarrow> Up ps' ts None)"

fun locked_act :: "('s, 'b) package_backend \<Rightarrow> site_act \<Rightarrow> ('s, 'b) package_store \<Rightarrow> thread list \<Rightarrow> ('s, 'b) site" where
  "locked_act be (CreateSet ty ver) ps ts =
     with_id ty ver (Up ps ts None) (\<lambda>i. Up (snd (ps_create be i ps)) ts None)"
| "locked_act be (SignEntry ty ver o' a' signature) ps ts =
     with_entry ty ver o' a' (Up ps ts None) (\<lambda>i plat. Up (snd (put_signature be None i plat signature ps)) ts None)"
| "locked_act be (UnsignEntry ty ver o' a') ps ts =
     with_entry ty ver o' a' (Up ps ts None) (\<lambda>i plat. Up (snd (remove_signature be i plat ps)) ts None)"
| "locked_act be (DeleteEntry ty ver o' a') ps ts =
     with_entry ty ver o' a' (Up ps ts None) (\<lambda>i plat. then_sweep be ts (remove_entry_locked be i plat ps))"
| "locked_act be (DeleteSet ty ver) ps ts =
     with_id ty ver (Up ps ts None) (\<lambda>i. then_sweep be ts (remove_set be i ps))"
| "locked_act be Reload ps ts = Up (snd (ps_reload be ps)) ts None"
| "locked_act be _ ps ts = Up ps ts None"

fun site_step :: "('s, 'b) package_backend \<Rightarrow> 'b blob_store \<Rightarrow> site_act \<Rightarrow> ('s, 'b) site \<Rightarrow> ('s, 'b) site" where
  "site_step be bl act (Down s b) = (case act of Restart \<Rightarrow> restart be bl s b | _ \<Rightarrow> Down s b)"
| "site_step be bl act (Up ps ts w) =
     (case act of
        Restart \<Rightarrow> restart be bl (ps_files ps) (ps_blobs ps)
      | Advance k \<Rightarrow> advance be bl k ps ts w
      | Upload ty ver o' a' stream \<Rightarrow>
          with_entry ty ver o' a' (Up ps ts w)
            (\<lambda>i plat. if writable i ps then Up ps (ts @ [Admitted i plat stream]) w else Up ps ts w)
      | _ \<Rightarrow> if w = None then locked_act be act ps ts else Up ps ts w)"

section \<open>The contracts of the ports\<close>

definition entry_ok :: "package_entry \<Rightarrow> bool" where
  "entry_ok e \<longleftrightarrow> platform_new (os (entry_platform e)) (arch (entry_platform e)) = Ok (entry_platform e)
     \<and> length (content_hash e) = 32
     \<and> (\<forall>sig. entry_signature e = Some sig \<longrightarrow> length sig = ED25519_SIGNATURE_LEN)"

locale package_files =
  fixes be :: "('s, 'b) package_backend"
    and filed :: "'s \<Rightarrow> package_sets \<Rightarrow> bool"
  assumes load_filed: "filed s m \<Longrightarrow>
      \<exists>ps. pb_load be s = Ok ps \<and> bt_collect (map (\<lambda>p. (pkey (pk_id p), p)) ps) = m
        \<and> set (map (\<lambda>p. (pkey (pk_id p), p)) ps) = set m"
    and create_filed: "\<lbrakk>filed s m; package_ok i; map_of m (pkey i) = None; pb_create be i s = (r, s')\<rbrakk>
      \<Longrightarrow> filed s' (case r of Inl _ \<Rightarrow> m | Inr _ \<Rightarrow> bt_insert (pkey i) \<lparr>pk_id = i, pk_entries = []\<rparr> m)"
    and put_filed: "\<lbrakk>filed s m; package_ok i; entry_ok e; map_of m (pkey i) \<noteq> None; pb_put_entry be i e q s b = (rp, s', b')\<rbrakk>
      \<Longrightarrow> b' = snd (q b) \<and> (case rp of Inl _ \<Rightarrow> filed s' m | Inr _ \<Rightarrow> fst (q b) = Ok True \<and> filed s' (put_into_set i e m))"
    and sign_filed: "\<lbrakk>filed s m; package_ok i; previous_entry i plat m = Some e;
        \<forall>x. sig = Some x \<longrightarrow> length x = ED25519_SIGNATURE_LEN; pb_sign be i plat (content_hash e) sig s = (rs, s')\<rbrakk>
      \<Longrightarrow> (\<exists>x. rs = Err x \<and> filed s' m)
        \<or> (rs = Ok SignedWritten \<and> filed s' (set_entry i plat (Some (e\<lparr>entry_signature := sig\<rparr>)) m))"
    and remove_entry_filed: "\<lbrakk>filed s m; package_ok i; previous_entry i plat m = Some e; pb_remove_entry be i plat s = (r, s')\<rbrakk>
      \<Longrightarrow> filed s' (case r of Inl _ \<Rightarrow> m | Inr _ \<Rightarrow> set_entry i plat None m)"
    and remove_filed: "\<lbrakk>filed s m; package_ok i; pb_remove be i s = (r, s')\<rbrakk>
      \<Longrightarrow> filed s' (case r of Inl _ \<Rightarrow> m | Inr _ \<Rightarrow> bt_remove (pkey i) m)"

locale blob_files =
  fixes bl :: "'b blob_store"
    and sha256 :: "string \<Rightarrow> string"
    and stored :: "'b \<Rightarrow> string \<Rightarrow> string option"
    and intact :: "'b \<Rightarrow> bool"
  assumes put_ok: "\<lbrakk>intact b; bs_put bl stream b = (Ok (sha, n), b')\<rbrakk>
      \<Longrightarrow> \<exists>bytes. stream = Ok bytes \<and> sha = hex_encode (sha256 bytes) \<and> n = length bytes \<and> intact b'
        \<and> stored b' = (stored b)(sha \<mapsto> (case stored b sha of None \<Rightarrow> bytes | Some old \<Rightarrow> old))"
    and put_err: "\<lbrakk>intact b; bs_put bl stream b = (Err x, b')\<rbrakk> \<Longrightarrow> intact b' \<and> stored b' = stored b"
    and exists_asked: "\<lbrakk>intact b; bs_exists bl sha b = (re, b')\<rbrakk>
      \<Longrightarrow> intact b' \<and> stored b' = stored b \<and> (re = Ok True \<longrightarrow> stored b sha \<noteq> None)"
    and deleted: "\<lbrakk>intact b; bs_delete bl sha b = (r, b')\<rbrakk>
      \<Longrightarrow> intact b' \<and> (stored b' = (stored b)(sha := None) \<or> stored b' = stored b)
        \<and> (r = Ok () \<longrightarrow> stored b' = (stored b)(sha := None))"
    and got: "\<lbrakk>intact b; stored b sha = Some bytes\<rbrakk> \<Longrightarrow> bs_get bl sha b = Ok bytes"
    and named_by_hash: "\<lbrakk>intact b; stored b sha = Some bytes\<rbrakk> \<Longrightarrow> sha = hex_encode (sha256 bytes)"
    and listed: "intact b \<Longrightarrow>
      \<exists>l. bs_list bl b = Ok l \<and> distinct (map fst l) \<and> map_of l = (\<lambda>sha. map_option length (stored b sha))"


declare split_paired_All [simp del] split_paired_Ex [simp del]

section \<open>What the entries name\<close>

lemma all_entries_iff: "e \<in> set (all_entries m) \<longleftrightarrow> (\<exists>k p pk. (k, p) \<in> set m \<and> (pk, e) \<in> set (pk_entries p))"
  by (force simp: all_entries_def)

lemma referenced_iff: "referenced m sha \<longleftrightarrow> (\<exists>e \<in> set (all_entries m). blob_name e = sha)"
  by (auto simp: referenced_def list_ex_iff)

lemma set_bt_adjust: "set (bt_adjust k f m) = (\<lambda>(k', v). (k', if k' = k then f v else v)) ` set m"
  by (force simp: bt_adjust_def)

lemma entries_adjust:
  assumes "\<And>p pk e. (pk, e) \<in> set (pk_entries (f p)) \<Longrightarrow> e = x \<or> (pk, e) \<in> set (pk_entries p)"
  shows "set (all_entries (bt_adjust k f m)) \<subseteq> insert x (set (all_entries m))"
proof
  fix e assume "e \<in> set (all_entries (bt_adjust k f m))"
  then obtain k' p pk where "(k', p) \<in> set m" "(pk, e) \<in> set (pk_entries (if k' = k then f p else p))"
    unfolding all_entries_iff set_bt_adjust by auto
  moreover from this(2) have "e = x \<or> (pk, e) \<in> set (pk_entries p)" using assms by (auto split: if_splits)
  ultimately show "e \<in> insert x (set (all_entries m))" unfolding all_entries_iff insert_iff by blast
qed

lemma entries_put: "set (all_entries (put_into_set i e m)) \<subseteq> insert e (set (all_entries m))"
  unfolding put_into_set_def
  by (rule entries_adjust) (use set_bt_insert_subset [of "plat_key (entry_platform e)" e] in \<open>auto dest: subsetD\<close>)

lemma entries_set: "set (all_entries (set_entry i plat (Some e) m)) \<subseteq> insert e (set (all_entries m))"
  unfolding set_entry_def option.case
  by (rule entries_adjust) (use set_bt_insert_subset [of "plat_key plat" e] in \<open>auto dest: subsetD\<close>)

lemma entries_unset: "set (all_entries (set_entry i plat None m)) \<subseteq> set (all_entries m)"
proof
  fix e assume "e \<in> set (all_entries (set_entry i plat None m))"
  then obtain k' p pk where "(k', p) \<in> set m"
    "(pk, e) \<in> set (pk_entries (if k' = pkey i then p\<lparr>pk_entries := bt_remove (plat_key plat) (pk_entries p)\<rparr> else p))"
    unfolding all_entries_iff set_entry_def set_bt_adjust option.case by auto
  moreover from this have "(pk, e) \<in> set (pk_entries p)"
    using set_bt_remove_subset [of "plat_key plat" "pk_entries p"] by (auto split: if_splits)
  ultimately show "e \<in> set (all_entries m)" unfolding all_entries_iff by blast
qed

lemma entries_remove: "set (all_entries (bt_remove k m)) \<subseteq> set (all_entries m)"
  using set_bt_remove_subset [of k m] unfolding subset_iff all_entries_iff by blast

lemma entries_create: "set (all_entries (bt_insert k \<lparr>pk_id = i, pk_entries = []\<rparr> m)) \<subseteq> set (all_entries m)"
proof
  fix e assume "e \<in> set (all_entries (bt_insert k \<lparr>pk_id = i, pk_entries = []\<rparr> m))"
  then obtain k' p pk where "(k', p) \<in> set (bt_insert k \<lparr>pk_id = i, pk_entries = []\<rparr> m)" "(pk, e) \<in> set (pk_entries p)"
    unfolding all_entries_iff by blast
  then have "(k', p) \<in> set m" using set_bt_insert_subset [of k "\<lparr>pk_id = i, pk_entries = []\<rparr>" m] by auto
  then show "e \<in> set (all_entries m)" using \<open>(pk, e) \<in> set (pk_entries p)\<close> unfolding all_entries_iff by blast
qed

lemma previous_entry_in: "previous_entry i plat m = Some e \<Longrightarrow> e \<in> set (all_entries m)"
  unfolding all_entries_iff previous_entry_def by (auto split: option.splits dest!: map_of_SomeD)

section \<open>Who holds a blob and who deletes it\<close>

fun upload_of :: "thread \<Rightarrow> upload option" where
  "upload_of (Staged u) = Some u"
| "upload_of (Held u) = Some u"
| "upload_of (Writing u) = Some u"
| "upload_of (Answered u _) = Some u"
| "upload_of (Ended u _) = Some u"
| "upload_of _ = None"

fun holds :: "string \<Rightarrow> thread \<Rightarrow> nat" where
  "holds h (Held u) = of_bool (up_sha u = h)"
| "holds h (Writing u) = of_bool (up_sha u = h)"
| "holds h (Answered u _) = of_bool (up_sha u = h)"
| "holds h _ = 0"

fun owes :: "string \<Rightarrow> thread \<Rightarrow> nat" where
  "owes h (Answered _ (Inr ds)) = count_list ds h"
| "owes h (Ended _ (Inr ds)) = count_list ds h"
| "owes h (Sweeping _ ds) = count_list ds h"
| "owes h _ = 0"

definition tally :: "(thread \<Rightarrow> nat) \<Rightarrow> thread list \<Rightarrow> nat" where
  "tally f ts = sum_list (map f ts)"

lemma tally_simps [simp]: "tally f [] = 0" "tally f (ts @ [t]) = tally f ts + f t"
  by (simp_all add: tally_def)

lemma tally_update: "k < length ts \<Longrightarrow> tally f (ts[k := t]) + f (ts ! k) = tally f ts + f t"
proof (induction ts arbitrary: k)
  case (Cons a ts)
  then show ?case by (cases k) (auto simp: tally_def)
qed simp

lemma tally_keep: "k < length ts \<Longrightarrow> f t = f (ts ! k) \<Longrightarrow> tally f (ts[k := t]) = tally f ts"
  using tally_update [of k ts f t] by simp

lemma tally_more: "k < length ts \<Longrightarrow> f t = f (ts ! k) + n \<Longrightarrow> tally f (ts[k := t]) = tally f ts + n"
  using tally_update [of k ts f t] by simp

lemma tally_less: "k < length ts \<Longrightarrow> f t + n = f (ts ! k) \<Longrightarrow> tally f (ts[k := t]) + n = tally f ts"
  using tally_update [of k ts f t] by simp

lemma tally_pos: "k < length ts \<Longrightarrow> f (ts ! k) \<le> tally f ts"
  unfolding tally_def by (rule member_le_sum_list) auto

definition holding :: "life \<Rightarrow> string \<Rightarrow> nat" where
  "holding l h = (case map_of (uploading l) h of None \<Rightarrow> 0 | Some n \<Rightarrow> n)"

definition life_ok :: "life \<Rightarrow> thread list \<Rightarrow> bool" where
  "life_ok l ts \<longleftrightarrow>
     (\<forall>h. holding l h = tally (holds h) ts \<and> map_of (uploading l) h \<noteq> Some 0
        \<and> tally (owes h) ts = of_bool (h \<in> set (deleting l))
        \<and> (h \<in> set (deleting l) \<longrightarrow> tally (holds h) ts = 0))"

lemma life_okD:
  assumes "life_ok l ts"
  shows "holding l h = tally (holds h) ts" and "map_of (uploading l) h \<noteq> Some 0"
    and "tally (owes h) ts = of_bool (h \<in> set (deleting l))" and "h \<in> set (deleting l) \<Longrightarrow> tally (holds h) ts = 0"
  using assms unfolding life_ok_def by blast+

lemma life_begin:
  assumes "life_ok l ts" and "begin_upload sha l = Some l'"
    and "\<And>h. tally (holds h) ts' = tally (holds h) ts + of_bool (h = sha)" and "\<And>h. tally (owes h) ts' = tally (owes h) ts"
  shows "life_ok l' ts'" and "deleting l' = deleting l"
proof -
  have l': "sha \<notin> set (deleting l)" "l' = l\<lparr>uploading := bt_insert sha (holding l sha + 1) (uploading l)\<rparr>"
    using assms(2) by (auto simp: begin_upload_def holding_def split: if_splits)
  then have "holding l' h = holding l h + of_bool (h = sha)" for h by (simp add: holding_def)
  then show "life_ok l' ts'" using assms(1,3,4) l' unfolding life_ok_def by auto
  show "deleting l' = deleting l" using l' by simp
qed

lemma life_end:
  assumes "life_ok l ts" and "\<And>h. tally (holds h) ts' + of_bool (h = sha) = tally (holds h) ts"
    and "\<And>h. tally (owes h) ts' = tally (owes h) ts"
  shows "life_ok (end_upload sha l) ts'" and "deleting (end_upload sha l) = deleting l"
proof -
  have "holding l sha = tally (holds sha) ts" "map_of (uploading l) sha \<noteq> Some 0" using life_okD [OF assms(1)] by blast+
  moreover have "0 < tally (holds sha) ts" using assms(2) [of sha] by simp
  ultimately obtain n where n: "map_of (uploading l) sha = Some n" "0 < n" by (auto simp: holding_def split: option.splits)
  then have h: "holding (end_upload sha l) h + of_bool (h = sha) = holding l h" for h
    by (auto simp: end_upload_def holding_def)
  have d: "deleting (end_upload sha l) = deleting l" using n by (simp add: end_upload_def)
  have z: "map_of (uploading (end_upload sha l)) h \<noteq> Some 0" for h
    using n life_okD(2) [OF assms(1), of h] by (auto simp: end_upload_def)
  have "holding (end_upload sha l) h = tally (holds h) ts'" for h
    using h [of h] assms(2) [of h] life_okD(1) [OF assms(1), of h] by simp
  moreover have "h \<in> set (deleting l) \<Longrightarrow> tally (holds h) ts' = 0" for h
    using assms(2) [of h] life_okD(4) [OF assms(1), of h] by simp
  ultimately show "life_ok (end_upload sha l) ts'"
    using life_okD(3) [OF assms(1)] assms(3) d z unfolding life_ok_def by simp
  show "deleting (end_upload sha l) = deleting l" by (rule d)
qed

lemma doom_one: "(\<lambda>(d, l'). ((case d of None \<Rightarrow> [] | Some h \<Rightarrow> [h]), l')) (doom m sha l) = doom_all m [sha] l"
  by (auto simp: Let_def split: prod.splits option.splits)

lemma doom_all_spec:
  assumes "doom_all m hs l = (ds, l')"
  shows "distinct ds" and "set ds \<inter> set (deleting l) = {}" and "set ds \<subseteq> set hs"
    and "set (deleting l') = set ds \<union> set (deleting l)" and "uploading l' = uploading l"
    and "\<And>h. h \<in> set ds \<Longrightarrow> \<not> referenced m h \<and> map_of (uploading l) h = None"
proof -
  have "distinct ds \<and> set ds \<inter> set (deleting l) = {} \<and> set ds \<subseteq> set hs \<and> set (deleting l') = set ds \<union> set (deleting l)
      \<and> uploading l' = uploading l \<and> (\<forall>h \<in> set ds. \<not> referenced m h \<and> map_of (uploading l) h = None)"
    using assms
  proof (induction hs arbitrary: l ds l')
    case (Cons h hs)
    obtain d l1 where d: "doom m h l = (d, l1)" by (cases "doom m h l")
    obtain ds' l2 where ds': "doom_all m hs l1 = (ds', l2)" by (cases "doom_all m hs l1")
    have one: "uploading l1 = uploading l" "set (deleting l1) = set_option d \<union> set (deleting l)"
      "\<forall>x. d = Some x \<longrightarrow> x = h \<and> x \<notin> set (deleting l) \<and> \<not> referenced m x \<and> map_of (uploading l) x = None"
      using d by (auto simp: doom_def bt_contains_def split: if_splits)
    have res: "ds = (case d of None \<Rightarrow> ds' | Some x \<Rightarrow> x # ds')" "l' = l2" using Cons.prems d ds' by auto
    show ?case using Cons.IH [OF ds'] one res by (cases d) auto
  qed auto
  then show "distinct ds" "set ds \<inter> set (deleting l) = {}" "set ds \<subseteq> set hs"
    "set (deleting l') = set ds \<union> set (deleting l)" "uploading l' = uploading l"
    "\<And>h. h \<in> set ds \<Longrightarrow> \<not> referenced m h \<and> map_of (uploading l) h = None" by blast+
qed

lemma count_list_distinct: "distinct xs \<Longrightarrow> count_list xs x = of_bool (x \<in> set xs)"
  by (induction xs) auto

lemma life_doomed:
  assumes "life_ok l ts" and d: "doom_all m hs l = (ds, l')"
    and "\<And>h. tally (holds h) ts' = tally (holds h) ts" and "\<And>h. tally (owes h) ts' = tally (owes h) ts + count_list ds h"
  shows "life_ok l' ts'"
proof -
  have up: "uploading l' = uploading l" and del: "set (deleting l') = set ds \<union> set (deleting l)" using doom_all_spec(4,5) [OF d] by blast+
  have "holding l' h = tally (holds h) ts' \<and> map_of (uploading l') h \<noteq> Some 0
      \<and> tally (owes h) ts' = of_bool (h \<in> set (deleting l')) \<and> (h \<in> set (deleting l') \<longrightarrow> tally (holds h) ts' = 0)" for h
  proof -
    have "h \<in> set ds \<Longrightarrow> holding l h = 0" using doom_all_spec(6) [OF d] by (simp add: holding_def)
    moreover have "holding l' h = holding l h" using up by (simp add: holding_def)
    moreover have "h \<in> set ds \<Longrightarrow> h \<notin> set (deleting l)" using doom_all_spec(2) [OF d] by blast
    ultimately show ?thesis
      using life_okD [OF assms(1), of h] assms(3,4) [of h] count_list_distinct [OF doom_all_spec(1) [OF d], of h]
      unfolding up del by auto
  qed
  then show ?thesis unfolding life_ok_def by blast
qed

lemma set_fold_remove: "set (fold bs_remove xs s) = set s - set xs"
  by (induction xs arbitrary: s) auto

lemma life_swept:
  assumes "life_ok l ts" and "\<And>h. tally (holds h) ts' = tally (holds h) ts"
    and "\<And>h. tally (owes h) ts' + count_list ds h = tally (owes h) ts"
  shows "life_ok (l\<lparr>deleting := fold bs_remove ds (deleting l)\<rparr>) ts'"
proof -
  have "tally (owes h) ts' = of_bool (h \<in> set (deleting l) - set ds)" for h
  proof -
    have "count_list ds h \<noteq> 0 \<longleftrightarrow> h \<in> set ds" by (simp add: count_list_0_iff)
    moreover have "tally (owes h) ts' + count_list ds h = of_bool (h \<in> set (deleting l))"
      using assms(3) [of h] life_okD(3) [OF assms(1), of h] by simp
    ultimately show ?thesis by (cases "h \<in> set (deleting l)"; cases "h \<in> set ds") auto
  qed
  then show ?thesis using assms(1,2) unfolding life_ok_def by (simp add: set_fold_remove holding_def)
qed

lemma life_same:
  "life_ok l ts \<Longrightarrow> (\<And>h. tally (holds h) ts' = tally (holds h) ts) \<Longrightarrow> (\<And>h. tally (owes h) ts' = tally (owes h) ts) \<Longrightarrow> life_ok l ts'"
  unfolding life_ok_def by simp

lemma life_keep:
  "life_ok l ts \<Longrightarrow> k < length ts \<Longrightarrow> (\<And>h. holds h t = holds h (ts ! k)) \<Longrightarrow> (\<And>h. owes h t = owes h (ts ! k)) \<Longrightarrow> life_ok l (ts[k := t])"
  by (rule life_same) (simp_all add: tally_keep)

section \<open>The invariant\<close>

locale package_site = package_files be filed + blob_files bl sha256 stored intact
  for be :: "('s, 'b) package_backend" and filed and bl :: "'b blob_store" and sha256 and stored and intact
begin

definition up_ok :: "string set \<Rightarrow> upload \<Rightarrow> bool" where
  "up_ok U u \<longleftrightarrow> package_ok (up_id u) \<and> platform_new (os (up_platform u)) (arch (up_platform u)) = Ok (up_platform u)
     \<and> (\<exists>bytes \<in> U. up_sha u = hex_encode (sha256 bytes) \<and> up_size u = length bytes)"

fun thread_ok :: "string set \<Rightarrow> thread \<Rightarrow> bool" where
  "thread_ok U (Admitted i plat stream) \<longleftrightarrow>
     package_ok i \<and> platform_new (os plat) (arch plat) = Ok plat \<and> (\<forall>bytes. stream = Ok bytes \<longrightarrow> bytes \<in> U)"
| "thread_ok U (Sweeping todo ds) \<longleftrightarrow> set todo \<subseteq> set ds"
| "thread_ok U t \<longleftrightarrow> (\<forall>u. upload_of t = Some u \<longrightarrow> up_ok U u)"

text \<open>The artifact of an entry is stored as the entry records it.\<close>

definition kept :: "string set \<Rightarrow> 'b \<Rightarrow> package_entry \<Rightarrow> bool" where
  "kept U b e \<longleftrightarrow> entry_ok e
     \<and> (\<exists>bytes \<in> U. content_hash e = sha256 bytes \<and> entry_size e = length bytes \<and> stored b (blob_name e) = Some bytes)"

definition blobs_ok :: "string set \<Rightarrow> 'b \<Rightarrow> bool" where
  "blobs_ok U b \<longleftrightarrow> intact b \<and> (\<forall>h bytes. stored b h = Some bytes \<longrightarrow> bytes \<in> U)"

definition sets_filed :: "('s, 'b) package_store \<Rightarrow> (nat \<times> upload) option \<Rightarrow> package_sets" where
  "sets_filed ps w = (case w of None \<Rightarrow> ps_sets ps | Some (_, u) \<Rightarrow> put_into_set (up_id u) (up_entry u) (ps_sets ps))"

definition safe :: "string set \<Rightarrow> ('s, 'b) package_store \<Rightarrow> package_entry \<Rightarrow> bool" where
  "safe U ps e \<longleftrightarrow> kept U (ps_blobs ps) e \<and> blob_name e \<notin> set (deleting (ps_life ps))"

definition names_held :: "('s, 'b) package_store \<Rightarrow> (nat \<times> upload) option \<Rightarrow> package_entry set" where
  "names_held ps w = set (all_entries (ps_sets ps)) \<union> (\<lambda>(_, u). up_entry u) ` set_option w"

definition lock_ok :: "thread list \<Rightarrow> (nat \<times> upload) option \<Rightarrow> bool" where
  "lock_ok ts w \<longleftrightarrow> (\<forall>k u. w = Some (k, u) \<longleftrightarrow> k < length ts \<and> ts ! k = Writing u)"

fun site_ok :: "string set \<Rightarrow> ('s, 'b) site \<Rightarrow> bool" where
  "site_ok U (Down s b) \<longleftrightarrow> blobs_ok U b \<and> (\<exists>m. filed s m \<and> (\<forall>e \<in> set (all_entries m). kept U b e))"
| "site_ok U (Up ps ts w) \<longleftrightarrow>
     filed (ps_files ps) (sets_filed ps w) \<and> blobs_ok U (ps_blobs ps)
     \<and> (\<forall>e \<in> names_held ps w. safe U ps e) \<and> (\<forall>k u. w = Some (k, u) \<longrightarrow> map_of (ps_sets ps) (pkey (up_id u)) \<noteq> None)
     \<and> life_ok (ps_life ps) ts \<and> lock_ok ts w \<and> (\<forall>t \<in> set ts. thread_ok U t)"

lemma up_okD:
  assumes "up_ok U u" and "\<And>x. length (sha256 x) = 32"
  shows "entry_ok (up_entry u)" and "blob_name (up_entry u) = up_sha u" and "package_ok (up_id u)"
  using assms by (auto simp: up_ok_def up_entry_def uploaded_entry_def entry_ok_def blob_name_def)

lemma kept_upload:
  assumes "up_ok U u" and "\<And>x. length (sha256 x) = 32" and "inj_on sha256 U" and "blobs_ok U b"
    and "stored b (up_sha u) \<noteq> None"
  shows "kept U b (up_entry u)"
proof -
  obtain bytes where b: "bytes \<in> U" "up_sha u = hex_encode (sha256 bytes)" "up_size u = length bytes"
    using assms(1) by (auto simp: up_ok_def)
  obtain x where x: "stored b (up_sha u) = Some x" using assms(5) by blast
  then have "up_sha u = hex_encode (sha256 x)" "x \<in> U" using assms(4) named_by_hash by (auto simp: blobs_ok_def)
  then have "x = bytes" using b assms(3) by (auto simp: hex_encode_inject dest: inj_onD)
  then show ?thesis
    using up_okD(1,2) [OF assms(1,2)] b x by (auto simp: kept_def up_entry_def uploaded_entry_def)
qed

lemma kept_same: "stored b' = stored b \<Longrightarrow> kept U b' e = kept U b e"
  by (simp add: kept_def)

lemma kept_deleted:
  "kept U b e \<Longrightarrow> stored b' = (stored b)(h := None) \<or> stored b' = stored b \<Longrightarrow> blob_name e \<noteq> h \<Longrightarrow> kept U b' e"
  unfolding kept_def by auto

lemma kept_put:
  "kept U b e \<Longrightarrow> stored b' = (stored b)(h \<mapsto> (case stored b h of None \<Rightarrow> x | Some old \<Rightarrow> old)) \<Longrightarrow> kept U b' e"
  unfolding kept_def by (metis (no_types, lifting) fun_upd_apply option.simps(5))

lemma lock_same:
  assumes "lock_ok ts w" and "k < length ts" and "\<And>u. ts ! k \<noteq> Writing u" and "\<And>u. t' \<noteq> Writing u"
  shows "lock_ok (ts[k := t']) w"
  using assms unfolding lock_ok_def by (metis length_list_update nth_list_update)

lemma lock_append: "lock_ok ts w \<Longrightarrow> (\<And>u. t \<noteq> Writing u) \<Longrightarrow> lock_ok (ts @ [t]) w"
  unfolding lock_ok_def by (auto simp: nth_append less_Suc_eq)

lemma lock_taken:
  assumes "lock_ok ts None" and "k < length ts"
  shows "lock_ok (ts[k := Writing u]) (Some (k, u))"
  using assms unfolding lock_ok_def by (auto simp: nth_list_update split: if_splits)

lemma lock_released:
  assumes "lock_ok ts w" and "k < length ts" and "ts ! k = Writing u" and "\<And>u. t' \<noteq> Writing u"
  shows "lock_ok (ts[k := t']) None" and "w = Some (k, u)"
proof -
  show w: "w = Some (k, u)" using assms unfolding lock_ok_def by blast
  show "lock_ok (ts[k := t']) None"
    using assms w unfolding lock_ok_def by (metis length_list_update nth_list_update option.distinct(1) option.inject prod.inject)
qed

section \<open>Opening\<close>

lemma check_entries_kept:
  assumes "map_of st = (\<lambda>h. map_option length (stored b h))" and "\<And>e. e \<in> set es \<Longrightarrow> kept U b e"
  shows "check_entries st i es = Ok ()"
  using assms(2) by (induction es) (force simp: assms(1) kept_def)+

lemma check_packages_kept:
  assumes "map_of st = (\<lambda>h. map_option length (stored b h))"
    and "\<And>p e. p \<in> set ps \<Longrightarrow> e \<in> set (map snd (pk_entries p)) \<Longrightarrow> kept U b e"
  shows "check_packages st ps m = Ok (fold (\<lambda>e. bt_insert (fst e) (snd e)) (map (\<lambda>p. (pkey (pk_id p), p)) ps) m)"
  using assms(2)
proof (induction ps arbitrary: m)
  case (Cons p ps)
  have "check_entries st (pk_id p) (map snd (pk_entries p)) = Ok ()"
    by (rule check_entries_kept [OF assms(1)]) (use Cons.prems in auto)
  moreover have "check_packages st ps m' = Ok (fold (\<lambda>e. bt_insert (fst e) (snd e)) (map (\<lambda>p. (pkey (pk_id p), p)) ps) m')" for m'
    by (rule Cons.IH) (use Cons.prems in auto)
  ultimately show ?case by simp
qed simp

lemma delete_blobs_spec:
  "intact b \<Longrightarrow> delete_blobs bl hs b = (r, b') \<Longrightarrow>
     intact b' \<and> (\<forall>h. stored b' h = stored b h \<or> (h \<in> set hs \<and> stored b' h = None))
     \<and> (r = Ok () \<longrightarrow> stored b' = (\<lambda>h. if h \<in> set hs then None else stored b h))"
proof (induction hs arbitrary: b)
  case (Cons h hs)
  obtain x b1 where one: "bs_delete bl h b = (x, b1)" by (cases "bs_delete bl h b")
  note del = deleted [OF Cons.prems(1) one]
  show ?case
  proof (cases x)
    case (Inl y)
    then show ?thesis using del one Cons.prems(2) by (auto split: if_splits)
  next
    case (Inr y)
    then have "delete_blobs bl hs b1 = (r, b')" using one Cons.prems(2) by simp
    note rest = Cons.IH [OF conjunct1 [OF del] this]
    have b1: "stored b1 = (stored b)(h := None)" using del Inr by simp
    have "stored b' h' = stored b h' \<or> (h' \<in> set (h # hs) \<and> stored b' h' = None)" for h'
      using conjunct1 [OF conjunct2 [OF rest], rule_format, of h'] unfolding b1 by (auto split: if_splits)
    moreover have "stored b' = (\<lambda>h'. if h' \<in> set (h # hs) then None else stored b h')" if "r = Ok ()"
      using rest that unfolding b1 by (auto simp: fun_eq_iff)
    ultimately show ?thesis using rest by blast
  qed
qed auto

text \<open>
  Over files and blobs that agree, an open finds every artifact: it succeeds with the Packages of the
  files and no blob but theirs, unless a blob no entry names cannot be deleted.
\<close>

lemma open_kept:
  assumes "blobs_ok U b" and "filed s m" and "\<forall>e \<in> set (all_entries m). kept U b e" and "with_backend be bl s b = (r, b')"
  shows "blobs_ok U b' \<and> (\<forall>e \<in> set (all_entries m). kept U b' e)
    \<and> (r = Err BlobUndeleted
       \<or> (\<exists>ps. r = Ok ps \<and> ps_files ps = s \<and> ps_blobs ps = b' \<and> ps_sets ps = m \<and> ps_life ps = no_life
            \<and> (\<forall>h. stored b' h \<noteq> None \<longrightarrow> referenced m h)))"
proof -
  have i: "intact b" using assms(1) by (simp add: blobs_ok_def)
  obtain l where l: "bs_list bl b = Ok l" "distinct (map fst l)" "map_of l = (\<lambda>h. map_option length (stored b h))"
    using listed [OF i] by blast
  have st: "map_of (bt_collect l) = (\<lambda>h. map_option length (stored b h))"
    using l(2,3) map_of_inject_set [of "rev l" l] by (simp add: map_of_bt_collect rev_map [symmetric])
  obtain ps where ps: "pb_load be s = Ok ps" "bt_collect (map (\<lambda>p. (pkey (pk_id p), p)) ps) = m"
    "set (map (\<lambda>p. (pkey (pk_id p), p)) ps) = set m" using load_filed [OF assms(2)] by blast
  have "kept U b e" if p: "p \<in> set ps" and e: "e \<in> set (map snd (pk_entries p))" for p e
  proof -
    have "(pkey (pk_id p), p) \<in> set (map (\<lambda>p. (pkey (pk_id p), p)) ps)" using p by simp
    then have "(pkey (pk_id p), p) \<in> set m" unfolding ps(3) .
    moreover from e obtain pk where "(pk, e) \<in> set (pk_entries p)" by auto
    ultimately have "e \<in> set (all_entries m)" unfolding all_entries_iff by blast
    then show ?thesis using assms(3) by blast
  qed
  then have ok: "check_packages (bt_collect l) ps [] = Ok m"
    using check_packages_kept [OF st, of ps U "[]"] ps(2) by (simp add: bt_collect_def)
  define hs where "hs = filter (\<lambda>h. \<not> referenced m h) (map fst (bt_collect l))"
  obtain x b1 where x: "delete_blobs bl hs b = (x, b1)" by (cases "delete_blobs bl hs b")
  have r: "r = (case x of Inl _ \<Rightarrow> Err BlobUndeleted | Inr _ \<Rightarrow> Ok \<lparr>ps_files = s, ps_blobs = b1, ps_sets = m, ps_life = no_life\<rparr>)" "b' = b1"
    using assms(4) l(1) ps(1) ok x by (auto simp: with_backend_def hs_def Let_def split: sum.splits)
  note d = delete_blobs_spec [OF i x]
  have unnamed: "h \<in> set hs \<Longrightarrow> \<not> referenced m h" for h by (auto simp: hs_def)
  have "kept U b' e" if "e \<in> set (all_entries m)" for e
  proof -
    have "blob_name e \<notin> set hs" using that unnamed referenced_iff by blast
    then have "stored b' (blob_name e) = stored b (blob_name e)" using d r(2) by blast
    then show ?thesis using assms(3) that by (auto simp: kept_def)
  qed
  moreover have "blobs_ok U b'"
  proof -
    have "bytes \<in> U" if "stored b' h = Some bytes" for h bytes
    proof -
      have "stored b h = Some bytes" using conjunct1 [OF conjunct2 [OF d], rule_format, of h] r(2) that by simp
      then show ?thesis using assms(1) unfolding blobs_ok_def by blast
    qed
    then show ?thesis using d r(2) unfolding blobs_ok_def by blast
  qed
  moreover have "referenced m h" if "x = Ok ()" "stored b' h \<noteq> None" for h
  proof -
    have n: "h \<notin> set hs" "stored b h \<noteq> None" using that d r(2) by (auto split: if_splits)
    then have "map_of (bt_collect l) h \<noteq> None" using st by simp
    then have "h \<in> fst ` set (bt_collect l)" unfolding map_of_eq_None_iff by blast
    then show ?thesis using n(1) by (auto simp: hs_def)
  qed
  ultimately show ?thesis using r by (cases x) auto
qed

lemma restart_ok:
  assumes "blobs_ok U b" and "filed s m" and "\<forall>e \<in> set (all_entries m). kept U b e"
  shows "site_ok U (restart be bl s b)"
proof -
  obtain r b' where w: "with_backend be bl s b = (r, b')" by (cases "with_backend be bl s b")
  have "life_ok no_life []" by (simp add: life_ok_def no_life_def holding_def)
  moreover have "lock_ok [] None" by (simp add: lock_ok_def)
  moreover have "deleting no_life = []" by (simp add: no_life_def)
  ultimately show ?thesis
    using open_kept [OF assms w] w assms(2)
    by (auto simp: restart_def sets_filed_def safe_def names_held_def)
qed

end

section \<open>Every step keeps it\<close>

context package_site
begin

lemma safe_same:
  "stored (ps_blobs ps') = stored (ps_blobs ps) \<Longrightarrow> deleting (ps_life ps') = deleting (ps_life ps) \<Longrightarrow> safe U ps' e = safe U ps e"
  by (simp add: safe_def kept_def)

text \<open>A step of a thread that leaves the Packages and the lock alone.\<close>

lemma swap_ok:
  assumes ok: "site_ok U (Up ps ts w)" and k: "k < length ts" "\<And>u. ts ! k \<noteq> Writing u" "\<And>u. t' \<noteq> Writing u" "thread_ok U t'"
    and same: "ps_files ps' = ps_files ps" "ps_sets ps' = ps_sets ps" and b: "blobs_ok U (ps_blobs ps')"
    and safe: "\<And>e. e \<in> names_held ps w \<Longrightarrow> safe U ps e \<Longrightarrow> safe U ps' e" and l: "life_ok (ps_life ps') (ts[k := t'])"
  shows "site_ok U (Up ps' (ts[k := t']) w)"
proof -
  have "names_held ps' w = names_held ps w" "sets_filed ps' w = sets_filed ps w"
    unfolding names_held_def sets_filed_def same by simp_all
  moreover have "lock_ok (ts[k := t']) w" by (rule lock_same [OF _ k(1-3)]) (use ok in simp)
  moreover have "\<forall>t \<in> set (ts[k := t']). thread_ok U t"
    using ok k(4) set_update_subset_insert [of ts k t'] by auto
  ultimately show ?thesis using ok same b safe l by auto
qed

lemma step_admitted:
  assumes "site_ok U (Up ps ts w)" and "k < length ts" and "ts ! k = Admitted i plat stream"
    and "thread_step be bl (ts ! k) ps = (t', ps')"
  shows "site_ok U (Up ps' (ts[k := t']) w)"
proof -
  obtain r b' where put: "bs_put bl stream (ps_blobs ps) = (r, b')" by (cases "bs_put bl stream (ps_blobs ps)")
  have b: "blobs_ok U (ps_blobs ps)" and l: "life_ok (ps_life ps) ts" and t: "thread_ok U (Admitted i plat stream)"
    using assms(1-3) nth_mem by auto fastforce+
  then have i: "intact (ps_blobs ps)" by (simp add: blobs_ok_def)
  have life: "life_ok (ps_life ps) (ts[k := t'])" if "\<And>h. holds h t' = 0" "\<And>h. owes h t' = 0"
    by (rule life_keep [OF l assms(2)]) (simp_all add: that assms(3))
  show ?thesis
  proof (cases r)
    case (Inl x)
    then have res: "t' = Finished" "ps' = ps\<lparr>ps_blobs := b'\<rparr>" using assms(3,4) put by auto
    have st: "intact b'" "stored b' = stored (ps_blobs ps)" using put_err [OF i put [unfolded Inl]] by auto
    show ?thesis
      by (rule swap_ok [OF assms(1,2)])
        (use assms(3) res st b life in \<open>auto simp: blobs_ok_def safe_def kept_same [OF st(2)]\<close>)
  next
    case (Inr y)
    obtain sha n where y: "y = (sha, n)" by (cases y)
    obtain bytes where p: "stream = Ok bytes" "sha = hex_encode (sha256 bytes)" "n = length bytes" "intact b'"
      "stored b' = (stored (ps_blobs ps))(sha \<mapsto> (case stored (ps_blobs ps) sha of None \<Rightarrow> bytes | Some old \<Rightarrow> old))"
      using put_ok [OF i put [unfolded Inr y]] by blast
    have res: "t' = Staged \<lparr>up_id = i, up_platform = plat, up_sha = sha, up_size = n\<rparr>" "ps' = ps\<lparr>ps_blobs := b'\<rparr>"
      using assms(3,4) put Inr y by auto
    have "bytes \<in> U" using t p(1) by simp
    then have "blobs_ok U b'" using b p(4,5) by (auto simp: blobs_ok_def split: if_splits option.splits)
    moreover have "thread_ok U t'" using t p res(1) by (auto simp: up_ok_def)
    ultimately show ?thesis
      by (intro swap_ok [OF assms(1,2)]) (use assms(3) res life kept_put [OF _ p(5)] in \<open>auto simp: safe_def\<close>)
  qed
qed

lemma thread_at: "site_ok U (Up ps ts w) \<Longrightarrow> k < length ts \<Longrightarrow> thread_ok U (ts ! k)"
  by simp

lemma step_staged:
  assumes "site_ok U (Up ps ts w)" and "k < length ts" and "ts ! k = Staged u"
    and "thread_step be bl (ts ! k) ps = (t', ps')"
  shows "site_ok U (Up ps' (ts[k := t']) w)"
proof -
  have b: "blobs_ok U (ps_blobs ps)" and l: "life_ok (ps_life ps) ts" using assms(1) by auto
  have u: "up_ok U u" using thread_at [OF assms(1,2)] assms(3) by simp
  show ?thesis
  proof (cases "begin_upload (up_sha u) (ps_life ps)")
    case None
    then have res: "t' = Ended u (Err UploadRemoved)" "ps' = ps" using assms(3,4) by (auto simp: held_upload_def)
    have "life_ok (ps_life ps) (ts[k := t'])"
      by (rule life_keep [OF l assms(2)]) (simp_all add: res(1) assms(3))
    then show ?thesis by (intro swap_ok [OF assms(1,2)]) (use assms(3) res b u in auto)
  next
    case (Some l')
    then have res: "t' = Held u" "ps' = ps\<lparr>ps_life := l'\<rparr>" using assms(3,4) by (auto simp: held_upload_def)
    have "tally (holds h) (ts[k := t']) = tally (holds h) ts + of_bool (h = up_sha u)"
      "tally (owes h) (ts[k := t']) = tally (owes h) ts" for h
      by (rule tally_more [OF assms(2)], auto simp: assms(3) res(1)) (rule tally_keep [OF assms(2)], simp add: assms(3) res(1))
    from life_begin [OF l Some this]
    have "life_ok l' (ts[k := t'])" "deleting l' = deleting (ps_life ps)" .
    then show ?thesis by (intro swap_ok [OF assms(1,2)]) (use assms(3) res b u in \<open>auto simp: safe_def\<close>)
  qed
qed

lemma step_held:
  assumes ok: "site_ok U (Up ps ts w)" and k: "k < length ts" and t: "ts ! k = Held u" and "\<not> waits (ts ! k) w"
    and step: "thread_step be bl (ts ! k) ps = (t', ps')" and sha: "\<And>x. length (sha256 x) = 32" "inj_on sha256 U"
  shows "site_ok U (Up ps' (ts[k := t']) (lock_after k (ts ! k) t' w))"
proof -
  have b: "blobs_ok U (ps_blobs ps)" and l: "life_ok (ps_life ps) ts" and lk: "lock_ok ts w" using ok by auto
  have u: "up_ok U u" using thread_at [OF ok k] t by simp
  have i: "intact (ps_blobs ps)" using b by (simp add: blobs_ok_def)
  have answered: "site_ok U (Up ps'' (ts[k := Answered u (Err x)]) w)"
    if "ps_files ps'' = ps_files ps" "ps_sets ps'' = ps_sets ps" "ps_life ps'' = ps_life ps" "blobs_ok U (ps_blobs ps'')"
      "stored (ps_blobs ps'') = stored (ps_blobs ps)" for ps'' x
  proof (rule swap_ok [OF ok k])
    show "life_ok (ps_life ps'') (ts[k := Answered u (Err x)])"
      unfolding that(3) by (rule life_keep [OF l k]) (simp_all add: t)
    show "safe U ps'' e" if "safe U ps e" for e
      using that safe_same [OF \<open>stored (ps_blobs ps'') = stored (ps_blobs ps)\<close>] \<open>ps_life ps'' = ps_life ps\<close> by simp
  qed (use t that u in simp_all)
  show ?thesis
  proof (cases "up_size u = 0")
    case True
    then have "t' = Answered u (Err UploadEmpty)" "ps' = ps" using step t by auto
    then show ?thesis using answered [of ps UploadEmpty] b by (simp add: lock_after_def t)
  next
    case size: False
    then have w: "w = None" using assms(4) t by (simp add: waits_def)
    then have f: "filed (ps_files ps) (ps_sets ps)" using ok by (simp add: sets_filed_def)
    show ?thesis
    proof (cases "map_of (ps_sets ps) (pkey (up_id u)) = None")
      case True
      then have "t' = Answered u (Err UploadNoSet)" "ps' = ps" using step t size by (auto simp: record_entry_def domIff)
      then show ?thesis using answered [of ps UploadNoSet] b by (simp add: lock_after_def t)
    next
      case set: False
      obtain r s' b' where put: "pb_put_entry be (up_id u) (up_entry u) (bs_exists bl (up_sha u)) (ps_files ps) (ps_blobs ps) = (r, s', b')"
        by (cases "pb_put_entry be (up_id u) (up_entry u) (bs_exists bl (up_sha u)) (ps_files ps) (ps_blobs ps)")
      note p = put_filed [OF f up_okD(3) [OF u sha(1)] up_okD(1) [OF u sha(1)] set put]
      obtain q where q: "bs_exists bl (up_sha u) (ps_blobs ps) = (q, b')" using p by (metis prod.collapse)
      note e = exists_asked [OF i q]
      have b': "blobs_ok U b'" using b e by (simp add: blobs_ok_def)
      show ?thesis
      proof (cases r)
        case (Inl x)
        then have res: "t' = Answered u (Err (of_put_error x))" "ps' = ps\<lparr>ps_files := s', ps_blobs := b'\<rparr>"
          using step t size set put by (auto simp: record_entry_def domIff)
        have "filed s' (ps_sets ps)" using p Inl by simp
        moreover have "site_ok U (Up (ps\<lparr>ps_blobs := b'\<rparr>) (ts[k := t']) w)"
          unfolding res(1) by (rule answered) (use e b' in simp_all)
        ultimately show ?thesis
          unfolding res w by (auto simp: lock_after_def t sets_filed_def names_held_def safe_def)
      next
        case (Inr x)
        then have res: "t' = Writing u" "ps' = ps\<lparr>ps_files := s', ps_blobs := b'\<rparr>"
          using step t size set put by (auto simp: record_entry_def domIff)
        have new: "filed s' (put_into_set (up_id u) (up_entry u) (ps_sets ps))" "stored (ps_blobs ps) (up_sha u) \<noteq> None"
          using p q e Inr by auto
        have "holds (up_sha u) (ts ! k) = 1" using t by simp
        then have "0 < tally (holds (up_sha u)) ts" using tally_pos [OF k, of "holds (up_sha u)"] by simp
        then have "up_sha u \<notin> set (deleting (ps_life ps))" using life_okD(4) [OF l, of "up_sha u"] by auto
        then have "safe U ps' (up_entry u)"
          using kept_upload [OF u sha b new(2)] e up_okD(2) [OF u sha(1)] unfolding res(2) by (simp add: safe_def kept_def)
        moreover have "safe U ps' x" if "x \<in> set (all_entries (ps_sets ps))" for x
          using ok that safe_same [of ps' ps] e unfolding res(2) by (simp add: names_held_def)
        moreover have "life_ok (ps_life ps) (ts[k := t'])" by (rule life_keep [OF l k]) (simp_all add: t res)
        moreover have "lock_ok (ts[k := t']) (Some (k, u))" using lock_taken [OF lk [unfolded w] k] res(1) by simp
        moreover have "\<forall>y \<in> set (ts[k := t']). thread_ok U y"
          using ok u res(1) set_update_subset_insert [of ts k t'] by auto
        ultimately show ?thesis
          using new(1) b' set unfolding res(2) lock_after_def res(1)
          by (auto simp: sets_filed_def names_held_def)
      qed
    qed
  qed
qed

lemma step_writing:
  assumes ok: "site_ok U (Up ps ts w)" and k: "k < length ts" and t: "ts ! k = Writing u"
    and step: "thread_step be bl (ts ! k) ps = (t', ps')" and sha: "\<And>x. length (sha256 x) = 32"
  shows "site_ok U (Up ps' (ts[k := t']) (lock_after k (ts ! k) t' w))"
proof -
  have l: "life_ok (ps_life ps) ts" and lk: "lock_ok ts w" using ok by auto
  have u: "up_ok U u" using thread_at [OF ok k] t by simp
  have w: "w = Some (k, u)" using lk k t by (simp add: lock_ok_def)
  define m where "m = put_into_set (up_id u) (up_entry u) (ps_sets ps)"
  have f: "filed (ps_files ps) m" and set: "map_of (ps_sets ps) (pkey (up_id u)) \<noteq> None"
    using ok w by (auto simp: sets_filed_def m_def)
  define hs where "hs = (case previous_entry (up_id u) (entry_platform (up_entry u)) (ps_sets ps) of None \<Rightarrow> [] | Some old \<Rightarrow> [blob_name old])"
  obtain ds l' where d: "doom_all m hs (ps_life ps) = (ds, l')" by (cases "doom_all m hs (ps_life ps)")
  have res: "t' = Answered u (Ok ds)" "ps' = ps\<lparr>ps_sets := m, ps_life := l'\<rparr>"
    using step t set d
    by (auto simp: hold_upload_def domIff Let_def m_def hs_def split: option.splits prod.splits)
  have safe: "safe U ps' e" if "e \<in> set (all_entries m)" for e
  proof -
    have "safe U ps e" using ok w that entries_put [of "up_id u" "up_entry u" "ps_sets ps"] by (auto simp: names_held_def m_def)
    moreover have "blob_name e \<notin> set ds" using doom_all_spec(6) [OF d] that referenced_iff by blast
    ultimately show ?thesis using doom_all_spec(4) [OF d] res(2) by (simp add: safe_def)
  qed
  have "life_ok l' (ts[k := t'])"
    by (rule life_doomed [OF l d]) (simp_all add: tally_keep [OF k] tally_more [OF k] res(1) t)
  moreover have "lock_ok (ts[k := t']) None" by (rule lock_released(1) [OF lk k t]) (simp add: res(1))
  moreover have "\<forall>y \<in> set (ts[k := t']). thread_ok U y"
    using ok u res(1) set_update_subset_insert [of ts k t'] by auto
  ultimately show ?thesis
    using f safe ok unfolding res lock_after_def t by (auto simp: sets_filed_def names_held_def)
qed

lemma step_answered:
  assumes ok: "site_ok U (Up ps ts w)" and k: "k < length ts" and t: "ts ! k = Answered u r"
    and step: "thread_step be bl (ts ! k) ps = (t', ps')"
  shows "site_ok U (Up ps' (ts[k := t']) w)"
proof -
  have b: "blobs_ok U (ps_blobs ps)" and l: "life_ok (ps_life ps) ts" using ok by auto
  have u: "up_ok U u" using thread_at [OF ok k] t by simp
  have res: "t' = Ended u r" "ps' = ps\<lparr>ps_life := end_upload (up_sha u) (ps_life ps)\<rparr>" using step t by (auto simp: let_go_def)
  have tallies: "tally (holds h) (ts[k := t']) + of_bool (h = up_sha u) = tally (holds h) ts"
    "tally (owes h) (ts[k := t']) = tally (owes h) ts" for h
    by (rule tally_less [OF k], auto simp: res(1) t) (rule tally_keep [OF k], cases r, simp_all add: res(1) t)
  show ?thesis
    by (rule swap_ok [OF ok k])
      (use t res u b life_end [OF l tallies] in \<open>auto simp: safe_def\<close>)
qed

lemma sweep_list_subset: "set (sweep_list be ds s) \<subseteq> set ds"
  by (auto simp: sweep_list_def split: sum.splits)

lemma step_ended:
  assumes ok: "site_ok U (Up ps ts w)" and k: "k < length ts" and t: "ts ! k = Ended u r"
    and step: "thread_step be bl (ts ! k) ps = (t', ps')"
  shows "site_ok U (Up ps' (ts[k := t']) w)"
proof -
  have b: "blobs_ok U (ps_blobs ps)" and l: "life_ok (ps_life ps) ts" using ok by auto
  show ?thesis
  proof (cases r)
    case (Inr ds)
    then have res: "t' = Sweeping (sweep_list be ds (ps_files ps)) ds" "ps' = ps" using step t by (auto simp: sweeping_def)
    have "life_ok (ps_life ps) (ts[k := t'])" by (rule life_keep [OF l k]) (simp_all add: t res(1) Inr)
    then show ?thesis by (intro swap_ok [OF ok k]) (use t res b sweep_list_subset in auto)
  next
    case (Inl err)
    define hs where "hs = (if err = UploadUnanswered then [] else [up_sha u])"
    obtain ds l' where d: "doom_all (ps_sets ps) hs (ps_life ps) = (ds, l')" by (cases "doom_all (ps_sets ps) hs (ps_life ps)")
    have res: "t' = Sweeping (sweep_list be ds (ps_files ps)) ds" "ps' = ps\<lparr>ps_life := l'\<rparr>"
      using step t d Inl by (auto simp: doom_failed_def hs_def sweeping_def Let_def split: if_splits option.splits prod.splits)
    have "life_ok l' (ts[k := t'])"
      by (rule life_doomed [OF l d]) (simp_all add: tally_keep [OF k] tally_more [OF k] res(1) t Inl)
    moreover have "safe U ps' e" if e: "e \<in> names_held ps w" "safe U ps e" for e
    proof -
      have "blob_name e \<notin> set ds"
      proof (cases "e \<in> set (all_entries (ps_sets ps))")
        case True
        then show ?thesis using doom_all_spec(6) [OF d] referenced_iff by blast
      next
        case False
        then obtain j v where v: "w = Some (j, v)" "e = up_entry v" using e(1) by (auto simp: names_held_def)
        then have j: "j < length ts" "ts ! j = Writing v" using ok by (auto simp: lock_ok_def)
        have v': "up_ok U v" using thread_at [OF ok j(1)] j(2) by simp
        have name: "blob_name e = up_sha v"
          using v' v(2) by (auto simp: up_ok_def up_entry_def uploaded_entry_def blob_name_def)
        have "0 < tally (holds (up_sha v)) ts" using tally_pos [OF j(1), of "holds (up_sha v)"] j(2) by simp
        then have "holding (ps_life ps) (up_sha v) \<noteq> 0" using life_okD(1) [OF l, of "up_sha v"] by simp
        then show ?thesis using doom_all_spec(6) [OF d, of "up_sha v"] name by (auto simp: holding_def)
      qed
      then show ?thesis using e(2) doom_all_spec(4) [OF d] res(2) by (simp add: safe_def)
    qed
    ultimately show ?thesis by (intro swap_ok [OF ok k]) (use t res b sweep_list_subset in auto)
  qed
qed

lemma step_sweeping:
  assumes ok: "site_ok U (Up ps ts w)" and k: "k < length ts" and t: "ts ! k = Sweeping todo ds"
    and step: "thread_step be bl (ts ! k) ps = (t', ps')"
  shows "site_ok U (Up ps' (ts[k := t']) w)"
proof -
  have b: "blobs_ok U (ps_blobs ps)" and l: "life_ok (ps_life ps) ts" using ok by auto
  have sub: "set todo \<subseteq> set ds" using thread_at [OF ok k] t by simp
  show ?thesis
  proof (cases todo)
    case Nil
    then have res: "t' = Finished" "ps' = ps\<lparr>ps_life := (ps_life ps)\<lparr>deleting := fold bs_remove ds (deleting (ps_life ps))\<rparr>\<rparr>"
      using step t by (auto simp: sweep_end_def)
    have "life_ok (ps_life ps') (ts[k := t'])"
      unfolding res(2) by (simp, rule life_swept [OF l]) (simp_all add: tally_keep [OF k] tally_less [OF k] res(1) t)
    then show ?thesis by (intro swap_ok [OF ok k]) (use t res b in \<open>auto simp: safe_def set_fold_remove\<close>)
  next
    case (Cons h hs)
    obtain x b' where x: "bs_delete bl h (ps_blobs ps) = (x, b')" by (cases "bs_delete bl h (ps_blobs ps)")
    have res: "t' = Sweeping hs ds" "ps' = ps\<lparr>ps_blobs := b'\<rparr>" using step t Cons x by (auto simp: sweep_one_def)
    have i: "intact (ps_blobs ps)" using b by (simp add: blobs_ok_def)
    note d = deleted [OF i x]
    have "h \<in> set ds" using sub Cons by simp
    then have "owes h (ts ! k) \<noteq> 0" using t by (simp add: count_list_0_iff)
    then have "tally (owes h) ts \<noteq> 0" using tally_pos [OF k, of "owes h"] by simp
    then have del: "h \<in> set (deleting (ps_life ps))" using life_okD(3) [OF l, of h] by (auto split: if_splits)
    have "blobs_ok U b'" using b d unfolding blobs_ok_def by (metis fun_upd_apply option.distinct(1))
    moreover have "life_ok (ps_life ps') (ts[k := t'])" unfolding res(2)
      by (simp, rule life_keep [OF l k]) (simp_all add: t res(1))
    moreover have "safe U ps' e" if "safe U ps e" for e
    proof -
      have "blob_name e \<noteq> h" using that del by (auto simp: safe_def)
      then show ?thesis using that kept_deleted [of U "ps_blobs ps" e b' h] d unfolding res(2) by (simp add: safe_def)
    qed
    ultimately show ?thesis by (intro swap_ok [OF ok k]) (use t res sub Cons in auto)
  qed
qed

lemma thread_step_writing: "thread_step be' bl' t ps = (Writing u, ps') \<Longrightarrow> t = Held u"
  by (cases "(be', bl', t, ps)" rule: thread_step.cases)
    (auto simp: sweeping_def split: sum.splits prod.splits option.splits if_splits)

lemma advance_ok:
  assumes ok: "site_ok U (Up ps ts w)" and sha: "\<And>x. length (sha256 x) = 32" "inj_on sha256 U"
  shows "site_ok U (advance be bl k ps ts w)"
proof (cases "length ts \<le> k \<or> waits (ts ! k) w")
  case True
  then show ?thesis using ok by (simp add: advance_def)
next
  case False
  then have k: "k < length ts" "\<not> waits (ts ! k) w" by auto
  obtain t' ps' where s: "thread_step be bl (ts ! k) ps = (t', ps')" by (cases "thread_step be bl (ts ! k) ps")
  then have adv: "advance be bl k ps ts w = Up ps' (ts[k := t']) (lock_after k (ts ! k) t' w)"
    using False by (auto simp: advance_def)
  have plain: "lock_after k (ts ! k) t' w = w" if "\<And>u. ts ! k \<noteq> Writing u" "\<And>u. t' \<noteq> Writing u"
    using that by (auto simp: lock_after_def split: thread.splits)
  have never: "t' \<noteq> Writing u" if "\<And>v. ts ! k \<noteq> Held v" for u
    using thread_step_writing [of be bl "ts ! k" ps u ps'] s that by auto
  show ?thesis
  proof (cases "ts ! k")
    case (Admitted i plat stream)
    then show ?thesis using step_admitted [OF ok k(1) Admitted s] plain never adv by simp
  next
    case (Staged u)
    then show ?thesis using step_staged [OF ok k(1) Staged s] plain never adv by simp
  next
    case (Held u)
    then show ?thesis using step_held [OF ok k(1) Held k(2) s sha] adv by simp
  next
    case (Writing u)
    then show ?thesis using step_writing [OF ok k(1) Writing s sha(1)] adv by simp
  next
    case (Answered u r)
    then show ?thesis using step_answered [OF ok k(1) Answered s] plain never adv by simp
  next
    case (Ended u r)
    then show ?thesis using step_ended [OF ok k(1) Ended s] plain never adv by simp
  next
    case (Sweeping todo ds)
    then show ?thesis using step_sweeping [OF ok k(1) Sweeping s] plain never adv by simp
  next
    case Finished
    then have "t' = Finished" "ps' = ps" "ts[k := t'] = ts" using s list_update_id [of ts k] by auto
    then show ?thesis using ok adv plain Finished by simp
  qed
qed

end

section \<open>Acts under the lock\<close>

definition uploaded :: "site_act list \<Rightarrow> string set" where
  "uploaded acts = {bytes. \<exists>ty ver o' a'. Upload ty ver o' a' (Ok bytes) \<in> set acts}"

lemma uploaded_Cons: "uploaded (a # acts) = uploaded [a] \<union> uploaded acts"
  by (auto simp: uploaded_def)

context package_site
begin

lemma locked_ok:
  assumes ok: "site_ok U (Up ps ts None)" and f: "filed s' m'" and safe: "\<And>e. e \<in> set (all_entries m') \<Longrightarrow> safe U ps e"
    and d: "doom_all m' hs (ps_life ps) = (ds, l')"
  shows "site_ok U (Up (ps\<lparr>ps_files := s', ps_sets := m', ps_life := l'\<rparr>) (ts @ [sweeping be ds ps']) None)"
proof -
  have "life_ok (ps_life ps) ts" and lk: "lock_ok ts None" using ok by auto
  then have "life_ok l' (ts @ [sweeping be ds ps'])" using life_doomed [OF _ d] by (simp add: sweeping_def)
  moreover have "safe U (ps\<lparr>ps_files := s', ps_sets := m', ps_life := l'\<rparr>) e" if e: "e \<in> set (all_entries m')" for e
  proof -
    have "blob_name e \<notin> set ds" using doom_all_spec(6) [OF d] e referenced_iff by blast
    then show ?thesis using safe [OF e] doom_all_spec(4) [OF d] by (simp add: safe_def)
  qed
  moreover have "lock_ok (ts @ [sweeping be ds ps']) None" by (rule lock_append [OF lk]) (simp add: sweeping_def)
  moreover have "thread_ok U (sweeping be ds ps')" using sweep_list_subset by (simp add: sweeping_def)
  ultimately show ?thesis using ok f by (auto simp: sets_filed_def names_held_def)
qed

lemma replaced_ok:
  assumes "site_ok U (Up ps ts None)" and "filed s' m'" and "\<And>e. e \<in> set (all_entries m') \<Longrightarrow> safe U ps e"
  shows "site_ok U (Up (ps\<lparr>ps_files := s', ps_sets := m'\<rparr>) ts None)"
  using assms by (auto simp: sets_filed_def names_held_def safe_def)

lemma refiled_ok: "site_ok U (Up ps ts None) \<Longrightarrow> filed s' (ps_sets ps) \<Longrightarrow> site_ok U (Up (ps\<lparr>ps_files := s'\<rparr>) ts None)"
  by (auto simp: sets_filed_def names_held_def safe_def)

lemma held_facts:
  assumes "site_ok U (Up ps ts None)"
  shows "filed (ps_files ps) (ps_sets ps)" and "\<And>e. e \<in> set (all_entries (ps_sets ps)) \<Longrightarrow> safe U ps e"
  using assms by (auto simp: sets_filed_def names_held_def)

lemma create_ok:
  assumes ok: "site_ok U (Up ps ts None)" and i: "package_ok i"
  shows "site_ok U (Up (snd (ps_create be i ps)) ts None)"
proof (cases "map_of (ps_sets ps) (pkey i)")
  case None
  obtain r s' where c: "pb_create be i (ps_files ps) = (r, s')" by (cases "pb_create be i (ps_files ps)")
  note f = create_filed [OF held_facts(1) [OF ok] i None c]
  show ?thesis
  proof (cases r)
    case (Inl x)
    then show ?thesis using c None f refiled_ok [OF ok] by (simp add: ps_create_def domIff)
  next
    case (Inr x)
    have "safe U ps e" if "e \<in> set (all_entries (bt_insert (pkey i) \<lparr>pk_id = i, pk_entries = []\<rparr> (ps_sets ps)))" for e
      using entries_create that held_facts(2) [OF ok] by blast
    from replaced_ok [OF ok _ this] show ?thesis using c None f Inr by (simp add: ps_create_def domIff)
  qed
qed (use ok in \<open>simp add: ps_create_def domIff\<close>)

lemma safe_signed:
  assumes "safe U ps e" and "\<forall>x. sig = Some x \<longrightarrow> length x = ED25519_SIGNATURE_LEN"
  shows "safe U ps (e\<lparr>entry_signature := sig\<rparr>)"
  using assms by (auto simp: safe_def kept_def entry_ok_def blob_name_def)

lemma write_signature_ok:
  assumes ok: "site_ok U (Up ps ts None)" and i: "package_ok i" and e: "previous_entry i plat (ps_sets ps) = Some e"
    and sig: "\<forall>x. sig = Some x \<longrightarrow> length x = ED25519_SIGNATURE_LEN"
  shows "site_ok U (Up (snd (write_signature be i plat e sig ps)) ts None)"
proof -
  obtain r s' where c: "pb_sign be i plat (content_hash e) sig (ps_files ps) = (r, s')" by (cases "pb_sign be i plat (content_hash e) sig (ps_files ps)")
  define e' where "e' = e\<lparr>entry_signature := sig\<rparr>"
  from sign_filed [OF held_facts(1) [OF ok] i e sig c]
  show ?thesis
  proof (elim disjE exE conjE)
    fix x assume "r = Err x" "filed s' (ps_sets ps)"
    then show ?thesis using c refiled_ok [OF ok] by (simp add: write_signature_def)
  next
    assume r: "r = Ok SignedWritten" and f: "filed s' (set_entry i plat (Some (e\<lparr>entry_signature := sig\<rparr>)) (ps_sets ps))"
    have "safe U ps e'" unfolding e'_def
      by (rule safe_signed [OF held_facts(2) [OF ok previous_entry_in [OF e]] sig])
    then have "safe U ps x" if "x \<in> set (all_entries (set_entry i plat (Some e') (ps_sets ps)))" for x
      using entries_set [of i plat e' "ps_sets ps"] that held_facts(2) [OF ok] by blast
    from replaced_ok [OF ok f [folded e'_def] this] show ?thesis
      using c r by (simp add: write_signature_def Let_def e'_def)
  qed
qed

lemma put_signature_ok:
  assumes ok: "site_ok U (Up ps ts None)" and i: "package_ok i"
  shows "site_ok U (Up (snd (put_signature be key i plat sig ps)) ts None)"
proof (cases "previous_entry i plat (ps_sets ps)")
  case None
  then show ?thesis using ok by (auto simp: put_signature_def previous_entry_def split: option.splits)
next
  case (Some e)
  then obtain p where p: "map_of (ps_sets ps) (pkey i) = Some p" "map_of (pk_entries p) (plat_key plat) = Some e"
    by (auto simp: previous_entry_def split: option.splits)
  show ?thesis
  proof (cases "length sig = ED25519_SIGNATURE_LEN \<and> sig \<noteq> []")
    case True
    from write_signature_ok [OF ok i Some, of "Some sig"] True show ?thesis
      using p by (auto simp: put_signature_def split: sum.splits prod.splits)
  qed (use ok in \<open>auto simp: put_signature_def\<close>)
qed

lemma remove_signature_ok:
  assumes ok: "site_ok U (Up ps ts None)" and i: "package_ok i"
  shows "site_ok U (Up (snd (remove_signature be i plat ps)) ts None)"
proof (cases "previous_entry i plat (ps_sets ps)")
  case None
  then show ?thesis using ok by (auto simp: remove_signature_def previous_entry_def split: option.splits)
next
  case (Some e)
  then obtain p where p: "map_of (ps_sets ps) (pkey i) = Some p" "map_of (pk_entries p) (plat_key plat) = Some e"
    by (auto simp: previous_entry_def split: option.splits)
  from write_signature_ok [OF ok i Some, of None] show ?thesis
    using p ok by (auto simp: remove_signature_def split: sum.splits prod.splits)
qed

lemma remove_entry_ok:
  assumes ok: "site_ok U (Up ps ts None)" and i: "package_ok i"
  shows "site_ok U (then_sweep be ts (remove_entry_locked be i plat ps))"
proof (cases "previous_entry i plat (ps_sets ps)")
  case None
  then show ?thesis using ok by (simp add: remove_entry_locked_def then_sweep_def)
next
  case (Some e)
  obtain r s' where c: "pb_remove_entry be i plat (ps_files ps) = (r, s')" by (cases "pb_remove_entry be i plat (ps_files ps)")
  note f = remove_entry_filed [OF held_facts(1) [OF ok] i Some c]
  show ?thesis
  proof (cases r)
    case (Inl x)
    then show ?thesis using c Some f refiled_ok [OF ok] by (simp add: remove_entry_locked_def then_sweep_def)
  next
    case (Inr x)
    define m where "m = set_entry i plat None (ps_sets ps)"
    obtain ds l' where d: "doom_all m [blob_name e] (ps_life ps) = (ds, l')" by (cases "doom_all m [blob_name e] (ps_life ps)")
    have safe: "safe U ps x" if "x \<in> set (all_entries m)" for x
      using entries_unset [of i plat "ps_sets ps"] that held_facts(2) [OF ok] unfolding m_def by blast
    have "remove_entry_locked be i plat ps = (Ok (Some ds), ps\<lparr>ps_files := s', ps_sets := m, ps_life := l'\<rparr>)"
      using c Some Inr d by (auto simp: remove_entry_locked_def m_def Let_def split: prod.splits option.splits)
    then show ?thesis using locked_ok [OF ok _ safe d] f Inr by (simp add: then_sweep_def m_def)
  qed
qed

lemma remove_set_ok:
  assumes ok: "site_ok U (Up ps ts None)" and i: "package_ok i"
  shows "site_ok U (then_sweep be ts (remove_set be i ps))"
proof (cases "map_of (ps_sets ps) (pkey i)")
  case None
  then show ?thesis using ok by (simp add: remove_set_def then_sweep_def)
next
  case (Some p)
  obtain r s' where c: "pb_remove be i (ps_files ps) = (r, s')" by (cases "pb_remove be i (ps_files ps)")
  note f = remove_filed [OF held_facts(1) [OF ok] i c]
  show ?thesis
  proof (cases r)
    case (Inl x)
    then show ?thesis using c Some f refiled_ok [OF ok] by (simp add: remove_set_def then_sweep_def)
  next
    case (Inr x)
    define m hs where "m = bt_remove (pkey i) (ps_sets ps)" and "hs = map (\<lambda>(_, e). blob_name e) (pk_entries p)"
    obtain ds l' where d: "doom_all m hs (ps_life ps) = (ds, l')" by (cases "doom_all m hs (ps_life ps)")
    have safe: "safe U ps x" if "x \<in> set (all_entries m)" for x
      using entries_remove [of "pkey i" "ps_sets ps"] that held_facts(2) [OF ok] unfolding m_def by blast
    have "remove_set be i ps = (Ok (Some ds), ps\<lparr>ps_files := s', ps_sets := m, ps_life := l'\<rparr>)"
      using c Some Inr d by (simp add: remove_set_def m_def hs_def)
    then show ?thesis using locked_ok [OF ok _ safe d] f Inr by (simp add: then_sweep_def m_def)
  qed
qed

lemma reload_ok:
  assumes ok: "site_ok U (Up ps ts None)"
  shows "site_ok U (Up (snd (ps_reload be ps)) ts None)"
proof -
  obtain packs where "pb_load be (ps_files ps) = Ok packs" "bt_collect (map (\<lambda>p. (pkey (pk_id p), p)) packs) = ps_sets ps"
    using load_filed [OF held_facts(1) [OF ok]] by blast
  then show ?thesis using ok by (simp add: ps_reload_def)
qed

lemma with_id_ok: "P refused \<Longrightarrow> (\<And>i. package_ok i \<Longrightarrow> P (f i)) \<Longrightarrow> P (with_id ty ver refused f)"
  by (auto simp: with_id_def package_load_ok split: sum.splits)

lemma with_entry_ok:
  "P refused \<Longrightarrow> (\<And>i plat. package_ok i \<Longrightarrow> platform_new (os plat) (arch plat) = Ok plat \<Longrightarrow> P (f i plat))
   \<Longrightarrow> P (with_entry ty ver o' a' refused f)"
  unfolding with_entry_def by (rule with_id_ok) (auto split: sum.splits dest: platform_new_again)

lemma locked_act_ok: "site_ok U (Up ps ts None) \<Longrightarrow> site_ok U (locked_act be act ps ts)"
  by (cases act)
    (simp_all del: site_ok.simps
      add: with_id_ok [where P = "site_ok U"] with_entry_ok [where P = "site_ok U"]
        create_ok put_signature_ok remove_signature_ok remove_entry_ok remove_set_ok reload_ok)

lemma site_step_ok:
  assumes ok: "site_ok U st" and sha: "\<And>x. length (sha256 x) = 32" "inj_on sha256 U" and u: "uploaded [act] \<subseteq> U"
  shows "site_ok U (site_step be bl act st)"
proof (cases st)
  case (Down s b)
  then show ?thesis using ok restart_ok by (cases act) auto
next
  case (Up ps ts w)
  have rest: "site_ok U (restart be bl (ps_files ps) (ps_blobs ps))"
  proof (rule restart_ok)
    show "blobs_ok U (ps_blobs ps)" "filed (ps_files ps) (sets_filed ps w)" using ok Up by auto
    show "\<forall>e \<in> set (all_entries (sets_filed ps w)). kept U (ps_blobs ps) e"
      using ok Up entries_put by (fastforce simp: sets_filed_def names_held_def safe_def split: option.splits)
  qed
  have upload: "site_ok U (Up ps (ts @ [Admitted i plat stream]) w)"
    if "package_ok i" "platform_new (os plat) (arch plat) = Ok plat" "\<forall>bytes. stream = Ok bytes \<longrightarrow> bytes \<in> U" for i plat stream
  proof -
    have "lock_ok (ts @ [Admitted i plat stream]) w" by (rule lock_append) (use ok Up in auto)
    moreover have "life_ok (ps_life ps) (ts @ [Admitted i plat stream])" by (rule life_same [of _ ts]) (use ok Up in auto)
    ultimately show ?thesis using ok Up that by auto
  qed
  show ?thesis
  proof (cases act)
    case (Upload ty ver o' a' stream)
    then have "\<forall>bytes. stream = Ok bytes \<longrightarrow> bytes \<in> U" using u by (auto simp: uploaded_def)
    then show ?thesis
      unfolding Up Upload site_step.simps site_act.case
      by (intro with_entry_ok [where P = "site_ok U"]) (use ok [unfolded Up] upload in \<open>simp_all del: site_ok.simps\<close>)
  next
    case (Advance k)
    then show ?thesis using advance_ok [OF ok [unfolded Up] sha] Up by simp
  next
    case Restart
    then show ?thesis using rest Up by simp
  qed (use ok [unfolded Up] locked_act_ok Up in \<open>auto simp del: site_ok.simps locked_act.simps\<close>)
qed

lemma site_run_ok:
  assumes "\<And>x. length (sha256 x) = 32" and "inj_on sha256 U"
  shows "site_ok U st \<Longrightarrow> uploaded acts \<subseteq> U \<Longrightarrow> site_ok U (fold (site_step be bl) acts st)"
proof (induction acts arbitrary: st)
  case (Cons a acts)
  have "uploaded [a] \<subseteq> U" "uploaded acts \<subseteq> U" using Cons.prems(2) uploaded_Cons [of a acts] by blast+
  then show ?case using Cons site_step_ok [OF _ assms] by simp
qed simp

end

section \<open>One thread alone\<close>

text \<open>Run with nothing in between, the phases of an upload are \<open>put_entry_from\<close>.\<close>

inductive runs :: "('s, 'b) package_backend \<Rightarrow> 'b blob_store \<Rightarrow> thread \<times> ('s, 'b) package_store \<Rightarrow> thread \<times> ('s, 'b) package_store \<Rightarrow> bool"
  for be bl where
  stay: "runs be bl x x"
| go: "thread_step be bl t ps = x \<Longrightarrow> runs be bl x y \<Longrightarrow> runs be bl (t, ps) y"

lemma runs_sweep: "runs be bl (Sweeping todo ds, ps) (Finished, sweep_end ds (fold (sweep_one bl) todo ps))"
proof (induction todo arbitrary: ps)
  case Nil
  show ?case by (rule runs.go [OF _ runs.stay]) simp
next
  case (Cons h hs)
  then have "runs be bl (Sweeping hs ds, sweep_one bl h ps) (Finished, sweep_end ds (fold (sweep_one bl) (h # hs) ps))" by simp
  then show ?case by (intro runs.go) simp_all
qed

lemma runs_sweeping: "runs be bl (sweeping be ds ps, ps) (Finished, sweep be bl ds ps)"
  unfolding sweeping_def sweep_def by (rule runs_sweep)

lemma runs_recorded:
  assumes "(r, ps') = (if up_size u = 0 then (Err UploadEmpty, ps)
      else put_entry_record be bl (up_id u) (up_entry u) (up_sha u) ps)"
    and "runs be bl (Ended u r, let_go (up_sha u) ps') y"
  shows "runs be bl (Held u, ps) y"
proof -
  have answered: "runs be bl (Answered u r, ps') y" by (rule runs.go [OF _ assms(2)]) simp
  show ?thesis
  proof (cases "up_size u = 0")
    case True
    then show ?thesis using assms(1) by (intro runs.go [OF _ answered]) simp
  next
    case False
    obtain x ps1 where rec: "record_entry be bl (up_id u) (up_entry u) (up_sha u) ps = (x, ps1)"
      by (cases "record_entry be bl (up_id u) (up_entry u) (up_sha u) ps")
    show ?thesis
    proof (cases x)
      case (Inl e)
      then show ?thesis using False assms(1) rec by (intro runs.go [OF _ answered]) (simp add: put_entry_record_def)
    next
      case (Inr e)
      have "runs be bl (Writing u, ps1) y"
        using False assms(1) rec Inr by (intro runs.go [OF _ answered]) (auto simp: put_entry_record_def split: prod.splits)
      then show ?thesis using False rec Inr by (intro runs.go) simp_all
    qed
  qed
qed

definition settle_upload :: "('s, 'b) package_backend \<Rightarrow> 'b blob_store \<Rightarrow> string \<Rightarrow> upload_error + string list \<Rightarrow> ('s, 'b) package_store \<Rightarrow> ('s, 'b) package_store" where
  "settle_upload be bl sha r ps =
     (case r of Inr ds \<Rightarrow> sweep be bl ds ps
      | Inl err \<Rightarrow> (let (ds, ps') = doom_failed (err = UploadUnanswered) sha ps in sweep be bl ds ps'))"

lemma runs_ended: "runs be bl (Ended u r, ps) (Finished, settle_upload be bl (up_sha u) r ps)"
proof (cases r)
  case (Inl err)
  obtain ds ps' where d: "doom_failed (err = UploadUnanswered) (up_sha u) ps = (ds, ps')"
    by (cases "doom_failed (err = UploadUnanswered) (up_sha u) ps")
  then have "settle_upload be bl (up_sha u) r ps = sweep be bl ds ps'" by (simp add: settle_upload_def Inl)
  moreover have "runs be bl (Ended u r, ps) (Finished, sweep be bl ds ps')"
    by (rule runs.go [OF _ runs_sweeping [of be bl ds ps']]) (simp add: Inl d)
  ultimately show ?thesis by simp
next
  case (Inr ds)
  have "runs be bl (Ended u r, ps) (Finished, sweep be bl ds ps)"
    by (rule runs.go [OF _ runs_sweeping [of be bl ds ps]]) (simp add: Inr)
  then show ?thesis by (simp add: settle_upload_def Inr)
qed

lemma upload_alone:
  assumes "writable i ps"
  shows "runs be bl (Admitted i plat stream, ps) (Finished, snd (put_entry_from be bl i plat stream ps))"
proof -
  obtain x b where put: "bs_put bl stream (ps_blobs ps) = (x, b)" by (cases "bs_put bl stream (ps_blobs ps)")
  show ?thesis
  proof (cases x)
    case (Inl e)
    then show ?thesis using assms put by (intro runs.go [OF _ runs.stay]) (simp add: put_entry_from_def)
  next
    case (Inr y)
    obtain sha n where y: "y = (sha, n)" by (cases y)
    define u where "u = \<lparr>up_id = i, up_platform = plat, up_sha = sha, up_size = n\<rparr>"
    define ps1 where "ps1 = ps\<lparr>ps_blobs := b\<rparr>"
    have u: "up_id u = i" "up_sha u = sha" "up_size u = n" "up_entry u = uploaded_entry plat sha n"
      by (simp_all add: u_def up_entry_def)
    have "runs be bl (Staged u, ps1) (Finished, snd (put_entry_from be bl i plat stream ps))"
    proof (cases "held_upload sha ps1")
      case None
      have "snd (put_entry_from be bl i plat stream ps) = settle_upload be bl sha (Err UploadRemoved) ps1"
        using assms put Inr y None by (auto simp: put_entry_from_def settle_upload_def ps1_def Let_def split: prod.splits)
      then show ?thesis using runs_ended [of be bl u "Err UploadRemoved" ps1] None u by (intro runs.go) simp_all
    next
      case (Some ps2)
      obtain r ps3 where r: "(r, ps3) = (if n = 0 then (Err UploadEmpty, ps2) else put_entry_record be bl i (uploaded_entry plat sha n) sha ps2)"
        by (metis surj_pair)
      have "snd (put_entry_from be bl i plat stream ps) = settle_upload be bl sha r (let_go sha ps3)"
        using assms put Inr y Some r [symmetric]
        by (auto simp: put_entry_from_def settle_upload_def ps1_def Let_def split: prod.splits sum.splits)
      moreover have "runs be bl (Held u, ps2) (Finished, settle_upload be bl sha r (let_go sha ps3))"
        by (rule runs_recorded) (use r u runs_ended [of be bl u r "let_go sha ps3"] in simp_all)
      ultimately show ?thesis using Some u by (intro runs.go) simp_all
    qed
    then show ?thesis using put Inr y by (intro runs.go) (simp_all add: u_def ps1_def)
  qed
qed

end
