(* ===== verification/Package_Artifacts.thy ===== *)
theory Package_Artifacts
  imports Package_Uploads
begin

text \<open>
  The filesystem adapters keep the contracts of the package store's ports (\<open>fs/packages.rs\<close>,
  \<open>fs/blobs.rs\<close>), and what follows for a Server that runs over them.
\<close>

declare split_paired_All [simp del] split_paired_Ex [simp del]

section \<open>The files keep the contract\<close>

definition package_wf :: "key2 \<Rightarrow> package \<Rightarrow> bool" where
  "package_wf k p \<longleftrightarrow> k = pkey (pk_id p) \<and> package_ok (pk_id p) \<and> bt_wf (pk_entries p)
     \<and> (\<forall>pk e. map_of (pk_entries p) pk = Some e \<longrightarrow> pk = plat_key (entry_platform e) \<and> entry_ok e)"

definition sets_wf :: "package_sets \<Rightarrow> bool" where
  "sets_wf m \<longleftrightarrow> bt_wf m \<and> (\<forall>k p. map_of m k = Some p \<longrightarrow> package_wf k p)"

text \<open>The file of a stem holds the Package the stem names.\<close>

definition file_of :: "package_sets \<Rightarrow> string \<Rightarrow> package_meta option option" where
  "file_of m stem =
     (case package_parse stem of
        Inl _ \<Rightarrow> None
      | Inr i \<Rightarrow> map_option (\<lambda>p. Some (package_meta_of p)) (map_of m (pkey i)))"

definition pfs_held :: "package_files disk \<Rightarrow> package_sets \<Rightarrow> bool" where
  "pfs_held d m \<longleftrightarrow> IoLate \<notin> set (disk_outcomes d) \<and> sets_wf m \<and> bt_wf (disk_content d) \<and> map_of (disk_content d) = file_of m"

lemma pkey_inject: "pkey i = pkey j \<longleftrightarrow> i = j"
  by (auto simp: pkey_def intro: package_id.equality)

lemma plat_key_inject: "plat_key p = plat_key q \<longleftrightarrow> p = q"
  by (auto simp: plat_key_def intro: platform.equality)

lemma parse_stem: "package_parse stem = Ok i \<longleftrightarrow> package_ok i \<and> stem = package_display i"
  using package_parse_display package_display_parse by blast

lemma file_of_display: "package_ok i \<Longrightarrow> file_of m (package_display i) = map_option (\<lambda>p. Some (package_meta_of p)) (map_of m (pkey i))"
  by (simp add: file_of_def package_parse_display)

lemma file_of_upd:
  assumes "package_ok i" and "map_of m' = (map_of m)(pkey i := v)"
  shows "file_of m' = (file_of m)(package_display i := map_option (\<lambda>p. Some (package_meta_of p)) v)"
  using assms by (auto simp: file_of_def fun_eq_iff parse_stem pkey_inject package_parse_display split: sum.splits)

lemma hex_byte_hash: "length (hex_byte c) = 2 \<and> list_all (\<lambda>b. is_ascii_digit b \<or> (97 \<le> byte b \<and> byte b \<le> 102)) (hex_byte c)"
proof -
  have "\<forall>n < 16. is_ascii_digit (hex_digit n) \<or> (97 \<le> byte (hex_digit n) \<and> byte (hex_digit n) \<le> 102)" by code_simp
  moreover have "byte c div 16 < 16" "byte c mod 16 < 16" using byte_less [of c] by auto
  ultimately show ?thesis by (auto simp: hex_byte_def)
qed

lemma is_hash_encode: "length s = 32 \<Longrightarrow> is_hash (hex_encode s)"
proof -
  have "length (hex_encode s) = 2 * length s \<and> list_all (\<lambda>b. is_ascii_digit b \<or> (97 \<le> byte b \<and> byte b \<le> 102)) (hex_encode s)"
    by (induction s) (use hex_byte_hash in \<open>auto simp: hex_encode_def\<close>)
  then show "length s = 32 \<Longrightarrow> is_hash (hex_encode s)" by (simp add: is_hash_def)
qed

definition entry_meta_of :: "package_entry \<Rightarrow> entry_meta" where
  "entry_meta_of e = \<lparr>em_os = os (entry_platform e), em_arch = arch (entry_platform e), em_sha256 = hex_encode (content_hash e),
     em_size = entry_size e, em_signature_hex = map_option hex_encode (entry_signature e)\<rparr>"

lemma parse_entry_meta: "entry_ok e \<Longrightarrow> parse_package_entry (entry_meta_of e) = Some e"
  by (cases "entry_signature e")
    (auto simp: parse_package_entry_def entry_meta_of_def entry_ok_def is_hash_encode intro: package_entry.equality)

lemma parse_entries_meta:
  "\<forall>(pk, e) \<in> set es. pk = plat_key (entry_platform e) \<and> entry_ok e \<Longrightarrow>
   parse_package_entries (map (\<lambda>(_, e). entry_meta_of e) es) m = Some (fold (\<lambda>e. bt_insert (fst e) (snd e)) es m)"
  by (induction es arbitrary: m) (auto simp: parse_entry_meta)

lemma pfs_parse_meta:
  assumes "package_wf k p"
  shows "pfs_parse (package_display (pk_id p)) (Some (package_meta_of p)) = Ok p"
proof -
  have wf: "bt_wf (pk_entries p)" and ok: "package_ok (pk_id p)" using assms by (auto simp: package_wf_def)
  have "\<forall>(pk, e) \<in> set (pk_entries p). pk = plat_key (entry_platform e) \<and> entry_ok e"
    using assms bt_wf_map_of_iff [OF wf] by (auto simp: package_wf_def)
  from parse_entries_meta [OF this, of "[]"] bt_collect_id [OF wf]
  have "parse_package_entries (pm_entries (package_meta_of p)) [] = Some (pk_entries p)"
    by (simp add: package_meta_of_def entry_meta_of_def bt_collect_def)
  moreover have "package_load (agent_type (pk_id p)) (pkg_version (pk_id p)) = Ok (pk_id p)"
    using ok by (simp add: package_load_ok)
  ultimately show ?thesis
    by (simp add: pfs_parse_def package_meta_of_def)
qed

lemma pfs_read_held:
  assumes "pfs_held d m" and "package_ok i"
  shows "pfs_read i d = Ok (map_of m (pkey i))"
proof (cases "map_of m (pkey i)")
  case None
  then show ?thesis using assms by (simp add: pfs_held_def pfs_read_def file_of_display)
next
  case (Some p)
  then have wf: "package_wf (pkey i) p" using assms(1) by (auto simp: pfs_held_def sets_wf_def)
  then have "pk_id p = i" by (simp add: package_wf_def pkey_inject)
  then have "pfs_parse (package_display i) (Some (package_meta_of p)) = Ok p" using pfs_parse_meta [OF wf] by simp
  then show ?thesis using assms Some by (simp add: pfs_held_def pfs_read_def file_of_display)
qed

lemma not_late:
  assumes "IoLate \<notin> set (disk_outcomes d)"
  shows "replace_doc f d = (x, d') \<Longrightarrow> IoLate \<notin> set (disk_outcomes d') \<and> disk_content d' = (if x then f (disk_content d) else disk_content d)"
    and "step_doc f d = (x, d') \<Longrightarrow> IoLate \<notin> set (disk_outcomes d') \<and> disk_content d' = (if x then f (disk_content d) else disk_content d)"
  using assms by (auto simp: replace_doc_def step_doc_def next_io_def Let_def split: list.splits io.splits)

lemma pfs_put_held:
  assumes h: "pfs_held d m" and wf: "package_wf (pkey i) p" and m': "bt_wf m'" "map_of m' = (map_of m)(pkey i \<mapsto> p)"
    and put: "pfs_put p d = (r, d')"
  shows "pfs_held d' (case r of Inl _ \<Rightarrow> m | Inr _ \<Rightarrow> m')"
proof -
  have i: "pk_id p = i" "package_ok i" using wf by (auto simp: package_wf_def pkey_inject)
  obtain x d1 where doc: "replace_doc (bt_insert (package_display i) (Some (package_meta_of p))) d = (x, d1)"
    by (cases "replace_doc (bt_insert (package_display i) (Some (package_meta_of p))) d")
  then have d1: "d' = d1" "r = (if x then Ok () else Err ())" using put i(1) by (auto simp: pfs_put_def split: bool.splits if_splits)
  have "sets_wf m'" using h m' wf by (auto simp: pfs_held_def sets_wf_def)
  moreover have "file_of m' = (file_of m)(package_display i \<mapsto> Some (package_meta_of p))" using file_of_upd [OF i(2) m'(2)] by simp
  ultimately show ?thesis
    using h not_late(1) [OF _ doc] d1 by (auto simp: pfs_held_def)
qed

lemma pfs_amend_held:
  assumes h: "pfs_held d m" and i: "package_ok i" and p: "map_of m (pkey i) = Some p"
    and c: "change p = (changed, p', a)" and wf: "changed \<Longrightarrow> package_wf (pkey i) p'" and am: "pfs_amend i change d = (r, d')"
  shows "(case r of Inl _ \<Rightarrow> pfs_held d' m
      | Inr x \<Rightarrow> x = a \<and> pfs_held d' (if changed then bt_adjust (pkey i) (\<lambda>_. p') m else m))"
proof (cases changed)
  case False
  then show ?thesis using am pfs_read_held [OF h i] p c h by (auto simp: pfs_amend_def)
next
  case True
  obtain x d1 where put: "pfs_put p' d = (x, d1)" by (cases "pfs_put p' d")
  have "bt_wf m" using h by (simp add: pfs_held_def sets_wf_def)
  then have "pfs_held d1 (case x of Inl _ \<Rightarrow> m | Inr _ \<Rightarrow> bt_adjust (pkey i) (\<lambda>_. p') m)"
    by (intro pfs_put_held [OF h wf [OF True] _ _ put]) (auto simp: p fun_eq_iff)
  then show ?thesis using am pfs_read_held [OF h i] p c put True by (auto simp: pfs_amend_def split: sum.splits)
qed

lemma package_at: "pfs_held d m \<Longrightarrow> map_of m (pkey i) = Some p \<Longrightarrow> package_wf (pkey i) p"
  by (auto simp: pfs_held_def sets_wf_def)

lemma package_wf_insert:
  "package_wf k p \<Longrightarrow> entry_ok e \<Longrightarrow> package_wf k (p\<lparr>pk_entries := bt_insert (plat_key (entry_platform e)) e (pk_entries p)\<rparr>)"
  by (auto simp: package_wf_def split: if_splits)

lemma package_wf_remove: "package_wf k p \<Longrightarrow> package_wf k (p\<lparr>pk_entries := bt_remove pk (pk_entries p)\<rparr>)"
  by (auto simp: package_wf_def split: if_splits)

lemma adjust_const: "bt_wf m \<Longrightarrow> map_of m k = Some p \<Longrightarrow> bt_adjust k (\<lambda>_. f p) m = bt_adjust k f m"
  by (rule bt_eqI) (auto simp: fun_eq_iff)

lemma held_bt_wf: "pfs_held d m \<Longrightarrow> bt_wf m"
  by (simp add: pfs_held_def sets_wf_def)

lemma load_files_map:
  "(\<And>stem fl. (stem, fl) \<in> set fs \<Longrightarrow> pfs_parse stem fl = Ok (g stem)) \<Longrightarrow> pfs_load_files fs = Ok (map (g \<circ> fst) fs)"
  by (induction fs rule: pfs_load_files.induct) auto

lemma pfs_load_held:
  assumes h: "pfs_held d m"
  shows "\<exists>ps. pfs_load d = Ok ps \<and> bt_collect (map (\<lambda>p. (pkey (pk_id p), p)) ps) = m \<and> set (map (\<lambda>p. (pkey (pk_id p), p)) ps) = set m"
proof -
  have wf: "bt_wf m" "bt_wf (disk_content d)" and files: "map_of (disk_content d) = file_of m"
    using h by (auto simp: pfs_held_def sets_wf_def)
  define g where "g stem = (case package_parse stem of Inr i \<Rightarrow> the (map_of m (pkey i)) | Inl _ \<Rightarrow> undefined)" for stem
  have one: "\<exists>i p. stem = package_display i \<and> package_ok i \<and> map_of m (pkey i) = Some p \<and> pk_id p = i \<and> g stem = p \<and> pfs_parse stem fl = Ok p"
    if "(stem, fl) \<in> set (disk_content d)" for stem fl
  proof -
    have "file_of m stem = Some fl" using that bt_wf_map_of_iff [OF wf(2)] files by metis
    then obtain i p where i: "package_parse stem = Ok i" "map_of m (pkey i) = Some p" "fl = Some (package_meta_of p)"
      by (auto simp: file_of_def split: sum.splits)
    have "package_wf (pkey i) p" by (rule package_at [OF h i(2)])
    moreover from this have "pk_id p = i" by (simp add: package_wf_def pkey_inject)
    moreover have "g stem = p" using i(1,2) by (simp add: g_def)
    moreover have "stem = package_display i" "package_ok i" using i(1) parse_stem by simp_all
    ultimately show ?thesis using i(2,3) pfs_parse_meta [of "pkey i" p] by blast
  qed
  define ps where "ps = map (g \<circ> fst) (disk_content d)"
  have load: "pfs_load d = Ok ps"
    unfolding pfs_load_def ps_def by (rule load_files_map) (use one in fastforce)
  have all: "set (map (\<lambda>p. (pkey (pk_id p), p)) ps) = set m"
  proof (intro equalityI subsetI)
    fix x assume "x \<in> set (map (\<lambda>p. (pkey (pk_id p), p)) ps)"
    then obtain stem fl where "(stem, fl) \<in> set (disk_content d)" "x = (pkey (pk_id (g stem)), g stem)" by (auto simp: ps_def)
    then show "x \<in> set m" using one bt_wf_map_of_iff [OF wf(1)] by metis
  next
    fix x assume "x \<in> set m"
    moreover obtain k p where x: "x = (k, p)" by (cases x)
    ultimately have x: "x = (k, p)" "map_of m k = Some p" using bt_wf_map_of_iff [OF wf(1)] by simp_all
    then have pw: "package_wf k p" using h by (auto simp: pfs_held_def sets_wf_def)
    then have k: "k = pkey (pk_id p)" "package_ok (pk_id p)" by (auto simp: package_wf_def)
    then have "map_of (disk_content d) (package_display (pk_id p)) = Some (Some (package_meta_of p))"
      using files x(2) by (simp add: file_of_display)
    then have "(package_display (pk_id p), Some (package_meta_of p)) \<in> set (disk_content d)" using map_of_SomeD by metis
    moreover have "g (package_display (pk_id p)) = p" using k x(2) by (simp add: g_def package_parse_display)
    ultimately show "x \<in> set (map (\<lambda>p. (pkey (pk_id p), p)) ps)" using x(1) k(1) by (force simp: ps_def)
  qed
  have "distinct (map fst (map (\<lambda>p. (pkey (pk_id p), p)) ps))"
  proof -
    have "inj_on (\<lambda>x. pkey (pk_id (g (fst x)))) (set (disk_content d))"
      using one bt_wf_map_of_iff [OF wf(2)] by (intro inj_onI) (metis option.inject pkey_inject prod.collapse)
    moreover have "distinct (disk_content d)" using bt_wf_distinct [OF wf(2)] distinct_map by blast
    ultimately show ?thesis by (simp add: ps_def distinct_map comp_def)
  qed
  then have "map_of (rev (map (\<lambda>p. (pkey (pk_id p), p)) ps)) = map_of m"
    using all bt_wf_distinct [OF wf(1)] by (intro map_of_inject_set [THEN iffD2]) (auto simp: rev_map [symmetric])
  then have "bt_collect (map (\<lambda>p. (pkey (pk_id p), p)) ps) = m"
    by (intro bt_eqI) (simp_all add: wf(1) map_of_bt_collect)
  then show ?thesis using load all by blast
qed

interpretation fs_packages: package_files "fs_package_backend :: (package_files disk, 'b) package_backend" pfs_held
proof
  fix s m and i :: package_id and r s'
  assume h: "pfs_held s m" and i: "package_ok i"
  note wf = held_bt_wf [OF h]
  show "pfs_held s' (case r of Inl _ \<Rightarrow> m | Inr _ \<Rightarrow> bt_insert (pkey i) \<lparr>pk_id = i, pk_entries = []\<rparr> m)"
    if "map_of m (pkey i) = None" "pb_create (fs_package_backend :: (package_files disk, 'b) package_backend) i s = (r, s')"
    by (rule pfs_put_held [OF h, of i "\<lparr>pk_id = i, pk_entries = []\<rparr>"])
      (use that i wf pfs_read_held [OF h i] in \<open>auto simp: fs_package_backend_def pfs_create_def package_wf_def\<close>)
  show "pfs_held s' (case r of Inl _ \<Rightarrow> m | Inr _ \<Rightarrow> bt_remove (pkey i) m)"
    if "pb_remove (fs_package_backend :: (package_files disk, 'b) package_backend) i s = (r, s')"
  proof -
    obtain x d1 where doc: "step_doc (bt_remove (package_display i)) s = (x, d1)" by (cases "step_doc (bt_remove (package_display i)) s")
    have "file_of (bt_remove (pkey i) m) = (file_of m)(package_display i := None)"
      using file_of_upd [OF i, of "bt_remove (pkey i) m" m None] by simp
    moreover have "sets_wf (bt_remove (pkey i) m)" using h by (auto simp: pfs_held_def sets_wf_def split: if_splits)
    ultimately show ?thesis
      using that doc h not_late(2) [OF _ doc] by (cases x) (auto simp: fs_package_backend_def pfs_remove_def pfs_held_def)
  qed
next
  fix s m and i :: package_id and plat e r s'
  assume h: "pfs_held s m" and i: "package_ok i" and e: "previous_entry i plat m = Some e"
    and rem: "pb_remove_entry (fs_package_backend :: (package_files disk, 'b) package_backend) i plat s = (r, s')"
  obtain p where p: "map_of m (pkey i) = Some p" "map_of (pk_entries p) (plat_key plat) = Some e"
    using e by (auto simp: previous_entry_def split: option.splits)
  define change :: "package \<Rightarrow> bool \<times> package \<times> unit"
    where "change = (\<lambda>p. (bt_contains (pk_entries p) (plat_key plat), p\<lparr>pk_entries := bt_remove (plat_key plat) (pk_entries p)\<rparr>, ()))"
  obtain x d1 where am: "pfs_amend i change s = (x, d1)" by (cases "pfs_amend i change s")
  have ch: "change p = (True, p\<lparr>pk_entries := bt_remove (plat_key plat) (pk_entries p)\<rparr>, ())"
    using p(2) by (simp add: change_def domIff)
  from pfs_amend_held [OF h i p(1) ch package_wf_remove [OF package_at [OF h p(1)], of "plat_key plat"] am]
  have "case x of Inl _ \<Rightarrow> pfs_held d1 m | Inr _ \<Rightarrow> pfs_held d1 (set_entry i plat None m)"
    using adjust_const [OF held_bt_wf [OF h] p(1), of "\<lambda>p. p\<lparr>pk_entries := bt_remove (plat_key plat) (pk_entries p)\<rparr>"]
    by (simp add: set_entry_def split: sum.splits)
  then show "pfs_held s' (case r of Inl _ \<Rightarrow> m | Inr _ \<Rightarrow> set_entry i plat None m)"
    using rem am pfs_read_held [OF h i] p(1)
    by (auto simp: fs_package_backend_def pfs_remove_entry_def change_def split: sum.splits prod.splits)
next
  fix s m and i :: package_id and e q b rp s' and b' :: 'b
  assume h: "pfs_held s m" and i: "package_ok i" and e: "entry_ok e" and set: "map_of m (pkey i) \<noteq> None"
    and put: "pb_put_entry fs_package_backend i e q s b = (rp, s', b')"
  obtain p where p: "map_of m (pkey i) = Some p" using set by blast
  define f :: "package \<Rightarrow> package" where "f = (\<lambda>p. p\<lparr>pk_entries := bt_insert (plat_key (entry_platform e)) e (pk_entries p)\<rparr>)"
  obtain x d1 where am: "pfs_amend i (\<lambda>p. (True, f p, ())) s = (x, d1)" by (cases "pfs_amend i (\<lambda>p. (True, f p, ())) s")
  have "package_wf (pkey i) (f p)" unfolding f_def by (rule package_wf_insert [OF package_at [OF h p] e])
  from pfs_amend_held [OF h i p refl this am]
  have "case x of Inl _ \<Rightarrow> pfs_held d1 m | Inr _ \<Rightarrow> pfs_held d1 (put_into_set i e m)"
    using adjust_const [OF held_bt_wf [OF h] p, of f] by (simp add: put_into_set_def f_def split: sum.splits)
  moreover obtain a b1 where q: "q b = (a, b1)" by (cases "q b")
  ultimately show "b' = snd (q b) \<and> (case rp of Inl _ \<Rightarrow> pfs_held s' m | Inr _ \<Rightarrow> fst (q b) = Ok True \<and> pfs_held s' (put_into_set i e m))"
    using put am h by (auto simp: fs_package_backend_def pfs_put_entry_def f_def split: sum.splits bool.splits prod.splits)
next
  fix s m and i :: package_id and plat e sig rs s'
  assume h: "pfs_held s m" and i: "package_ok i" and e: "previous_entry i plat m = Some e"
    and sig: "\<forall>x. sig = Some x \<longrightarrow> length x = ED25519_SIGNATURE_LEN"
    and sign: "pb_sign (fs_package_backend :: (package_files disk, 'b) package_backend) i plat (content_hash e) sig s = (rs, s')"
  obtain p where p: "map_of m (pkey i) = Some p" "map_of (pk_entries p) (plat_key plat) = Some e"
    using e by (auto simp: previous_entry_def split: option.splits)
  define e' where "e' = e\<lparr>entry_signature := sig\<rparr>"
  have pw: "package_wf (pkey i) p" by (rule package_at [OF h p(1)])
  then have "entry_ok e'" and pl: "plat_key plat = plat_key (entry_platform e')"
    using p(2) sig by (auto simp: package_wf_def entry_ok_def e'_def)
  then have wf: "package_wf (pkey i) (p\<lparr>pk_entries := bt_insert (plat_key plat) e' (pk_entries p)\<rparr>)"
    using package_wf_insert [OF pw, of e'] by simp
  define change :: "package \<Rightarrow> bool \<times> package \<times> signed" where "change = (\<lambda>p. case map_of (pk_entries p) (plat_key plat) of
      None \<Rightarrow> (False, p, SignedChanged None)
    | Some x \<Rightarrow> if content_hash x = content_hash e
        then (True, p\<lparr>pk_entries := bt_insert (plat_key plat) (x\<lparr>entry_signature := sig\<rparr>) (pk_entries p)\<rparr>, SignedWritten)
        else (False, p, SignedChanged (Some x)))"
  obtain x d1 where am: "pfs_amend i change s = (x, d1)" by (cases "pfs_amend i change s")
  have ch: "change p = (True, p\<lparr>pk_entries := bt_insert (plat_key plat) e' (pk_entries p)\<rparr>, SignedWritten)"
    using p(2) by (simp add: change_def e'_def)
  have "case x of Inl _ \<Rightarrow> pfs_held d1 m | Inr y \<Rightarrow> y = SignedWritten \<and> pfs_held d1 (set_entry i plat (Some e') m)"
    using pfs_amend_held [OF h i p(1) ch wf am]
      adjust_const [OF held_bt_wf [OF h] p(1), of "\<lambda>p. p\<lparr>pk_entries := bt_insert (plat_key plat) e' (pk_entries p)\<rparr>"]
    by (simp add: set_entry_def split: sum.splits)
  then show "(\<exists>x. rs = Err x \<and> pfs_held s' m)
      \<or> (rs = Ok SignedWritten \<and> pfs_held s' (set_entry i plat (Some (e\<lparr>entry_signature := sig\<rparr>)) m))"
    using sign am pfs_read_held [OF h i] p(1) unfolding e'_def
    by (auto simp: fs_package_backend_def pfs_sign_def change_def split: sum.splits prod.splits)
next
  fix s m
  assume "pfs_held s m"
  from pfs_load_held [OF this]
  show "\<exists>ps. pb_load (fs_package_backend :: (package_files disk, 'b) package_backend) s = Ok ps
      \<and> bt_collect (map (\<lambda>p. (pkey (pk_id p), p)) ps) = m \<and> set (map (\<lambda>p. (pkey (pk_id p), p)) ps) = set m"
    by (simp add: fs_package_backend_def)
qed

section \<open>The blobs keep the contract\<close>

definition fsb_stored :: "blob_files disk \<Rightarrow> string \<Rightarrow> string option" where
  "fsb_stored d sha = (if is_hash sha then map_of (disk_content d) sha else None)"

definition fsb_intact :: "(string \<Rightarrow> string) \<Rightarrow> blob_files disk \<Rightarrow> bool" where
  "fsb_intact sha256 d \<longleftrightarrow> bt_wf (disk_content d)
     \<and> (\<forall>sha bytes. map_of (disk_content d) sha = Some bytes \<longrightarrow> is_hash sha \<and> sha = hex_encode (sha256 bytes))"

lemma step_doc_cases:
  "step_doc f d = (x, d') \<Longrightarrow> disk_content d' = (if x then f (disk_content d) else disk_content d)"
  using step_doc_ok step_doc_err by (cases x) auto

interpretation fs_blobs: blob_files "fs_blob_store sha256" sha256 fsb_stored "fsb_intact sha256" for sha256
proof
  fix b stream sha n b'
  assume i: "fsb_intact sha256 b" and put: "bs_put (fs_blob_store sha256) stream b = (Ok (sha, n), b')"
  obtain bytes where bytes: "stream = Ok bytes" "sha = hex_encode (sha256 bytes)" "n = length bytes" "is_hash sha"
    "step_doc (if bt_contains (disk_content b) sha then id else bt_insert sha bytes) b = (True, b')"
    using put by (auto simp: fs_blob_store_def fsb_put_def Let_def split: sum.splits if_splits prod.splits bool.splits)
  have c: "disk_content b' = (if bt_contains (disk_content b) sha then disk_content b else bt_insert sha bytes (disk_content b))"
    using step_doc_cases [OF bytes(5)] by simp
  have "fsb_intact sha256 b'" using i bytes c by (auto simp: fsb_intact_def split: if_splits)
  moreover have "fsb_stored b' = (fsb_stored b)(sha \<mapsto> (case fsb_stored b sha of None \<Rightarrow> bytes | Some old \<Rightarrow> old))"
    using bytes(4) c by (auto simp: fsb_stored_def fun_eq_iff domIff split: option.splits if_splits)
  ultimately show "\<exists>bytes. stream = Ok bytes \<and> sha = hex_encode (sha256 bytes) \<and> n = length bytes \<and> fsb_intact sha256 b'
      \<and> fsb_stored b' = (fsb_stored b)(sha \<mapsto> (case fsb_stored b sha of None \<Rightarrow> bytes | Some old \<Rightarrow> old))"
    using bytes by blast
next
  fix b stream x b'
  assume i: "fsb_intact sha256 b" and put: "bs_put (fs_blob_store sha256) stream b = (Err x, b')"
  have "disk_content b' = disk_content b"
    using put step_doc_err
    by (auto simp: fs_blob_store_def fsb_put_def Let_def split: sum.splits if_splits prod.splits bool.splits)
  then show "fsb_intact sha256 b' \<and> fsb_stored b' = fsb_stored b" using i by (simp add: fsb_intact_def fsb_stored_def fun_eq_iff)
next
  fix b sha re b'
  assume i: "fsb_intact sha256 b" and ex: "bs_exists (fs_blob_store sha256) sha b = (re, b')"
  have "disk_content b' = disk_content b \<and> (re = Ok True \<longrightarrow> is_hash sha \<and> bt_contains (disk_content b) sha)"
    using ex step_doc_cases [of id b]
    by (auto simp: fs_blob_store_def fsb_exists_def split: if_splits prod.splits bool.splits)
  then show "fsb_intact sha256 b' \<and> fsb_stored b' = fsb_stored b \<and> (re = Ok True \<longrightarrow> fsb_stored b sha \<noteq> None)"
    using i by (auto simp: fsb_intact_def fsb_stored_def fun_eq_iff)
next
  fix b sha r b'
  assume i: "fsb_intact sha256 b" and del: "bs_delete (fs_blob_store sha256) sha b = (r, b')"
  show "fsb_intact sha256 b' \<and> (fsb_stored b' = (fsb_stored b)(sha := None) \<or> fsb_stored b' = fsb_stored b)
      \<and> (r = Ok () \<longrightarrow> fsb_stored b' = (fsb_stored b)(sha := None))"
  proof (cases "is_hash sha")
    case False
    then have "r = Err ()" "b' = b" using del by (auto simp: fs_blob_store_def fsb_delete_def)
    then show ?thesis using i by simp
  next
    case True
    obtain x d where doc: "step_doc (bt_remove sha) b = (x, d)" by (cases "step_doc (bt_remove sha) b")
    have res: "b' = d" "r = (if x then Ok () else Err ())" using del doc True by (auto simp: fs_blob_store_def fsb_delete_def split: bool.splits)
    have "disk_content b' = (if x then bt_remove sha (disk_content b) else disk_content b)" using step_doc_cases [OF doc] res(1) by simp
    then show ?thesis using i res(2) by (cases x) (auto simp: fsb_intact_def fsb_stored_def fun_eq_iff split: if_splits)
  qed
next
  fix b sha bytes
  assume "fsb_intact sha256 b" "fsb_stored b sha = Some bytes"
  then show "bs_get (fs_blob_store sha256) sha b = Ok bytes" "sha = hex_encode (sha256 bytes)"
    by (auto simp: fsb_stored_def fs_blob_store_def fsb_get_def fsb_intact_def split: if_splits)
next
  fix b
  assume i: "fsb_intact sha256 b"
  have wf: "bt_wf (disk_content b)" using i by (simp add: fsb_intact_def)
  have "list_all (\<lambda>(name, bytes). is_hash name \<and> hex_encode (sha256 bytes) = name) (disk_content b)"
    using i bt_wf_map_of_iff [OF wf] by (auto simp: fsb_intact_def list_all_iff)
  then have l: "bs_list (fs_blob_store sha256) b = Ok (map (\<lambda>(name, bytes). (name, length bytes)) (disk_content b))"
    by (simp add: fs_blob_store_def fsb_list_def)
  have "map_of (map (\<lambda>(name, bytes). (name, length bytes)) (disk_content b)) = (\<lambda>sha. map_option length (fsb_stored b sha))"
  proof
    fix sha
    have "fsb_stored b sha = map_of (disk_content b) sha"
      using i unfolding fsb_stored_def fsb_intact_def by (cases "map_of (disk_content b) sha") auto
    then show "map_of (map (\<lambda>(name, bytes). (name, length bytes)) (disk_content b)) sha = map_option length (fsb_stored b sha)"
      by (simp add: map_of_map)
  qed
  moreover have "distinct (map fst (map (\<lambda>(name, bytes). (name, length bytes)) (disk_content b)))"
    using bt_wf_distinct [OF wf] by (simp add: comp_def case_prod_beta)
  ultimately show "\<exists>l. bs_list (fs_blob_store sha256) b = Ok l \<and> distinct (map fst l) \<and> map_of l = (\<lambda>sha. map_option length (fsb_stored b sha))"
    using l by blast
qed

interpretation fs_site: package_site fs_package_backend pfs_held "fs_blob_store sha256" sha256 fsb_stored "fsb_intact sha256" for sha256
  by unfold_locales

section \<open>Properties\<close>

text \<open>What an open of the store answers, and what a download of an entry is served.\<close>

definition opens :: "(string \<Rightarrow> string) \<Rightarrow> package_files disk \<Rightarrow> blob_files disk \<Rightarrow> bool" where
  "opens sha256 s b \<longleftrightarrow>
     (case fst (with_backend fs_package_backend (fs_blob_store sha256) s b) of
        Inl e \<Rightarrow> e = BlobUndeleted
      | Inr ps \<Rightarrow> \<forall>sha bytes. fsb_get sha (ps_blobs ps) = Ok bytes \<longrightarrow> referenced (ps_sets ps) sha)"

definition served :: "(string \<Rightarrow> string) \<Rightarrow> (package_files disk, blob_files disk) package_store \<Rightarrow> package_entry \<Rightarrow> bool" where
  "served sha256 ps e \<longleftrightarrow>
     (\<exists>bytes. fsb_get (blob_name e) (ps_blobs ps) = Ok bytes \<and> sha256 bytes = content_hash e \<and> length bytes = entry_size e)"

definition empty_store :: "io list \<Rightarrow> 'a list disk" where
  "empty_store outs = \<lparr>disk_content = [], disk_outcomes = outs\<rparr>"

definition site_run :: "(string \<Rightarrow> string) \<Rightarrow> io list \<Rightarrow> io list \<Rightarrow> site_act list \<Rightarrow> (package_files disk, blob_files disk) site" where
  "site_run sha256 file_io blob_io acts =
     fold (site_step fs_package_backend (fs_blob_store sha256)) acts (Down (empty_store file_io) (empty_store blob_io))"

lemma fsb_get_stored: "fsb_get sha d = Ok bytes \<longleftrightarrow> fsb_stored d sha = Some bytes"
  by (auto simp: fsb_get_def fsb_stored_def split: option.splits)

lemma opens_kept:
  assumes "fs_site.blobs_ok sha256 U b" and "pfs_held s m" and "\<forall>e \<in> set (all_entries m). fs_site.kept sha256 U b e"
  shows "opens sha256 s b"
proof -
  obtain r b' where w: "with_backend fs_package_backend (fs_blob_store sha256) s b = (r, b')"
    by (cases "with_backend fs_package_backend (fs_blob_store sha256) s b")
  from fs_site.open_kept [OF assms w] show ?thesis
    using w by (auto simp: opens_def fsb_get_stored)
qed


definition demo_digest :: "string \<Rightarrow> string" where
  "demo_digest bytes = replicate 31 (CHR 0x00) @ [char_of (length bytes)]"

text \<open>Two uploads for one platform cross, and the second replaces the entry of the first.\<close>

definition demo_acts :: "site_act list" where
  "demo_acts =
     [Restart, CreateSet ''col'' ''1.0.0'', Upload ''col'' ''1.0.0'' ''linux'' ''amd64'' (Ok ''a''),
      Upload ''col'' ''1.0.0'' ''linux'' ''amd64'' (Ok ''bb''), Advance 0, Advance 1, Advance 0, Advance 1, Advance 0,
      Advance 0, Advance 0, Advance 1, Advance 1, Advance 1, Advance 1, Advance 1, Advance 1]"

definition demo_check :: "('s, blob_files disk) site \<Rightarrow> bool" where
  "demo_check st = (case st of Down _ _ \<Rightarrow> False
     | Up ps _ _ \<Rightarrow> map entry_size (all_entries (ps_sets ps)) = [2] \<and> map snd (disk_content (ps_blobs ps)) = [''bb''])"

lemma demo_evaluates: "demo_check (site_run demo_digest [] [] demo_acts)"
  by code_simp


text \<open>
  The hypothesis on late failures is needed: when the write that records an upload fails after its
  rename, the upload is answered as failed and its blob deleted, though the file names it, and the
  next start is refused.
\<close>

definition late_acts :: "site_act list" where
  "late_acts =
     [Restart, CreateSet ''col'' ''1.0.0'', Upload ''col'' ''1.0.0'' ''linux'' ''amd64'' (Ok ''a''),
      Advance 0, Advance 0, Advance 0, Advance 0, Advance 0, Advance 0]"

definition late_refused :: "(package_files disk, blob_files disk) site \<Rightarrow> bool" where
  "late_refused st = (case st of Down _ _ \<Rightarrow> False
     | Up ps _ _ \<Rightarrow> (case fst (with_backend fs_package_backend (fs_blob_store demo_digest) (ps_files ps) (ps_blobs ps)) of
         Inl (NotStored _ _) \<Rightarrow> True | _ \<Rightarrow> False))"

lemma late_failure_loses_artifact: "late_refused (site_run demo_digest [IoOk, IoLate] [] late_acts)"
  by code_simp

end
