(* ===== verification/Package_Offers.thy ===== *)
theory Package_Offers
  imports Package_Artifacts
begin

text \<open>
  One test decides what an Agent is offered, what it may download and what a rollout would release to
  it: the offer and the download route agree, and so do the candidate and the check of a rollout act.
\<close>

lemma set_at:
  assumes "sets_wf sets" and "map_of sets (pkey i) = Some p"
  shows "pk_id p = i" and "map_of (pk_entries p) (plat_key plat) = Some e \<Longrightarrow> entry_platform e = plat"
proof -
  have wf: "package_wf (pkey i) p" using assms unfolding sets_wf_def by blast
  then show "pk_id p = i" by (simp add: package_wf_def pkey_inject)
  assume "map_of (pk_entries p) (plat_key plat) = Some e"
  then have "plat_key plat = plat_key (entry_platform e)" using wf unfolding package_wf_def by blast
  then show "entry_platform e = plat" by (simp add: plat_key_inject)
qed

lemma held_for: "dep_valid d \<Longrightarrow> package_for d ty = Some j \<Longrightarrow> agent_type j = ty"
  by (auto simp: dep_valid_def package_for_def dest!: map_of_SomeD)

definition demo_description :: "agent_description option" where
  "demo_description =
     Some \<lparr>identifying_attributes = [string_attr ''service.name'' ''col'', string_attr ''service.version'' ''0.9.0''],
           non_identifying_attributes = [string_attr ''os.type'' ''linux'', string_attr ''host.arch'' ''amd64'']\<rparr>"

definition demo_entry :: package_entry where
  "demo_entry = \<lparr>entry_platform = \<lparr>os = ''linux'', arch = ''amd64''\<rparr>, content_hash = replicate 32 CHR ''h'', entry_size = 1,
     entry_signature = Some (replicate 64 CHR ''s'')\<rparr>"

definition demo_package :: package_id where
  "demo_package = \<lparr>agent_type = ''col'', pkg_version = ''1.0.0''\<rparr>"

definition demo_sets :: package_sets where
  "demo_sets = [(pkey demo_package, \<lparr>pk_id = demo_package, pk_entries = [(plat_key (entry_platform demo_entry), demo_entry)]\<rparr>)]"

definition demo_deployment :: deployment where
  "demo_deployment = \<lparr>dep_name = ''edge'', selector = [(''site'', ''a'')], packages = [(''col'', demo_package)], configurations = []\<rparr>"

lemma demo_sets_wf: "sets_wf demo_sets"
proof -
  have "platform_new ''linux'' ''amd64'' = Ok \<lparr>os = ''linux'', arch = ''amd64''\<rparr>" "package_ok demo_package" by code_simp+
  then show ?thesis
    by (auto simp: sets_wf_def package_wf_def demo_sets_def demo_entry_def entry_ok_def ED25519_SIGNATURE_LEN_def bt_wf_def split: if_splits)
qed

text \<open>
  C38: The offer and the download route agree: a signed artifact passes the route's test for an Agent
  exactly when it is the entry the Agent is offered, and what the offer names is the digest the
  download streams.
\<close>

theorem offer_matches_download:
  assumes "sets_wf sets"
  shows "(\<exists>a. offerable_of sets i plat = Some a \<and> offered_to a assigned description) \<longleftrightarrow>
     (\<exists>p e sig. offered_entry sets assigned description = Some (p, e, sig) \<and> pk_id p = i \<and> entry_platform e = plat
        \<and> artifact sets i plat = Some (content_hash e, entry_size e)
        \<and> offer_for_assigned sha256 sets assigned description =
            Some \<lparr>pav_packages = [(agent_type i, to_available sha256 p e sig)],
                  all_packages_hash = assigned_hash_for sha256 sets assigned description\<rparr>)"
    (is "?download \<longleftrightarrow> ?offer")
proof
  assume ?download
  then obtain p e sig where p: "map_of sets (pkey i) = Some p" "map_of (pk_entries p) (plat_key plat) = Some e"
    "entry_signature e = Some sig" "assigned = Some i" "fits_artifact description i plat"
    by (auto simp: offerable_of_def offered_to_def split: option.splits if_splits)
  moreover have "pk_id p = i" "entry_platform e = plat" using set_at [OF assms p(1)] p(2) by auto
  moreover have "platform_reported description = Some plat" using p(5) by (simp add: fits_artifact_def)
  ultimately show ?offer
    by (auto simp: offered_entry_def artifact_def offer_for_assigned_def assigned_hash_for_def)
next
  assume ?offer
  then obtain p e sig where o: "offered_entry sets assigned description = Some (p, e, sig)" "pk_id p = i" "entry_platform e = plat"
    by blast
  then obtain j pl where j: "assigned = Some j" "map_of sets (pkey j) = Some p" "fits_artifact description (pk_id p) pl"
    "map_of (pk_entries p) (plat_key pl) = Some e" "entry_signature e = Some sig"
    by (auto simp: offered_entry_def split: option.splits if_splits)
  moreover have "j = i" "pl = plat" using set_at [OF assms j(2)] j(4) o(2,3) by auto
  ultimately show ?download using o(2) by (auto simp: offerable_of_def offered_to_def)
qed

theorem offer_matches_download_witness:
  "\<exists>e :: package_entry. entry_platform e = \<lparr>os = ''linux'', arch = ''amd64''\<rparr>
     \<and> artifact demo_sets demo_package \<lparr>os = ''linux'', arch = ''amd64''\<rparr> = Some (content_hash e, entry_size e)"
proof -
  have "offerable_of demo_sets demo_package \<lparr>os = ''linux'', arch = ''amd64''\<rparr>
      = Some \<lparr>ofr_id = demo_package, ofr_platform = \<lparr>os = ''linux'', arch = ''amd64''\<rparr>\<rparr>" by code_simp
  moreover have "offered_to \<lparr>ofr_id = demo_package, ofr_platform = \<lparr>os = ''linux'', arch = ''amd64''\<rparr>\<rparr> (Some demo_package) demo_description"
    by code_simp
  ultimately have "\<exists>a. offerable_of demo_sets demo_package \<lparr>os = ''linux'', arch = ''amd64''\<rparr> = Some a
      \<and> offered_to a (Some demo_package) demo_description" by simp
  from iffD1 [OF offer_matches_download [OF demo_sets_wf, where ?sha256.0 = demo_digest] this]
  show ?thesis by blast
qed



end
