(* ===== verification/Spec2Isabelle.thy ===== *)
theory Spec2Isabelle
  imports Fleet_Version Core_Rules Agent_Rate Gateway_Rate Throttle Labels Identity Deployments Configs Floors Subjects Enrolment Revocation_Lasting Pace Agent_Protocol Package_Offers
begin

text \<open>
  A verification development of opamp-fleet, a Server that manages a fleet of OpAMP Agents, and the
  Client that runs them on a host (crates \<open>opamp\<close>, \<open>fleet-core\<close>, \<open>fleet-server\<close>, \<open>fleet-agent\<close>).

  \<^bold>\<open>The program and its parts.\<close> A Client on each host supervises processes and speaks OpAMP for them, directly or
  through a Gateway. The Server admits it by a certificate it signed itself, learns from the reports
  what each Agent is and runs, and offers it what an operator released: Configurations and Packages,
  aimed by Deployments whose Selectors match the Agent's description and labels. Saving distributes
  nothing; only a rollout changes what an Agent is assigned. Around this stand the rules that keep a hostile
  or broken peer from hurting the fleet: rate limits, a throttle of failed admissions, the window and
  queue in which a new host enrols, the register of certificates and their revocation, and floors under
  the versions of a Package. Every store of the Server keeps its state in memory and writes it through a port; an
  adapter keeps it in files.

  \<^bold>\<open>How the code is modelled.\<close> A struct is a record, an enum a datatype, \<open>Result\<close> a sum whose left side is the
  error, \<open>Option\<close> an option. A string is its bytes. A \<open>BTreeMap\<close> is an association list sorted by its keys, a
  \<open>HashMap\<close> an association list whose order stands for the one its iterator happens to have. An
  operation takes the state and gives the new one with its answer; an operation under a lock is one step. The reading
  of the clock is an argument. A \<open>dyn\<close> port is a record of functions over the adapter's own state, and
  the laws its users need are a locale, interpreted on the filesystem adapter. The file system is
  the content of the files with a list of outcomes for the writes to come: a write succeeds, fails,
  or fails after the rename, so that every theorem over it holds whichever writes fail. A JSON document is the
  value serde reads from it. SHA-256, Ed25519, the CA and other code of libraries are parameters. Bit masks and
  the protocol's sequence numbers are 64-bit words; counters whose overflow would take centuries are numbers, and the
  i64 range of \<open>standing\<close> is written out.

  \<^bold>\<open>Theories.\<close>
  \<^item> Prelude: results, sorted maps, the file system, runs of a machine and the lemmas all theories share.
  \<^item> Fleet_Version, Core_Rules (\<open>fleet-core\<close>): versions and their precedence, platforms, the names and serials
    of certificates, signed statements and the encoding of a proof.
  \<^item> Rate, Agent_Rate, Gateway_Rate, Throttle (\<open>rate.rs\<close>, \<open>agent_rate.rs\<close>, \<open>gateway/rate.rs\<close>,
    \<open>throttle.rs\<close>): token buckets with their least-recently-used table, the limits on both ends that use them through the contract
    \<open>token_buckets\<close>, and the back-off of an address that fails too often.
  \<^item> Labels, Identity (\<open>attributes.rs\<close>, \<open>labels.rs\<close>, the identities of \<open>packages.rs\<close>): the description a Selector
    sees, and the names of Packages and platforms.
  \<^item> Deployments, Configs, Floors (\<open>deployments.rs\<close>, \<open>configs.rs\<close>, the two \<open>floors.rs\<close> and their files under
    \<open>fs\<close>): what is aimed at whom, the revisions an Agent may be assigned, and the lowest version of a Package still offered
    or installed.
  \<^item> Subjects, Enrolment (\<open>bootstrap.rs\<close> in part, \<open>enrolment.rs\<close>): what a host certificate carries over, the
    window and the queue of requests.
  \<^item> Chains, Ledger, Revocation, Revocation_Held, Revocation_Lasting (\<open>revocation.rs\<close>): the register as data with
    the walks along its chains, the port and its files, every operation, what each keeps, and a Server run
    through acts and restarts.
  \<^item> Package_Store, Package_Uploads, Package_Artifacts, Package_Offers (\<open>packages.rs\<close>, \<open>blobs.rs\<close> and their files
    under \<open>fs\<close>): the store, its uploads and sweeps as threads that interleave, the interpretation of the
    two ports' contracts on the files, and what an Agent is offered.
  \<^item> Opamp_Messages, Agent_Protocol, Pace (\<open>opamp.proto\<close>, \<open>client/protocol.rs\<close>, \<open>server/pace.rs\<close>): the
    messages, the Agent's side of the protocol, and the reader that measures the pace of a WebSocket message.

  \<^bold>\<open>Bounds and fuel.\<close> The loops that follow a chain of certificates carry the source's own bound, the number of
  certificates held, and the lemmas show that it suffices, also on a register with a cycle. Other
  loops are structural recursion. Nothing else is bounded.

  \<^bold>\<open>Not modelled.\<close> The adapters for PostgreSQL and S3 are what a database and an object store make of the requests
  sent to them. The HTTP, WebSocket, TLS and X.509 layers are libraries, and the code around them asynchronous
  tasks. The Client's supervision of processes, its installation as a service, its configuration
  file and its archives are calls into the operating system and into libraries. The REST API
  decodes a request, calls one operation of the stores, and encodes the answer.
\<close>

end
